(* ===== verification/Donut_Prelude.thy ===== *)
theory Donut_Prelude
  imports "HOL-Library.Word" "HOL-Library.Sublist"
begin

text \<open>
  Shared vocabulary of the development: the machine integers and byte strings of
  the Rust sources, results and their sequencing, the big-endian conversions of
  the standard library, UTF-8 validity (\<^verbatim>\<open>std::str::from_utf8\<close>), and the small
  facts about lists and words that the component theories use.

  A Rust \<^verbatim>\<open>String\<close> is the list of its UTF-8 bytes, so that \<^verbatim>\<open>len()\<close> is \<^const>\<open>length\<close>
  and \<^verbatim>\<open>as_bytes()\<close> is the identity; \<open>str\<close> writes an ASCII literal.
\<close>

section \<open>Types\<close>

type_synonym u8 = "8 word"
type_synonym u16 = "16 word"
type_synonym u32 = "32 word"
type_synonym u64 = "64 word"
type_synonym u128 = "128 word"
type_synonym bytes = "u8 list"
type_synonym rstr = "u8 list"

named_theorems wire_simps \<open>evaluation of encoders and decoders on concrete shapes\<close>
named_theorems bytes_len \<open>lengths of encodings\<close>

definition str :: "string \<Rightarrow> rstr" where
  "str s = map of_char s"

section \<open>Results\<close>

definition rbind :: "'e + 'a \<Rightarrow> ('a \<Rightarrow> 'e + 'b) \<Rightarrow> 'e + 'b" where
  "rbind m f = (case m of Inl e \<Rightarrow> Inl e | Inr x \<Rightarrow> f x)"

definition map_err :: "('e \<Rightarrow> 'f) \<Rightarrow> 'e + 'a \<Rightarrow> 'f + 'a" where
  "map_err g m = (case m of Inl e \<Rightarrow> Inl (g e) | Inr x \<Rightarrow> Inr x)"

definition ok_or :: "'a option \<Rightarrow> 'e \<Rightarrow> 'e + 'a" where
  "ok_or m e = (case m of None \<Rightarrow> Inl e | Some x \<Rightarrow> Inr x)"

definition is_ok :: "'e + 'a \<Rightarrow> bool" where
  "is_ok m = (case m of Inl _ \<Rightarrow> False | Inr _ \<Rightarrow> True)"

text \<open>A loop that collects results and returns the first error (\<^verbatim>\<open>?\<close> in its body).\<close>

fun collect_results :: "('a \<Rightarrow> 'e + 'b) \<Rightarrow> 'a list \<Rightarrow> 'e + 'b list" where
  "collect_results f [] = Inr []"
| "collect_results f (x # xs) =
    rbind (f x) (\<lambda>y. rbind (collect_results f xs) (\<lambda>ys. Inr (y # ys)))"

section \<open>Big-endian integers\<close>

definition be16 :: "u16 \<Rightarrow> bytes" where
  "be16 w = [of_nat (unat w div 256), ucast w]"

definition from_be16 :: "u8 \<Rightarrow> u8 \<Rightarrow> u16" where
  "from_be16 h l = of_nat (unat h * 256 + unat l)"

fun be_bytes :: "nat \<Rightarrow> nat \<Rightarrow> bytes" where
  "be_bytes 0 x = []"
| "be_bytes (Suc n) x = be_bytes n (x div 256) @ [of_nat x]"

definition be_nat :: "bytes \<Rightarrow> nat" where
  "be_nat bs = foldl (\<lambda>a b. a * 256 + unat b) 0 bs"

section \<open>UTF-8\<close>

definition utf8_cont :: "u8 \<Rightarrow> bool" where
  "utf8_cont c \<longleftrightarrow> 128 \<le> c \<and> c \<le> 191"

fun utf8_valid :: "bytes \<Rightarrow> bool" where
  "utf8_valid [] = True"
| "utf8_valid (b # r) =
    (if b < 128 then utf8_valid r
     else if 194 \<le> b \<and> b \<le> 223 then
       (case r of c # r' \<Rightarrow> utf8_cont c \<and> utf8_valid r' | _ \<Rightarrow> False)
     else if 224 \<le> b \<and> b \<le> 239 then
       (case r of c # d # r' \<Rightarrow>
          (if b = 224 then 160 \<le> c \<and> c \<le> 191
           else if b = 237 then 128 \<le> c \<and> c \<le> 159
           else utf8_cont c) \<and> utf8_cont d \<and> utf8_valid r'
        | _ \<Rightarrow> False)
     else if 240 \<le> b \<and> b \<le> 244 then
       (case r of c # d # e # r' \<Rightarrow>
          (if b = 240 then 144 \<le> c \<and> c \<le> 191
           else if b = 244 then 128 \<le> c \<and> c \<le> 143
           else utf8_cont c) \<and> utf8_cont d \<and> utf8_cont e \<and> utf8_valid r'
        | _ \<Rightarrow> False)
     else False)"

section \<open>Lemmas on results\<close>

lemma rbind_simps [simp]:
  "rbind (Inl e) f = Inl e"
  "rbind (Inr x) f = f x"
  by (simp_all add: rbind_def)

lemma rbind_eq_Inr_iff: "rbind m f = Inr y \<longleftrightarrow> (\<exists>x. m = Inr x \<and> f x = Inr y)"
  by (cases m) auto

lemma rbind_eq_Inl_iff: "rbind m f = Inl e \<longleftrightarrow> m = Inl e \<or> (\<exists>x. m = Inr x \<and> f x = Inl e)"
  by (cases m) auto

lemma rbind_assoc: "rbind (rbind m f) g = rbind m (\<lambda>x. rbind (f x) g)"
  by (cases m) auto

lemma map_err_simps [simp]:
  "map_err g (Inl e) = Inl (g e)"
  "map_err g (Inr x) = Inr x"
  by (simp_all add: map_err_def)

lemma map_err_eq_Inr_iff [simp]: "map_err g m = Inr y \<longleftrightarrow> m = Inr y"
  by (cases m) auto

lemma ok_or_simps [simp]:
  "ok_or None e = Inl e"
  "ok_or (Some x) e = Inr x"
  by (simp_all add: ok_or_def)

lemma ok_or_eq_Inr_iff [simp]: "ok_or m e = Inr y \<longleftrightarrow> m = Some y"
  by (cases m) auto

lemma ok_or_eq_Inl_iff [simp]: "ok_or m e = Inl d \<longleftrightarrow> m = None \<and> d = e"
  by (cases m) auto

lemma is_ok_simps [simp]: "is_ok (Inl e) = False" "is_ok (Inr x) = True"
  by (simp_all add: is_ok_def)

lemma collect_results_Inr:
  "collect_results f xs = Inr ys \<longleftrightarrow> list_all2 (\<lambda>x y. f x = Inr y) xs ys"
proof (induction xs arbitrary: ys)
  case (Cons x xs)
  then show ?case
    by (cases ys) (auto simp: rbind_eq_Inr_iff)
qed auto

lemma collect_results_total:
  "(\<And>x. x \<in> set xs \<Longrightarrow> f x = Inr (g x)) \<Longrightarrow> collect_results f xs = Inr (map g xs)"
  by (induction xs) auto

lemma collect_results_Inl:
  "collect_results f xs = Inl e \<Longrightarrow> \<exists>x \<in> set xs. f x = Inl e"
  by (induction xs) (auto simp: rbind_eq_Inl_iff)

section \<open>Lemmas on machine integers\<close>

lemma unat_u8_lt [simp]: "unat (b :: u8) < 256"
  using unsigned_less [of b, where ?'a = nat] by simp

lemma unat_u8_le: "unat (b :: u8) \<le> 255"
  using unat_u8_lt [of b] by linarith

lemma unat_u16_lt [simp]: "unat (w :: u16) < 65536"
  using unsigned_less [of w, where ?'a = nat] by simp

lemma unat_of_nat_u8: "n < 256 \<Longrightarrow> unat (of_nat n :: u8) = n"
  by (simp add: unat_of_nat)

lemma unat_of_nat_u16: "n < 65536 \<Longrightarrow> unat (of_nat n :: u16) = n"
  by (simp add: unat_of_nat)

lemma length_be16 [simp, bytes_len]: "length (be16 w) = 2"
  by (simp add: be16_def)

lemma unat_ucast_u16_u8: "unat (ucast (w :: u16) :: u8) = unat w mod 256"
  using unat_of_nat [of "unat w", where ?'a = 8] by simp

lemma from_be16_be16 [simp]: "from_be16 (of_nat (unat w div 256)) (ucast w) = w"
proof -
  have "unat w div 256 < 256"
    using unat_u16_lt [of w] by linarith
  then have "unat (of_nat (unat w div 256) :: u8) * 256 + unat (ucast w :: u8) = unat w"
    by (simp add: unat_of_nat_u8 unat_ucast_u16_u8)
  then show ?thesis
    by (simp only: from_be16_def of_nat_unat ucast_id)
qed

lemma be16_of_nat:
  assumes "n < 65536"
  shows "be16 (of_nat n) = [of_nat (n div 256), of_nat n]"
proof -
  have "(ucast (of_nat n :: u16) :: u8) = of_nat (unat (of_nat n :: u16))"
    by simp
  also have "\<dots> = of_nat n"
    using assms by (simp only: unat_of_nat_u16)
  finally show ?thesis
    using assms by (simp add: be16_def unat_of_nat_u16)
qed

lemma from_be16_of_nat: "n < 65536 \<Longrightarrow> from_be16 (of_nat (n div 256)) (of_nat n) = of_nat n"
  using from_be16_be16 [of "of_nat n"] be16_of_nat [of n] by (simp add: be16_def unat_of_nat_u16)

lemma unat_from_be16: "unat (from_be16 h l) = unat h * 256 + unat l"
proof -
  have "unat h * 256 + unat l < 65536"
    using unat_u8_lt [of h] unat_u8_lt [of l] by linarith
  then show ?thesis
    unfolding from_be16_def by (rule unat_of_nat_u16)
qed

lemma be16_from_be16 [simp]: "be16 (from_be16 h l) = [h, l]"
proof -
  have "unat h * 256 + unat l = unat l + 256 * unat h"
    by simp
  then show ?thesis
    unfolding be16_def unat_from_be16
    by (auto simp: word_unat_eq_iff unat_of_nat unat_ucast_u16_u8 unat_from_be16
        simp del: of_nat_add of_nat_mult)
qed

lemma length_be_bytes [simp, bytes_len]: "length (be_bytes n x) = n"
  by (induction n arbitrary: x) auto

lemma be_bytes_numeral:
  "be_bytes (numeral k) x = be_bytes (pred_numeral k) (x div 256) @ [of_nat x]"
  using be_bytes.simps(2) [of "pred_numeral k" x] by (simp only: numeral_eq_Suc [of k, symmetric])

lemma be_bytes_1: "be_bytes 1 x = [of_nat x]"
  by simp

lemmas be_bytes_eval [wire_simps] = be_bytes_numeral be_bytes_1

lemma be_nat_snoc [simp]: "be_nat (bs @ [b]) = be_nat bs * 256 + unat b"
  by (simp add: be_nat_def)

lemma be_nat_Nil [simp]: "be_nat [] = 0"
  by (simp add: be_nat_def)

lemma be_nat_be_bytes [simp]: "x < 256 ^ n \<Longrightarrow> be_nat (be_bytes n x) = x"
proof (induction n arbitrary: x)
  case (Suc n)
  then have "x div 256 < 256 ^ n"
    by (simp add: less_mult_imp_div_less mult.commute)
  with Suc.IH show ?case
    by (simp add: unat_of_nat)
qed simp

lemma be_bytes_be_nat [simp]: "length bs = n \<Longrightarrow> be_bytes n (be_nat bs) = bs"
proof (induction bs arbitrary: n rule: rev_induct)
  case (snoc b bs)
  then obtain m where "n = Suc m" "length bs = m"
    by auto
  with snoc.IH show ?case
    by (auto simp: word_unat_eq_iff unat_of_nat simp del: of_nat_add of_nat_mult)
qed simp

lemma be_nat_less: "be_nat bs < 256 ^ length bs"
proof (induction bs rule: rev_induct)
  case (snoc b bs)
  then have "be_nat bs + 1 \<le> 256 ^ length bs"
    by simp
  then have "be_nat bs * 256 + 256 \<le> 256 ^ length bs * 256"
    using mult_le_mono1 [of "be_nat bs + 1" _ 256] by (simp only: add_mult_distrib mult_1)
  with unat_u8_lt [of b] have "be_nat bs * 256 + unat b < 256 ^ length bs * 256"
    by linarith
  then show ?case
    by (simp add: mult.commute)
qed simp

lemma be_bytes_inject:
  "\<lbrakk>x < 256 ^ n; y < 256 ^ n; be_bytes n x = be_bytes n y\<rbrakk> \<Longrightarrow> x = y"
  using be_nat_be_bytes by metis

lemma unat_less_exp_iff_bits: "unat (w :: 'a :: len word) < 2 ^ j \<longleftrightarrow> (\<forall>n. bit w n \<longrightarrow> n < j)"
proof
  assume "unat w < 2 ^ j"
  then have "take_bit j (unat w) = unat w"
    by (simp add: take_bit_nat_eq_self_iff)
  then have "unat (take_bit j w) = unat w"
    by (simp add: unsigned_take_bit_eq)
  then show "\<forall>n. bit w n \<longrightarrow> n < j"
    by (metis bit_take_bit_iff word_unat_eq_iff)
next
  assume "\<forall>n. bit w n \<longrightarrow> n < j"
  then have "take_bit j w = w"
    by (auto simp: bit_eq_iff bit_simps)
  then have "unat w = take_bit j (unat w)"
    by (metis unsigned_take_bit_eq)
  then show "unat w < 2 ^ j"
    by (metis take_bit_nat_less_exp)
qed

section \<open>Lemmas on lists\<close>

lemma take_drop_append [simp]:
  "length a = n \<Longrightarrow> take n (a @ b) = a"
  "length a = n \<Longrightarrow> drop n (a @ b) = b"
  by auto

lemma strict_prefix_appendD:
  "strict_prefix p (a @ b) \<Longrightarrow> strict_prefix p a \<or> (\<exists>q. p = a @ q \<and> strict_prefix q b)"
  unfolding strict_prefix_def prefix_def by (auto simp: append_eq_append_conv2)

lemma strict_prefix_length_less: "strict_prefix p a \<Longrightarrow> length p < length a"
  by (rule prefix_length_less)

lemma append_not_strict_prefix:
  assumes "a @ b = c @ d" and "\<not> strict_prefix a c"
  shows "\<exists>t. a = c @ t \<and> d = t @ b"
proof -
  obtain us where "a = c @ us \<and> us @ b = d \<or> a @ us = c \<and> b = us @ d"
    using assms(1) by (auto simp: append_eq_append_conv2)
  then show ?thesis
    using assms(2) by (cases "us = []") (auto simp: strict_prefix_def)
qed

lemma strict_prefix_ConsD:
  "strict_prefix p (x # xs) \<Longrightarrow> p = [] \<or> (\<exists>q. p = x # q \<and> strict_prefix q xs)"
  by (cases p) (auto simp: strict_prefix_def)

lemma utf8_valid_ascii: "\<forall>b \<in> set s. b < 128 \<Longrightarrow> utf8_valid s"
  by (induction s) auto

end
