(* ===== verification/Stream_Interfaces.thy ===== *)
theory Stream_Interfaces
  imports Donut_Prelude
begin

text \<open>
  Interfaces of the byte-stream components.  A transport hands its reader a list
  of chunks whose boundaries carry no meaning; the sources cope with that in two
  ways, and each is a locale here.  A \<^emph>\<open>decoder\<close> is re-run on the accumulated
  buffer until it stops asking for more (\<open>read_until\<close> is that loop, as in
  \<^verbatim>\<open>proxy.rs\<close>), and a \<^emph>\<open>transducer\<close> keeps a state between chunks.  The lemmas
  proved inside the locales say that chunk boundaries cannot be observed.
\<close>

section \<open>Decoders over a growing buffer\<close>

text \<open>
  The loop \<^verbatim>\<open>read; extend; decode; Truncated => continue\<close>.  \<open>Inl None\<close> is the end of
  the stream (a read of zero bytes), \<open>Inl (Some e)\<close> a decoding error, and success
  carries the value, the bytes left in the buffer and the chunks not yet read.
\<close>

fun read_until ::
    "(bytes \<Rightarrow> 'e + 'a \<times> bytes) \<Rightarrow> ('e \<Rightarrow> bool) \<Rightarrow> bytes \<Rightarrow> bytes list
      \<Rightarrow> 'e option + 'a \<times> bytes \<times> bytes list" where
  "read_until dec more buf [] = Inl None"
| "read_until dec more buf (c # cs) =
    (if c = [] then Inl None
     else case dec (buf @ c) of
       Inr (x, rest) \<Rightarrow> Inr (x, rest, cs)
     | Inl e \<Rightarrow> if more e then read_until dec more (buf @ c) cs else Inl (Some e))"

text \<open>A parser is stable when a verdict it has given survives more input.\<close>

definition stable_parser :: "('e \<Rightarrow> bool) \<Rightarrow> (bytes \<Rightarrow> 'e + 'a \<times> bytes) \<Rightarrow> bool" where
  "stable_parser more p \<longleftrightarrow>
    (\<forall>b m. case p b of
       Inr (x, r) \<Rightarrow> p (b @ m) = Inr (x, r @ m)
     | Inl e \<Rightarrow> \<not> more e \<longrightarrow> p (b @ m) = Inl e)"

named_theorems stable_intros \<open>closure of stable parsers under the decoders' combinators\<close>

lemma stable_Inr: "\<lbrakk>stable_parser more p; p b = Inr (x, r)\<rbrakk> \<Longrightarrow> p (b @ m) = Inr (x, r @ m)"
  unfolding stable_parser_def by (elim allE [of _ b] allE [of _ m]) simp

lemma stable_Inl: "\<lbrakk>stable_parser more p; p b = Inl e; \<not> more e\<rbrakk> \<Longrightarrow> p (b @ m) = Inl e"
  unfolding stable_parser_def by (elim allE [of _ b] allE [of _ m]) simp

lemma stableI:
  assumes "\<And>b m x r. p b = Inr (x, r) \<Longrightarrow> p (b @ m) = Inr (x, r @ m)"
    and "\<And>b m e. \<lbrakk>p b = Inl e; \<not> more e\<rbrakk> \<Longrightarrow> p (b @ m) = Inl e"
  shows "stable_parser more p"
  unfolding stable_parser_def using assms by (auto split: sum.splits)

lemma stable_return [stable_intros]: "stable_parser more (\<lambda>b. Inr (x, b))"
  by (rule stableI) auto

lemma stable_fail [stable_intros]: "stable_parser more (\<lambda>b. Inl e)"
  by (rule stableI) auto

lemma stable_bind [stable_intros]:
  assumes "stable_parser more p" and "\<And>x. stable_parser more (f x)"
  shows "stable_parser more (\<lambda>b. rbind (p b) (\<lambda>(x, b'). f x b'))"
proof (rule stableI)
  fix b m x r
  assume "rbind (p b) (\<lambda>(x, b'). f x b') = Inr (x, r)"
  then obtain y b' where "p b = Inr (y, b')" "f y b' = Inr (x, r)"
    by (auto simp: rbind_eq_Inr_iff)
  then show "rbind (p (b @ m)) (\<lambda>(x, b'). f x b') = Inr (x, r @ m)"
    using stable_Inr [OF assms(1)] stable_Inr [OF assms(2)] by simp
next
  fix b m e
  assume "rbind (p b) (\<lambda>(x, b'). f x b') = Inl e" and "\<not> more e"
  then consider "p b = Inl e" | y b' where "p b = Inr (y, b')" "f y b' = Inl e"
    by (auto simp: rbind_eq_Inl_iff)
  then show "rbind (p (b @ m)) (\<lambda>(x, b'). f x b') = Inl e"
    using stable_Inl [OF assms(1)] stable_Inr [OF assms(1)] stable_Inl [OF assms(2)] \<open>\<not> more e\<close>
    by cases auto
qed

lemma stable_bind_pure [stable_intros]:
  assumes "\<And>x. stable_parser more (f x)"
  shows "stable_parser more (\<lambda>b. rbind c (\<lambda>x. f x b))"
  using assms by (cases c) (auto intro: stable_fail)

lemma stable_if [stable_intros]:
  "\<lbrakk>c \<Longrightarrow> stable_parser more p; \<not> c \<Longrightarrow> stable_parser more q\<rbrakk> \<Longrightarrow> stable_parser more (\<lambda>b. if c then p b else q b)"
  by (cases c) auto

locale incremental_decoder =
  fixes dec :: "bytes \<Rightarrow> 'e + 'a \<times> bytes"
    and more :: "'e \<Rightarrow> bool"
  assumes dec_stable: "stable_parser more dec"
begin

lemmas dec_ok = stable_Inr [OF dec_stable]
lemmas dec_err = stable_Inl [OF dec_stable]

lemma read_until_ok:
  "read_until dec more buf cs = Inr (x, rest, cs') \<Longrightarrow>
   dec (buf @ concat cs) = Inr (x, rest @ concat cs')"
proof (induction cs arbitrary: buf)
  case (Cons c cs)
  show ?case
  proof (cases "dec (buf @ c)")
    case (Inl e)
    with Cons.prems have "read_until dec more (buf @ c) cs = Inr (x, rest, cs')"
      by (auto split: if_splits)
    then show ?thesis
      using Cons.IH [of "buf @ c"] by simp
  next
    case (Inr xr)
    with Cons.prems have "dec (buf @ c) = Inr (x, rest)" "cs' = cs"
      by (auto split: if_splits prod.splits)
    then show ?thesis
      using dec_ok [of "buf @ c" x rest "concat cs"] by simp
  qed
qed simp

lemma read_until_err:
  "read_until dec more buf cs = Inl (Some e) \<Longrightarrow> dec (buf @ concat cs) = Inl e \<and> \<not> more e"
proof (induction cs arbitrary: buf)
  case (Cons c cs)
  show ?case
  proof (cases "dec (buf @ c)")
    case (Inl e')
    show ?thesis
    proof (cases "more e'")
      case True
      with Inl Cons.prems show ?thesis
        using Cons.IH [of "buf @ c"] by (auto split: if_splits)
    next
      case False
      with Inl Cons.prems show ?thesis
        using dec_err [of "buf @ c" e' "concat cs"] by (auto split: if_splits)
    qed
  next
    case (Inr xr)
    with Cons.prems show ?thesis
      by (auto split: if_splits prod.splits)
  qed
qed simp

lemma read_until_eof:
  assumes "read_until dec more buf cs = Inl None" and "[] \<notin> set cs" and "cs \<noteq> []"
  shows "\<exists>e. dec (buf @ concat cs) = Inl e \<and> more e"
  using assms
proof (induction cs arbitrary: buf)
  case (Cons c cs)
  then obtain e where e: "dec (buf @ c) = Inl e" "more e" "read_until dec more (buf @ c) cs = Inl None"
    by (auto split: sum.splits if_splits)
  show ?case
  proof (cases "cs = []")
    case False
    with Cons e show ?thesis
      using Cons.IH [of "buf @ c"] by auto
  qed (use e in auto)
qed simp

text \<open>Two chunkings of one stream agree on the value and on the bytes after it.\<close>

lemma read_until_chunking:
  assumes "read_until dec more [] cs = Inr (x, rest, cs')"
    and "concat ds = concat cs" and "[] \<notin> set ds"
  shows "\<exists>rest' ds'. read_until dec more [] ds = Inr (x, rest', ds') \<and>
           rest' @ concat ds' = rest @ concat cs'"
proof -
  have full: "dec (concat ds) = Inr (x, rest @ concat cs')"
    using read_until_ok [OF assms(1)] assms(2) by simp
  have ne: "ds \<noteq> []" if "dec [] \<noteq> Inr (x, rest @ concat cs')"
    using that full by auto
  show ?thesis
  proof (cases "read_until dec more [] ds")
    case (Inl o')
    show ?thesis
    proof (cases o')
      case None
      show ?thesis
      proof (cases "ds = []")
        case True
        with assms(1,2) show ?thesis
          by (cases cs) (auto split: if_splits)
      next
        case False
        with None Inl read_until_eof [of "[]" ds] assms(3) full show ?thesis
          by auto
      qed
    next
      case (Some e)
      with Inl read_until_err [of "[]" ds e] full show ?thesis
        by auto
    qed
  next
    case (Inr v)
    obtain y r d where "v = (y, r, d)"
      by (cases v) auto
    with Inr read_until_ok [of "[]" ds y r d] full show ?thesis
      by auto
  qed
qed

end

locale byte_codec = incremental_decoder dec more
  for dec :: "bytes \<Rightarrow> 'e + 'a \<times> bytes" and more :: "'e \<Rightarrow> bool" +
  fixes enc :: "'a \<Rightarrow> bytes"
    and wf :: "'a \<Rightarrow> bool"
  assumes round_trip_exact: "wf x \<Longrightarrow> dec (enc x) = Inr (x, [])"
begin

lemma round_trip: "wf x \<Longrightarrow> dec (enc x @ rest) = Inr (x, rest)"
  using dec_ok [OF round_trip_exact, of x rest] by simp

lemma truncated:
  assumes "wf x" and "strict_prefix p (enc x)"
  shows "\<exists>e. dec p = Inl e \<and> more e"
proof -
  obtain m where m: "enc x = p @ m" "m \<noteq> []"
    using assms(2) by (auto simp: strict_prefix_def prefix_def)
  show ?thesis
  proof (cases "dec p")
    case (Inl e)
    with dec_err [of p e m] m round_trip_exact [OF assms(1)] show ?thesis
      by auto
  next
    case (Inr yr)
    then show ?thesis
      using dec_ok [of p "fst yr" "snd yr" m] m round_trip_exact [OF assms(1)] by simp
  qed
qed

lemma enc_inject: "\<lbrakk>wf x; wf y; enc x @ a = enc y @ b\<rbrakk> \<Longrightarrow> x = y \<and> a = b"
  by (metis round_trip Inr_inject prod.inject)

lemma enc_not_prefix: "\<lbrakk>wf x; wf y; prefix (enc x) (enc y)\<rbrakk> \<Longrightarrow> x = y"
  using enc_inject unfolding prefix_def by (metis append.right_neutral)

lemma read_until_complete:
  assumes "wf x" and "strict_prefix buf (enc x)"
    and "buf @ concat cs = enc x @ rest" and "[] \<notin> set cs"
  shows "\<exists>left cs'. read_until dec more buf cs = Inr (x, left, cs') \<and> left @ concat cs' = rest"
  using assms(2-)
proof (induction cs arbitrary: buf)
  case Nil
  then show ?case
    by (auto simp: strict_prefix_def prefix_def)
next
  case (Cons c cs)
  show ?case
  proof (cases "strict_prefix (buf @ c) (enc x)")
    case True
    then obtain e where "dec (buf @ c) = Inl e" "more e"
      using truncated [OF assms(1)] by blast
    with Cons True show ?thesis
      by auto
  next
    case False
    from Cons.prems(2) have "(buf @ c) @ concat cs = enc x @ rest"
      by simp
    with False obtain t where t: "buf @ c = enc x @ t" "rest = t @ concat cs"
      using append_not_strict_prefix by blast
    with Cons.prems(3) round_trip [OF assms(1)] show ?thesis
      by auto
  qed
qed

end

section \<open>Transducers\<close>

text \<open>A transducer over chunks, and the byte-at-a-time machine it is specified by.\<close>

fun feed :: "('s \<Rightarrow> bytes \<Rightarrow> 's \<times> bytes) \<Rightarrow> 's \<Rightarrow> bytes list \<Rightarrow> 's \<times> bytes" where
  "feed push s [] = (s, [])"
| "feed push s (c # cs) =
    (let (s1, o1) = push s c; (s2, o2) = feed push s1 cs in (s2, o1 @ o2))"

fun run_bytes :: "('v \<Rightarrow> u8 \<Rightarrow> 'v \<times> bytes) \<Rightarrow> 'v \<Rightarrow> bytes \<Rightarrow> 'v \<times> bytes" where
  "run_bytes step v [] = (v, [])"
| "run_bytes step v (b # bs) =
    (let (v1, o1) = step v b; (v2, o2) = run_bytes step v1 bs in (v2, o1 @ o2))"

lemma run_bytes_append:
  "run_bytes step v (a @ b) =
    (let (v1, o1) = run_bytes step v a; (v2, o2) = run_bytes step v1 b in (v2, o1 @ o2))"
  by (induction a arbitrary: v) (auto simp: Let_def split: prod.splits)

lemma run_bytes_appendI:
  "\<lbrakk>run_bytes step v a = (v1, o1); run_bytes step v1 b = (v2, o2)\<rbrakk> \<Longrightarrow>
   run_bytes step v (a @ b) = (v2, o1 @ o2)"
  by (simp add: run_bytes_append)

locale transducer =
  fixes push :: "'s \<Rightarrow> bytes \<Rightarrow> 's \<times> bytes"
    and inv :: "'s \<Rightarrow> bool"
    and abs :: "'s \<Rightarrow> 'v"
    and step :: "'v \<Rightarrow> u8 \<Rightarrow> 'v \<times> bytes"
  assumes push_inv: "inv s \<Longrightarrow> inv (fst (push s a))"
    and push_refines: "inv s \<Longrightarrow> push s a = (s', out) \<Longrightarrow> run_bytes step (abs s) a = (abs s', out)"
begin

lemma feed_refines:
  "\<lbrakk>inv s; feed push s cs = (s', out)\<rbrakk> \<Longrightarrow>
   inv s' \<and> run_bytes step (abs s) (concat cs) = (abs s', out)"
proof (induction cs arbitrary: s out)
  case (Cons c cs)
  obtain s1 o1 where 1: "push s c = (s1, o1)"
    by (cases "push s c")
  obtain o2 where 2: "feed push s1 cs = (s', o2)" "out = o1 @ o2"
    using Cons.prems(2) 1 by (auto split: prod.splits)
  have "inv s1"
    using push_inv [OF Cons.prems(1), of c] 1 by simp
  then show ?case
    using Cons.IH [OF _ 2(1)] push_refines [OF Cons.prems(1) 1] 2(2)
    by (simp add: run_bytes_append)
qed simp

lemma feed_output: "inv s \<Longrightarrow> snd (feed push s cs) = snd (run_bytes step (abs s) (concat cs))"
  using feed_refines [of s cs "fst (feed push s cs)" "snd (feed push s cs)"] by simp

lemma feed_chunking:
  assumes "inv s" and "concat cs = concat ds"
  shows "snd (feed push s cs) = snd (feed push s ds)"
    and "abs (fst (feed push s cs)) = abs (fst (feed push s ds))"
proof -
  obtain s1 o1 s2 o2 where f: "feed push s cs = (s1, o1)" "feed push s ds = (s2, o2)"
    by (metis surj_pair)
  then have "(abs s1, o1) = (abs s2, o2)"
    using assms feed_refines by metis
  with f show "snd (feed push s cs) = snd (feed push s ds)"
    and "abs (fst (feed push s cs)) = abs (fst (feed push s ds))"
    by simp_all
qed

end

end
