(* ===== verification/Core_Types.thy ===== *)
theory Core_Types
  imports Donut_Prelude
begin

unbundle bit_operations_syntax

text \<open>
  The crate \<^verbatim>\<open>donut-core\<close>: command, flow, transport and TLS kinds
  (\<^verbatim>\<open>kinds.rs\<close>), addresses and endpoints (\<^verbatim>\<open>address.rs\<close>), the user identifier, the
  allowed-user set with its branch-free membership test and hot-swappable handle,
  and the veil short identifier (\<^verbatim>\<open>id.rs\<close>).

  A \<^verbatim>\<open>Uuid\<close> is sixteen bytes and is kept as a 128-bit word whose big-endian bytes
  they are; a short identifier likewise is a 64-bit word.  The \<^verbatim>\<open>hex\<close> crate's
  decoder is an argument of \<open>short_id_from_str\<close>.
\<close>

section \<open>kinds.rs\<close>

datatype Command = Tcp | Udp | Mux

fun command_as_u8 :: "Command \<Rightarrow> u8" where
  "command_as_u8 Tcp = 1"
| "command_as_u8 Udp = 2"
| "command_as_u8 Mux = 3"

definition command_from_u8 :: "u8 \<Rightarrow> Command option" where
  "command_from_u8 v =
    (if v = 1 then Some Tcp else if v = 2 then Some Udp else if v = 3 then Some Mux else None)"

datatype FlowKind = FlowNone | FlowExtended

definition EXTENDED_WIRE :: rstr where
  "EXTENDED_WIRE = str ''xtls-rprx-vision''"

fun flow_as_str :: "FlowKind \<Rightarrow> rstr" where
  "flow_as_str FlowNone = []"
| "flow_as_str FlowExtended = EXTENDED_WIRE"

definition flow_from_wire :: "rstr \<Rightarrow> FlowKind option" where
  "flow_from_wire s =
    (if s = [] \<or> s = str ''none'' then Some FlowNone
     else if s = EXTENDED_WIRE then Some FlowExtended
     else None)"

datatype TransportKind = RawTcp | Carrier | CarrierQuic

datatype TlsKind = TlsNone | Tls | Veil

section \<open>address.rs\<close>

datatype IpAddr = V4 u32 | V6 u128

definition ipv4_octets :: "u32 \<Rightarrow> bytes" where
  "ipv4_octets a = be_bytes 4 (unat a)"

definition ipv4_from_octets :: "bytes \<Rightarrow> u32" where
  "ipv4_from_octets bs = of_nat (be_nat bs)"

definition ipv6_octets :: "u128 \<Rightarrow> bytes" where
  "ipv6_octets a = be_bytes 16 (unat a)"

definition ipv6_from_octets :: "bytes \<Rightarrow> u128" where
  "ipv6_from_octets bs = of_nat (be_nat bs)"

datatype Address = Ip IpAddr | Domain rstr

datatype AddressParseError = DomainLen nat | BadEndpoint

definition MAX_DOMAIN_LEN :: nat where
  "MAX_DOMAIN_LEN = 255"

definition address_domain :: "rstr \<Rightarrow> AddressParseError + Address" where
  "address_domain s =
    (if s = [] \<or> length s > MAX_DOMAIN_LEN then Inl (DomainLen (length s))
     else Inr (Domain s))"

record Endpoint =
  address :: Address
  port :: u16

section \<open>id.rs\<close>

type_synonym UserId = u128

definition user_as_bytes :: "UserId \<Rightarrow> bytes" where
  "user_as_bytes u = be_bytes 16 (unat u)"

definition user_from_bytes :: "bytes \<Rightarrow> UserId" where
  "user_from_bytes bs = of_nat (be_nat bs)"

record UserAuth =
  users :: "UserId list"

definition uuid_diff :: "bytes \<Rightarrow> bytes \<Rightarrow> u8" where
  "uuid_diff a cand = foldl (\<lambda>diff i. diff OR (a ! i XOR cand ! i)) 0 [0..<16]"

definition match_mask :: "u8 \<Rightarrow> u8" where
  "match_mask diff = ucast (drop_bit 8 (ucast diff - (1 :: u16)))"

definition is_authorized :: "UserAuth \<Rightarrow> UserId \<Rightarrow> bool" where
  "is_authorized auth candidate =
    (let cand = user_as_bytes candidate;
         found = foldl (\<lambda>found u. found OR match_mask (uuid_diff (user_as_bytes u) cand))
                   (0 :: u8) (users auth)
     in found \<noteq> 0)"

text \<open>
  \<^verbatim>\<open>AuthHandle\<close> is a shared cell holding the current snapshot; a reader that loaded
  a snapshot keeps it.
\<close>

record AuthHandle =
  snapshot :: UserAuth

definition handle_new :: "UserAuth \<Rightarrow> AuthHandle" where
  "handle_new auth = \<lparr>snapshot = auth\<rparr>"

definition handle_is_authorized :: "AuthHandle \<Rightarrow> UserId \<Rightarrow> bool" where
  "handle_is_authorized h candidate = is_authorized (snapshot h) candidate"

definition handle_len :: "AuthHandle \<Rightarrow> nat" where
  "handle_len h = length (users (snapshot h))"

definition handle_store :: "AuthHandle \<Rightarrow> UserAuth \<Rightarrow> AuthHandle" where
  "handle_store h auth = h\<lparr>snapshot := auth\<rparr>"

type_synonym ShortId = u64

definition short_id_as_bytes :: "ShortId \<Rightarrow> bytes" where
  "short_id_as_bytes s = be_bytes 8 (unat s)"

definition short_id_from_bytes :: "bytes \<Rightarrow> ShortId" where
  "short_id_from_bytes bs = of_nat (be_nat bs)"

definition short_id_zero :: ShortId where
  "short_id_zero = 0"

datatype ShortIdParseError = ShortIdInvalid

definition is_ascii_hexdigit :: "u8 \<Rightarrow> bool" where
  "is_ascii_hexdigit c \<longleftrightarrow>
    48 \<le> c \<and> c \<le> 57 \<or> 65 \<le> c \<and> c \<le> 70 \<or> 97 \<le> c \<and> c \<le> 102"

definition short_id_from_str ::
    "(bytes \<Rightarrow> bytes option) \<Rightarrow> rstr \<Rightarrow> ShortIdParseError + ShortId" where
  "short_id_from_str hex_decode s =
    (if length s > 16 \<or> \<not> list_all is_ascii_hexdigit s then Inl ShortIdInvalid
     else case hex_decode (s @ replicate (16 - length s) 48) of
       None \<Rightarrow> Inl ShortIdInvalid
     | Some bs \<Rightarrow> Inr (short_id_from_bytes bs))"

section \<open>Well-formed endpoints\<close>

text \<open>
  The invariant \<^verbatim>\<open>Address\<close> documents: a domain is valid UTF-8 of 1 to 255 bytes.
\<close>

fun address_ok :: "Address \<Rightarrow> bool" where
  "address_ok (Ip _) = True"
| "address_ok (Domain d) = (d \<noteq> [] \<and> length d \<le> MAX_DOMAIN_LEN \<and> utf8_valid d)"

section \<open>Lemmas\<close>

lemma command_round_trip [simp]: "command_from_u8 (command_as_u8 c) = Some c"
  by (cases c) (simp_all add: command_from_u8_def)

lemma command_from_u8_Some: "command_from_u8 v = Some c \<Longrightarrow> command_as_u8 c = v"
  by (auto simp: command_from_u8_def split: if_splits)

lemma str_simps [simp]:
  "str [] = []"
  "str (c # s) = of_char c # str s"
  by (simp_all add: str_def)

lemma length_str [simp]: "length (str s) = length s"
  by (simp add: str_def)

lemma EXTENDED_WIRE_facts:
  "EXTENDED_WIRE \<noteq> []" "length EXTENDED_WIRE = 16"
  "utf8_valid EXTENDED_WIRE"
proof -
  show "length EXTENDED_WIRE = 16"
    by (simp add: EXTENDED_WIRE_def)
  then show "EXTENDED_WIRE \<noteq> []"
    by auto
  show "utf8_valid EXTENDED_WIRE"
    by (rule utf8_valid_ascii) (simp add: EXTENDED_WIRE_def)
qed

lemma flow_round_trip [simp]: "flow_from_wire (flow_as_str f) = Some f"
  by (cases f) (simp_all add: flow_from_wire_def EXTENDED_WIRE_def)

lemma utf8_valid_flow [simp]: "utf8_valid (flow_as_str f)"
  by (cases f) (simp_all add: EXTENDED_WIRE_facts)

lemma length_flow: "length (flow_as_str f) \<le> 16"
  by (cases f) (simp_all add: EXTENDED_WIRE_facts)

lemma address_domain_ok:
  "address_domain s = Inr a \<longleftrightarrow> a = Domain s \<and> s \<noteq> [] \<and> length s \<le> MAX_DOMAIN_LEN"
  by (auto simp: address_domain_def)

lemma unat_be_bytes:
  "unat (a :: u32) < 256 ^ 4" "unat (b :: u64) < 256 ^ 8" "unat (c :: u128) < 256 ^ 16"
  using unsigned_less [of a, where ?'a = nat] unsigned_less [of b, where ?'a = nat]
    unsigned_less [of c, where ?'a = nat] by simp_all

lemma octets_simps [simp]:
  "length (ipv4_octets a) = 4" "ipv4_from_octets (ipv4_octets a) = a"
  "length (ipv6_octets b) = 16" "ipv6_from_octets (ipv6_octets b) = b"
  "length (user_as_bytes b) = 16" "user_from_bytes (user_as_bytes b) = b"
  "length (short_id_as_bytes c) = 8" "short_id_from_bytes (short_id_as_bytes c) = c"
  using unat_be_bytes
  by (simp_all add: ipv4_octets_def ipv4_from_octets_def ipv6_octets_def ipv6_from_octets_def
      user_as_bytes_def user_from_bytes_def short_id_as_bytes_def short_id_from_bytes_def)

lemma unat_of_be_nat:
  "length bs = 4 \<Longrightarrow> unat (of_nat (be_nat bs) :: u32) = be_nat bs"
  "length bs = 8 \<Longrightarrow> unat (of_nat (be_nat bs) :: u64) = be_nat bs"
  "length bs = 16 \<Longrightarrow> unat (of_nat (be_nat bs) :: u128) = be_nat bs"
  using be_nat_less [of bs] by (simp_all add: unat_of_nat)

lemma octets_from [simp]:
  "length bs = 4 \<Longrightarrow> ipv4_octets (ipv4_from_octets bs) = bs"
  "length bs = 16 \<Longrightarrow> ipv6_octets (ipv6_from_octets bs) = bs"
  "length bs = 16 \<Longrightarrow> user_as_bytes (user_from_bytes bs) = bs"
  "length bs = 8 \<Longrightarrow> short_id_as_bytes (short_id_from_bytes bs) = bs"
  by (simp_all add: ipv4_octets_def ipv4_from_octets_def ipv6_octets_def ipv6_from_octets_def
      user_as_bytes_def user_from_bytes_def short_id_as_bytes_def short_id_from_bytes_def
      unat_of_be_nat)

lemma user_as_bytes_inject [simp]: "user_as_bytes a = user_as_bytes b \<longleftrightarrow> a = b"
  by (metis octets_simps(6))

lemma foldl_or_0_iff:
  "foldl (\<lambda>acc x. acc OR f x) (z :: 'a :: len word) xs = 0 \<longleftrightarrow> z = 0 \<and> (\<forall>x \<in> set xs. f x = 0)"
proof (induction xs arbitrary: z)
  case (Cons x xs)
  have "z OR f x = 0 \<longleftrightarrow> z = 0 \<and> f x = 0"
    by (auto simp: bit_eq_iff bit_simps)
  with Cons show ?case
    by auto
qed simp

lemma uuid_diff_0_iff:
  assumes "length a = 16" and "length b = 16"
  shows "uuid_diff a b = 0 \<longleftrightarrow> a = b"
proof -
  have xor: "(x :: u8) XOR y = 0 \<longleftrightarrow> x = y" for x y
    by (auto simp: bit_eq_iff bit_simps)
  have "uuid_diff a b = 0 \<longleftrightarrow> (\<forall>i < 16. a ! i = b ! i)"
    by (simp add: uuid_diff_def foldl_or_0_iff xor del: upt_rec_numeral) auto
  with assms show ?thesis
    by (auto simp: list_eq_iff_nth_eq)
qed

lemma match_mask_0_iff: "match_mask d = 0 \<longleftrightarrow> d \<noteq> 0"
proof (cases "d = 0")
  case True
  then show ?thesis
    by (simp add: match_mask_def mask_eq_exp_minus_1)
next
  case False
  then have pos: "0 < unat d"
    by (simp add: unat_gt_0)
  have "unat (ucast d :: u16) = unat d"
    by (simp add: unsigned_ucast_eq take_bit_nat_eq_self_iff less_trans [OF unat_u8_lt])
  then have "unat (ucast d - 1 :: u16) = unat d - 1"
    using pos by (metis unat_minus_one unat_0 less_numeral_extra(3))
  then have "unat (drop_bit 8 (ucast d - 1 :: u16)) = 0"
    by (simp add: drop_bit_eq_div unat_div div_eq_0_iff less_imp_diff_less)
  then have "drop_bit 8 (ucast d - 1 :: u16) = 0"
    by (simp only: unat_eq_0)
  with False show ?thesis
    by (simp add: match_mask_def)
qed

lemma is_authorized_iff: "is_authorized auth c \<longleftrightarrow> c \<in> set (users auth)"
proof -
  have "is_authorized auth c \<longleftrightarrow>
      (\<exists>u \<in> set (users auth). match_mask (uuid_diff (user_as_bytes u) (user_as_bytes c)) \<noteq> 0)"
    by (simp add: is_authorized_def foldl_or_0_iff)
  also have "\<dots> \<longleftrightarrow> (\<exists>u \<in> set (users auth). u = c)"
    by (simp add: match_mask_0_iff uuid_diff_0_iff)
  finally show ?thesis
    by auto
qed

section \<open>Properties\<close>

text \<open>
  C1.  The branch-free credential check is exactly membership: for every allowed-user
  set and candidate, the byte-wise fold of \<^verbatim>\<open>UserAuth::is_authorized\<close> accepts iff the
  candidate is one of the configured users; in particular an empty set authorises no
  one, and a handle answers for the snapshot last stored in it.
\<close>

theorem authorized_iff_member:
  "(is_authorized auth c \<longleftrightarrow> c \<in> set (users auth)) \<and>
   \<not> is_authorized \<lparr>users = []\<rparr> c \<and>
   (handle_is_authorized (handle_store h auth) c \<longleftrightarrow> c \<in> set (users auth))"
  by (simp add: is_authorized_iff handle_is_authorized_def handle_store_def)

end
