(* ===== verification/Wire_Codec.thy ===== *)
theory Wire_Codec
  imports Stream_Interfaces Core_Types
begin

text \<open>
  The inner-frame codec of the crate \<^verbatim>\<open>donut-wire\<close>: the protobuf-style
  \<open>Addons\<close> message with its varints (\<^verbatim>\<open>addons.rs\<close>), and the request header and
  response prefix (\<^verbatim>\<open>request.rs\<close>).  Decoders consume a buffer and return the bytes
  left; encoders return the bytes they append.  The codecs interpret the
  interfaces of \<open>Stream_Interfaces\<close> with \<open>Truncated\<close> as the request for more
  input, which is how \<^verbatim>\<open>proxy.rs\<close> and \<^verbatim>\<open>outbound.rs\<close> use them.

  Lengths are \<open>usize\<close> on a 64-bit target, so \<^verbatim>\<open>as u64\<close> and \<^verbatim>\<open>as usize\<close> keep them.
\<close>

section \<open>error.rs\<close>

datatype WireError =
    BadVersion u8
  | Truncated (want: nat) (have_bytes: nat)
  | UnknownCommand u8
  | UnknownAddressType u8
  | ZeroDomain
  | InvalidDomainUtf8
  | AddonTooLarge nat
  | UnknownFlow
  | BadAddonsProto
  | VarintOverflow

fun is_truncated :: "WireError \<Rightarrow> bool" where
  "is_truncated (Truncated _ _) = True"
| "is_truncated _ = False"

section \<open>addons.rs\<close>

definition TAG_FLOW :: u8 where "TAG_FLOW = 0x0a"
definition TAG_SEED :: u8 where "TAG_SEED = 0x12"

record Addons =
  addons_flow :: rstr
  addons_seed :: bytes

definition addons_default :: Addons where
  "addons_default = \<lparr>addons_flow = [], addons_seed = []\<rparr>"

lemma drop_bit_7_less: "128 \<le> n \<Longrightarrow> unat (drop_bit 7 (n :: u64)) < unat n"
  by (simp add: drop_bit_eq_div unat_div word_le_nat_alt)

function varint_len :: "u64 \<Rightarrow> nat" where
  "varint_len n = (if 128 \<le> n then 1 + varint_len (drop_bit 7 n) else 1)"
  by auto
termination
  by (relation "measure unat") (auto simp: drop_bit_7_less)

function put_varint :: "u64 \<Rightarrow> bytes" where
  "put_varint n =
    (if 128 \<le> n then (ucast n AND 0x7f OR 0x80) # put_varint (drop_bit 7 n)
     else [ucast n])"
  by auto
termination
  by (relation "measure unat") (auto simp: drop_bit_7_less)

declare varint_len.simps [simp del] put_varint.simps [simp del]

text \<open>The \<^verbatim>\<open>for i in 0..10\<close> loop: \<open>k\<close> rounds are left, and this is round \<open>i\<close>.\<close>

fun get_varint_loop :: "nat \<Rightarrow> nat \<Rightarrow> u64 \<Rightarrow> bytes \<Rightarrow> WireError + u64 \<times> bytes" where
  "get_varint_loop 0 i n bytes = Inl VarintOverflow"
| "get_varint_loop (Suc k) i n [] = Inl BadAddonsProto"
| "get_varint_loop (Suc k) i n (b # bytes) =
    (let n' = n OR push_bit (7 * i) (ucast (b AND 0x7f))
     in if b AND 0x80 = 0 then Inr (n', bytes) else get_varint_loop k (Suc i) n' bytes)"

definition get_varint :: "bytes \<Rightarrow> WireError + u64 \<times> bytes" where
  "get_varint bytes = get_varint_loop 10 0 0 bytes"

definition addons_is_empty :: "Addons \<Rightarrow> bool" where
  "addons_is_empty a \<longleftrightarrow> addons_flow a = [] \<and> addons_seed a = []"

definition addons_encoded_len :: "Addons \<Rightarrow> nat" where
  "addons_encoded_len a =
    (if addons_flow a = [] then 0
     else 1 + varint_len (of_nat (length (addons_flow a))) + length (addons_flow a)) +
    (if addons_seed a = [] then 0
     else 1 + varint_len (of_nat (length (addons_seed a))) + length (addons_seed a))"

definition addons_encode :: "Addons \<Rightarrow> bytes" where
  "addons_encode a =
    (if addons_flow a = [] then []
     else TAG_FLOW # put_varint (of_nat (length (addons_flow a))) @ addons_flow a) @
    (if addons_seed a = [] then []
     else TAG_SEED # put_varint (of_nat (length (addons_seed a))) @ addons_seed a)"

lemma get_varint_loop_length:
  "get_varint_loop k i n bytes = Inr (m, rest) \<Longrightarrow> length rest < length bytes"
  by (induction k i n bytes rule: get_varint_loop.induct)
     (auto simp: Let_def split: if_splits)

lemma get_varint_length: "get_varint bytes = Inr (m, rest) \<Longrightarrow> length rest < length bytes"
  unfolding get_varint_def by (rule get_varint_loop_length)

function addons_decode_loop :: "Addons \<Rightarrow> bytes \<Rightarrow> WireError + Addons" where
  "addons_decode_loop me [] = Inr me"
| "addons_decode_loop me (tag # bytes) =
    (case get_varint bytes of
       Inl e \<Rightarrow> Inl e
     | Inr (n, bytes') \<Rightarrow>
         (let len = unat n in
          if length bytes' < len then Inl BadAddonsProto
          else
            let field = take len bytes'; rest = drop len bytes' in
            if tag = TAG_FLOW then
              (if utf8_valid field then addons_decode_loop (me\<lparr>addons_flow := field\<rparr>) rest
               else Inl BadAddonsProto)
            else if tag = TAG_SEED then addons_decode_loop (me\<lparr>addons_seed := field\<rparr>) rest
            else Inl BadAddonsProto))"
  by pat_completeness auto
termination
  by (relation "measure (length \<circ> snd)") (auto dest!: get_varint_length)

definition addons_decode :: "bytes \<Rightarrow> WireError + Addons" where
  "addons_decode bytes = addons_decode_loop addons_default bytes"

section \<open>request.rs\<close>

definition VERSION :: u8 where "VERSION = 0"
definition ADDR_IPV4 :: u8 where "ADDR_IPV4 = 1"
definition ADDR_DOMAIN :: u8 where "ADDR_DOMAIN = 2"
definition ADDR_IPV6 :: u8 where "ADDR_IPV6 = 3"

record Request =
  req_user :: UserId
  req_flow :: FlowKind
  req_command :: Command
  req_target :: "Endpoint option"
  req_seed :: bytes

record Response =
  resp_addons :: Addons

definition request_addons :: "Request \<Rightarrow> Addons" where
  "request_addons r = \<lparr>addons_flow = flow_as_str (req_flow r), addons_seed = req_seed r\<rparr>"

definition request_encoded_len :: "Request \<Rightarrow> nat" where
  "request_encoded_len r =
    1 + 16 + 1 + addons_encoded_len (request_addons r) + 1 +
    (case req_target r of
       None \<Rightarrow> 0
     | Some ep \<Rightarrow> 2 + 1 +
         (case address ep of Ip (V4 _) \<Rightarrow> 4 | Ip (V6 _) \<Rightarrow> 16 | Domain d \<Rightarrow> 1 + length d))"

definition encode_target :: "Endpoint \<Rightarrow> bytes" where
  "encode_target ep =
    be16 (port ep) @
    (case address ep of
       Ip (V4 a) \<Rightarrow> ADDR_IPV4 # ipv4_octets a
     | Ip (V6 a) \<Rightarrow> ADDR_IPV6 # ipv6_octets a
     | Domain d \<Rightarrow> ADDR_DOMAIN # of_nat (length d) # d)"

definition encode_head :: "Request \<Rightarrow> bytes" where
  "encode_head r =
    (let addons = request_addons r in
     VERSION # user_as_bytes (req_user r) @
     of_nat (addons_encoded_len addons) # addons_encode addons @
     [command_as_u8 (req_command r)])"

text \<open>\<open>None\<close> is the panic on a command other than \<open>Mux\<close> without a target.\<close>

definition request_encode :: "Request \<Rightarrow> bytes option" where
  "request_encode r =
    (case (req_target r, req_command r) of
       (None, Mux) \<Rightarrow> Some (encode_head r)
     | (Some ep, _) \<Rightarrow> Some (encode_head r @ encode_target ep)
     | (None, _) \<Rightarrow> None)"

definition ensure :: "bytes \<Rightarrow> nat \<Rightarrow> WireError + unit" where
  "ensure buf n = (if length buf < n then Inl (Truncated n (length buf)) else Inr ())"

definition get_slice :: "nat \<Rightarrow> bytes \<Rightarrow> WireError + bytes \<times> bytes" where
  "get_slice n buf = rbind (ensure buf n) (\<lambda>_. Inr (take n buf, drop n buf))"

definition get_u8 :: "bytes \<Rightarrow> WireError + u8 \<times> bytes" where
  "get_u8 buf = rbind (get_slice 1 buf) (\<lambda>(b, buf). Inr (hd b, buf))"

definition decode_address :: "u8 \<Rightarrow> bytes \<Rightarrow> WireError + Address \<times> bytes" where
  "decode_address atype buf =
    (if atype = ADDR_IPV4 then
       rbind (get_slice 4 buf) (\<lambda>(b, buf). Inr (Ip (V4 (ipv4_from_octets b)), buf))
     else if atype = ADDR_IPV6 then
       rbind (get_slice 16 buf) (\<lambda>(b, buf). Inr (Ip (V6 (ipv6_from_octets b)), buf))
     else if atype = ADDR_DOMAIN then
       rbind (get_u8 buf) (\<lambda>(dl, buf).
       if dl = 0 then Inl ZeroDomain
       else
         rbind (get_slice (unat dl) buf) (\<lambda>(d, buf).
         if \<not> utf8_valid d then Inl InvalidDomainUtf8
         else
           rbind (map_err (\<lambda>_. InvalidDomainUtf8) (address_domain d)) (\<lambda>a. Inr (a, buf))))
     else Inl (UnknownAddressType atype))"

definition decode_target :: "bytes \<Rightarrow> WireError + Endpoint \<times> bytes" where
  "decode_target buf =
    rbind (get_slice 3 buf) (\<lambda>(h, buf).
    rbind (decode_address (h ! 2) buf) (\<lambda>(addr, buf).
    Inr (\<lparr>address = addr, port = from_be16 (h ! 0) (h ! 1)\<rparr>, buf)))"

definition request_decode :: "bytes \<Rightarrow> WireError + Request \<times> bytes" where
  "request_decode buf =
    rbind (get_u8 buf) (\<lambda>(v, buf).
    if v \<noteq> VERSION then Inl (BadVersion v)
    else
      rbind (get_slice 16 buf) (\<lambda>(uuid, buf).
      rbind (get_u8 buf) (\<lambda>(addon_len, buf).
      rbind (get_slice (unat addon_len) buf) (\<lambda>(addon_buf, buf).
      rbind (addons_decode addon_buf) (\<lambda>addons.
      rbind (ok_or (flow_from_wire (addons_flow addons)) UnknownFlow) (\<lambda>flow.
      rbind (get_u8 buf) (\<lambda>(cmd_byte, buf).
      rbind (ok_or (command_from_u8 cmd_byte) (UnknownCommand cmd_byte)) (\<lambda>command.
      if command = Mux then
        Inr (\<lparr>req_user = user_from_bytes uuid, req_flow = flow, req_command = command,
              req_target = None, req_seed = addons_seed addons\<rparr>, buf)
      else
        rbind (decode_target buf) (\<lambda>(ep, buf).
        Inr (\<lparr>req_user = user_from_bytes uuid, req_flow = flow, req_command = command,
              req_target = Some ep, req_seed = addons_seed addons\<rparr>, buf))))))))))"

definition response_encoded_len :: "Response \<Rightarrow> nat" where
  "response_encoded_len r = 1 + 1 + addons_encoded_len (resp_addons r)"

definition response_encode :: "Response \<Rightarrow> bytes" where
  "response_encode r =
    VERSION # of_nat (addons_encoded_len (resp_addons r)) # addons_encode (resp_addons r)"

definition response_default :: Response where
  "response_default = \<lparr>resp_addons = addons_default\<rparr>"

definition response_decode :: "bytes \<Rightarrow> WireError + Response \<times> bytes" where
  "response_decode buf =
    rbind (get_u8 buf) (\<lambda>(v, buf).
    if v \<noteq> VERSION then Inl (BadVersion v)
    else
      rbind (get_u8 buf) (\<lambda>(addon_len, buf).
      rbind (get_slice (unat addon_len) buf) (\<lambda>(addon_buf, buf).
      rbind (addons_decode addon_buf) (\<lambda>addons.
      Inr (\<lparr>resp_addons = addons\<rparr>, buf)))))"

section \<open>Well-formed messages\<close>

definition addons_ok :: "Addons \<Rightarrow> bool" where
  "addons_ok a \<longleftrightarrow> utf8_valid (addons_flow a) \<and> addons_encoded_len a \<le> 255"

definition request_ok :: "Request \<Rightarrow> bool" where
  "request_ok r \<longleftrightarrow>
    (req_target r = None \<longleftrightarrow> req_command r = Mux) \<and>
    (case req_target r of None \<Rightarrow> True | Some ep \<Rightarrow> address_ok (address ep)) \<and>
    addons_ok (request_addons r)"

definition request_bytes :: "Request \<Rightarrow> bytes" where
  "request_bytes r = the (request_encode r)"

section \<open>Varints\<close>

lemma length_put_varint [simp, bytes_len]: "length (put_varint n) = varint_len n"
proof (induction n rule: put_varint.induct)
  case (1 n)
  then show ?case
    by (simp add: put_varint.simps [of n] varint_len.simps [of n])
qed

lemma bit_128: "bit (0x80 :: u8) n \<longleftrightarrow> n = 7"
proof -
  have "(0x80 :: u8) = 2 ^ 7"
    by simp
  then show ?thesis
    by (simp only: bit_exp_iff) auto
qed

lemma mask_7: "(0x7f :: u8) = mask 7" "(0x7f :: u64) = mask 7"
  by (simp_all add: mask_eq_exp_minus_1)

lemma varint_byte:
  "(ucast (m :: u64) AND 0x7f OR 0x80 :: u8) AND 0x80 \<noteq> 0"
  "ucast ((ucast (m :: u64) AND 0x7f OR 0x80 :: u8) AND 0x7f) = m AND 0x7f"
proof -
  have "bit ((ucast (m :: u64) AND 0x7f OR 0x80 :: u8) AND 0x80) 7"
    by (simp add: bit_simps bit_128 del: bit_numeral_word_iff)
  then show "(ucast (m :: u64) AND 0x7f OR 0x80 :: u8) AND 0x80 \<noteq> 0"
    by (metis bit_0_eq bot_apply bot_bool_def)
  show "ucast ((ucast (m :: u64) AND 0x7f OR 0x80 :: u8) AND 0x7f) = m AND 0x7f"
    unfolding mask_7 by (rule bit_word_eqI) (auto simp: bit_simps bit_128 simp del: bit_numeral_word_iff)
qed

lemma varint_last_byte:
  assumes "\<not> 128 \<le> (m :: u64)"
  shows "(ucast m :: u8) AND 0x80 = 0" and "ucast ((ucast m :: u8) AND 0x7f) = m"
proof -
  have "unat (drop_bit 7 m) = 0"
    using assms by (simp add: drop_bit_eq_div unat_div word_le_nat_alt div_eq_0_iff)
  then have "take_bit 7 m = m"
    by (simp add: take_bit_eq_self_iff_drop_bit_eq_0 unat_eq_0)
  then have high: "bit m n \<Longrightarrow> n < 7" for n
    by (metis bit_take_bit_iff)
  then show "(ucast m :: u8) AND 0x80 = 0"
    by (intro bit_word_eqI) (auto simp: bit_simps bit_128 simp del: bit_numeral_word_iff)
  from high show "ucast ((ucast m :: u8) AND 0x7f) = m"
    unfolding mask_7 by (intro bit_word_eqI) (auto simp: bit_simps dest: high)
qed

lemma push_bit_split:
  "push_bit i (m AND 0x7f) OR push_bit (7 + i) (drop_bit 7 m) = push_bit i (m :: u64)"
proof (rule bit_word_eqI)
  fix n
  have "7 + (n - (7 + i)) = n - i" if "7 \<le> n - i"
    using that by simp
  moreover assume "n < LENGTH(64)"
  ultimately show "bit (push_bit i (m AND 0x7f) OR push_bit (7 + i) (drop_bit 7 m)) n =
      bit (push_bit i m) n"
    unfolding mask_7 by (cases "n - i < 7") (auto simp: bit_simps not_less)
qed

lemma get_varint_put_varint_loop:
  assumes "unat m < 2 ^ (64 - 7 * i)" and "i + k = 10" and "i < 10"
  shows "get_varint_loop k i acc (put_varint m @ rest) = Inr (acc OR push_bit (7 * i) m, rest)"
  using assms
proof (induction m arbitrary: i k acc rule: put_varint.induct)
  case (1 m)
  obtain k' where k: "k = Suc k'"
    using "1.prems" by (cases k) auto
  show ?case
  proof (cases "128 \<le> m")
    case True
    then have big: "128 \<le> unat m"
      by (simp add: word_le_nat_alt)
    have i: "i < 9"
    proof (rule ccontr)
      assume "\<not> i < 9"
      then have "(2 :: nat) ^ (64 - 7 * i) \<le> 2 ^ 1"
        by (intro power_increasing) auto
      with big "1.prems"(1) show False
        by simp
    qed
    then have "64 - 7 * i = 7 + (64 - 7 * Suc i)"
      by simp
    then have "(2 :: nat) ^ (64 - 7 * i) = 128 * 2 ^ (64 - 7 * Suc i)"
      by (simp only: power_add) simp
    then have "unat (drop_bit 7 m) < 2 ^ (64 - 7 * Suc i)"
      using "1.prems"(1) by (simp add: drop_bit_eq_div unat_div less_mult_imp_div_less mult.commute)
    with True 1 k i show ?thesis
      by (simp add: put_varint.simps [of m] varint_byte Let_def push_bit_split or.assoc del: push_bit_and)
  next
    case False
    with k show ?thesis
      by (simp add: put_varint.simps [of m] varint_last_byte)
  qed
qed

lemma get_varint_put_varint [simp]: "get_varint (put_varint n @ rest) = Inr (n, rest)"
  using unsigned_less [of n, where ?'a = nat]
  by (simp add: get_varint_def get_varint_put_varint_loop)

lemma varint_len_le: "unat n < 128 ^ k \<Longrightarrow> 0 < k \<Longrightarrow> varint_len n \<le> k"
proof (induction n arbitrary: k rule: varint_len.induct)
  case (1 n)
  show ?case
  proof (cases "128 \<le> n")
    case True
    then obtain j where k: "k = Suc j"
      using "1.prems" by (cases k) auto
    have "0 < j"
      using True "1.prems" k by (cases j) (auto simp: word_le_nat_alt)
    moreover have "unat (drop_bit 7 n) < 128 ^ j"
      using "1.prems" k by (simp add: drop_bit_eq_div unat_div less_mult_imp_div_less mult.commute)
    ultimately show ?thesis
      using 1 True k by (simp add: varint_len.simps [of n])
  next
    case False
    with "1.prems" show ?thesis
      by (simp add: varint_len.simps [of n])
  qed
qed


lemma get_varint_loop_bound:
  assumes "get_varint_loop k i acc bytes = Inr (n, rest)" and "unat acc < 2 ^ (7 * i)"
  shows "unat n < 2 ^ (7 * (i + (length bytes - length rest)))"
  using assms
proof (induction k i acc bytes rule: get_varint_loop.induct)
  case (3 k i acc b bytes)
  let ?n = "acc OR push_bit (7 * i) (ucast (b AND 0x7f)) :: u64"
  have n: "unat ?n < 2 ^ (7 * Suc i)"
    using "3.prems"(2) unfolding unat_less_exp_iff_bits mask_7
    by (fastforce simp: bit_simps)
  show ?case
  proof (cases "b AND 0x80 = 0")
    case True
    with "3.prems" n show ?thesis
      by (auto simp: Let_def)
  next
    case False
    with "3.prems" have *: "get_varint_loop k (Suc i) ?n bytes = Inr (n, rest)"
      by (simp add: Let_def)
    then have "unat n < 2 ^ (7 * (Suc i + (length bytes - length rest)))"
      using "3.IH" [OF refl False * n] by simp
    moreover have "length rest < length bytes"
      using * by (rule get_varint_loop_length)
    ultimately show ?thesis
      by (simp add: Suc_diff_le)
  qed
qed auto

lemma get_varint_minimal:
  assumes "get_varint bytes = Inr (n, rest)"
  shows "varint_len n + length rest \<le> length bytes"
proof -
  have "unat n < 2 ^ (7 * (length bytes - length rest))"
    using get_varint_loop_bound [of 10 0 0 bytes n rest] assms by (simp add: get_varint_def)
  then have "varint_len n \<le> length bytes - length rest"
    using get_varint_length [OF assms] by (intro varint_len_le) (simp_all add: power_mult)
  then show ?thesis
    using get_varint_length [OF assms] by simp
qed

section \<open>Addons\<close>

definition field_len :: "bytes \<Rightarrow> nat" where
  "field_len v = (if v = [] then 0 else 1 + varint_len (of_nat (length v)) + length v)"

lemma addons_encoded_len_fields:
  "addons_encoded_len a = field_len (addons_flow a) + field_len (addons_seed a)"
  by (simp add: addons_encoded_len_def field_len_def)

lemma length_addons_encode [simp, bytes_len]: "length (addons_encode a) = addons_encoded_len a"
  by (simp add: addons_encode_def addons_encoded_len_def)

lemma length_le_field_len: "length v \<le> field_len v"
  by (simp add: field_len_def)

lemma unat_length_u64: "length v \<le> 255 \<Longrightarrow> unat (of_nat (length v) :: u64) = length v"
  by (simp add: unat_of_nat)

lemma addons_decode_field:
  assumes "length v \<le> 255"
  shows "addons_decode_loop me (tag # put_varint (of_nat (length v)) @ v @ rest) =
    (if tag = TAG_FLOW then
       (if utf8_valid v then addons_decode_loop (me\<lparr>addons_flow := v\<rparr>) rest else Inl BadAddonsProto)
     else if tag = TAG_SEED then addons_decode_loop (me\<lparr>addons_seed := v\<rparr>) rest
     else Inl BadAddonsProto)"
  using unat_length_u64 [OF assms] by (simp add: Let_def)

lemma tags_distinct [simp]: "TAG_FLOW \<noteq> TAG_SEED" "TAG_SEED \<noteq> TAG_FLOW"
  by (simp_all add: TAG_FLOW_def TAG_SEED_def)

lemma addons_decode_encode:
  assumes "addons_ok a"
  shows "addons_decode (addons_encode a) = Inr a"
proof -
  have len: "length (addons_flow a) \<le> 255" "length (addons_seed a) \<le> 255"
    using assms length_le_field_len [of "addons_flow a"] length_le_field_len [of "addons_seed a"]
    by (auto simp: addons_ok_def addons_encoded_len_fields)
  note f = addons_decode_field [OF len(1)] addons_decode_field [OF len(1), where rest = "[]"]
    addons_decode_field [OF len(2), where rest = "[]"]
  have "utf8_valid (addons_flow a)"
    using assms by (simp add: addons_ok_def)
  then show ?thesis
    using f
    by (cases "addons_flow a = []"; cases "addons_seed a = []")
       (simp_all add: addons_decode_def addons_encode_def addons_default_def del: addons_decode_loop.simps(2))
qed

lemma addons_decode_loop_bound:
  "addons_decode_loop me bytes = Inr a \<Longrightarrow>
   addons_encoded_len a \<le> addons_encoded_len me + length bytes"
proof (induction me bytes rule: addons_decode_loop.induct)
  case (2 me tag bytes)
  then obtain n bytes' where n: "get_varint bytes = Inr (n, bytes')" "unat n \<le> length bytes'"
    by (auto simp: Let_def split: sum.splits if_splits)
  let ?val = "take (unat n) bytes'" and ?rest = "drop (unat n) bytes'"
  have "length ?val = unat n"
    using n(2) by simp
  then have "field_len ?val \<le> 1 + varint_len n + unat n"
    by (simp only: field_len_def of_nat_unat ucast_id) simp
  moreover have "varint_len n + unat n + length ?rest \<le> length bytes"
    using get_varint_minimal [OF n(1)] n(2) by simp
  ultimately have v: "field_len ?val + length ?rest \<le> 1 + length bytes"
    by simp
  have "(tag = TAG_FLOW \<and> addons_decode_loop (me\<lparr>addons_flow := ?val\<rparr>) ?rest = Inr a \<and> utf8_valid ?val) \<or>
        (tag \<noteq> TAG_FLOW \<and> tag = TAG_SEED \<and> addons_decode_loop (me\<lparr>addons_seed := ?val\<rparr>) ?rest = Inr a)"
    using 2 n by (auto simp: Let_def split: if_splits)
  then show ?case
  proof (elim disjE conjE)
    assume h: "tag = TAG_FLOW" "addons_decode_loop (me\<lparr>addons_flow := ?val\<rparr>) ?rest = Inr a" "utf8_valid ?val"
    have "addons_encoded_len a \<le> addons_encoded_len (me\<lparr>addons_flow := ?val\<rparr>) + length ?rest"
      using "2.IH"(1) [OF n(1) refl refl _ refl refl h(1,3,2)] n(2) by simp
    with v show ?thesis
      by (simp add: addons_encoded_len_fields)
  next
    assume h: "tag \<noteq> TAG_FLOW" "tag = TAG_SEED" "addons_decode_loop (me\<lparr>addons_seed := ?val\<rparr>) ?rest = Inr a"
    have "addons_encoded_len a \<le> addons_encoded_len (me\<lparr>addons_seed := ?val\<rparr>) + length ?rest"
      using "2.IH"(2) [OF n(1) refl refl _ refl refl h] n(2) by simp
    with v show ?thesis
      by (simp add: addons_encoded_len_fields)
  qed
qed simp

lemma addons_decode_loop_utf8:
  "\<lbrakk>addons_decode_loop me bytes = Inr a; utf8_valid (addons_flow me)\<rbrakk> \<Longrightarrow> utf8_valid (addons_flow a)"
  by (induction me bytes rule: addons_decode_loop.induct)
     (auto simp: Let_def split: sum.splits if_splits)

lemma addons_decode_ok:
  assumes "addons_decode bytes = Inr a" and "length bytes \<le> 255"
  shows "addons_ok a"
  using addons_decode_loop_bound [of addons_default bytes a] addons_decode_loop_utf8 [of addons_default bytes a] assms
  by (simp add: addons_ok_def addons_decode_def) (simp add: addons_default_def addons_encoded_len_def)

section \<open>Requests and responses\<close>

lemma get_slice_simps:
  "length buf < n \<Longrightarrow> get_slice n buf = Inl (Truncated n (length buf))"
  "n \<le> length buf \<Longrightarrow> get_slice n buf = Inr (take n buf, drop n buf)"
  by (simp_all add: get_slice_def ensure_def)

lemma get_slice_append [simp]: "length a = n \<Longrightarrow> get_slice n (a @ b) = Inr (a, b)"
  by (simp add: get_slice_simps)

lemma get_slice_exact [simp]: "length a = n \<Longrightarrow> get_slice n a = Inr (a, [])"
  by (simp add: get_slice_simps)

lemma get_slice_eq_Inr:
  "get_slice n buf = Inr (a, b) \<longleftrightarrow> n \<le> length buf \<and> a = take n buf \<and> b = drop n buf"
  by (auto simp: get_slice_def ensure_def)

lemma get_u8_Cons [simp]: "get_u8 (b # buf) = Inr (b, buf)"
  by (simp add: get_u8_def get_slice_simps)

lemma get_slice_stable [stable_intros]: "stable_parser is_truncated (get_slice n)"
  by (rule stableI) (auto simp: get_slice_def ensure_def split: if_splits)

lemma get_u8_stable [stable_intros]: "stable_parser is_truncated get_u8"
  unfolding get_u8_def by (intro stable_intros)

lemma decode_address_stable [stable_intros]: "stable_parser is_truncated (decode_address t)"
  unfolding decode_address_def by (intro stable_intros)

lemma decode_target_stable [stable_intros]: "stable_parser is_truncated decode_target"
  unfolding decode_target_def by (intro stable_intros)

lemma request_decode_stable: "stable_parser is_truncated request_decode"
  unfolding request_decode_def by (intro stable_intros)

lemma response_decode_stable: "stable_parser is_truncated response_decode"
  unfolding response_decode_def by (intro stable_intros)

lemma addr_tags [simp]:
  "ADDR_IPV4 \<noteq> ADDR_IPV6" "ADDR_IPV6 \<noteq> ADDR_IPV4" "ADDR_DOMAIN \<noteq> ADDR_IPV4"
  "ADDR_DOMAIN \<noteq> ADDR_IPV6"
  by (simp_all add: ADDR_IPV4_def ADDR_IPV6_def ADDR_DOMAIN_def)

lemma decode_encode_target:
  assumes "address_ok (address ep)"
  shows "decode_target (encode_target ep) = Inr (ep, [])"
proof (cases "address ep")
  case (Ip ip)
  then show ?thesis
    by (cases ip) (auto simp: decode_target_def encode_target_def decode_address_def be16_def
        get_slice_simps intro: Endpoint.equality)
next
  case (Domain d)
  with assms have d: "d \<noteq> []" "length d \<le> 255" "utf8_valid d"
    by (auto simp: MAX_DOMAIN_LEN_def)
  then have "unat (of_nat (length d) :: u8) = length d" "(of_nat (length d) :: u8) \<noteq> 0"
    by (auto simp: unat_of_nat_u8 simp flip: unat_eq_0)
  with d Domain show ?thesis
    by (auto simp: decode_target_def encode_target_def decode_address_def be16_def
        get_slice_simps address_domain_def MAX_DOMAIN_LEN_def intro: Endpoint.equality)
qed

lemma length_encode_head [bytes_len]:
  "length (encode_head r) = 19 + addons_encoded_len (request_addons r)"
  by (simp add: encode_head_def Let_def)

lemma length_encode_target [bytes_len]:
  "length (encode_target ep) =
    3 + (case address ep of Ip (V4 _) \<Rightarrow> 4 | Ip (V6 _) \<Rightarrow> 16 | Domain d \<Rightarrow> 1 + length d)"
  by (auto simp: encode_target_def split: Address.splits IpAddr.splits)

lemma request_decode_head:
  assumes "addons_ok (request_addons r)"
  shows "request_decode (encode_head r @ buf) =
    (if req_command r = Mux then
       Inr (r\<lparr>req_target := None\<rparr>, buf)
     else rbind (decode_target buf) (\<lambda>(ep, buf). Inr (r\<lparr>req_target := Some ep\<rparr>, buf)))"
proof -
  have "unat (of_nat (addons_encoded_len (request_addons r)) :: u8) = addons_encoded_len (request_addons r)"
    using assms by (intro unat_of_nat_u8) (simp add: addons_ok_def)
  then show ?thesis
    using addons_decode_encode [OF assms]
    by (cases r) (simp add: request_decode_def encode_head_def Let_def request_addons_def)
qed

lemma request_round_trip:
  assumes "request_ok r"
  shows "request_decode (request_bytes r) = Inr (r, [])"
proof (cases "req_target r")
  case None
  with assms request_decode_head [of r "[]"] show ?thesis
    by (simp add: request_ok_def request_bytes_def request_encode_def)
next
  case (Some ep)
  with assms have "req_command r \<noteq> Mux" "address_ok (address ep)" "addons_ok (request_addons r)"
    by (auto simp: request_ok_def)
  with Some request_decode_head [of r "encode_target ep"] decode_encode_target [of ep] show ?thesis
    by (simp add: request_bytes_def request_encode_def)
qed

lemma decode_address_ok: "decode_address t buf = Inr (a, rest) \<Longrightarrow> address_ok a"
  by (auto simp: decode_address_def rbind_eq_Inr_iff address_domain_ok split: if_splits prod.splits)

lemma request_decode_ok:
  assumes "request_decode buf = Inr (r, rest)"
  shows "request_ok r"
proof -
  obtain n b addons flow where a: "addons_decode (take (unat (n :: u8)) b) = Inr addons"
      "flow_from_wire (addons_flow addons) = Some flow"
      "req_flow r = flow" "req_seed r = addons_seed addons"
    and t: "req_target r = None \<and> req_command r = Mux \<or>
      (\<exists>ep buf rest. req_target r = Some ep \<and> req_command r \<noteq> Mux \<and> decode_target buf = Inr (ep, rest))"
    using assms
    by (fastforce simp: request_decode_def rbind_eq_Inr_iff get_slice_eq_Inr
        split: if_splits prod.splits)
  have "addons_ok addons"
    using a(1) by (rule addons_decode_ok) (simp add: min.coboundedI2 unat_u8_le)
  moreover have "field_len (flow_as_str flow) \<le> field_len (addons_flow addons)"
    using a(2) by (auto simp: flow_from_wire_def field_len_def split: if_splits)
  ultimately have "addons_ok (request_addons r)"
    using a by (simp add: addons_ok_def addons_encoded_len_fields request_addons_def)
  moreover have "address_ok (address ep)" if "decode_target buf = Inr (ep, rest)" for ep buf rest
    using that decode_address_ok
    by (fastforce simp: decode_target_def rbind_eq_Inr_iff split: prod.splits)
  ultimately show ?thesis
    using t by (auto simp: request_ok_def)
qed

lemma response_round_trip:
  assumes "addons_ok (resp_addons r)"
  shows "response_decode (response_encode r) = Inr (r, [])"
proof -
  have "unat (of_nat (addons_encoded_len (resp_addons r)) :: u8) = addons_encoded_len (resp_addons r)"
    using assms by (intro unat_of_nat_u8) (simp add: addons_ok_def)
  then show ?thesis
    using addons_decode_encode [OF assms]
    by (simp add: response_decode_def response_encode_def)
qed

interpretation request: byte_codec request_decode is_truncated request_bytes request_ok
  by unfold_locales (auto intro: request_decode_stable request_round_trip)

interpretation response: byte_codec response_decode is_truncated response_encode
    "\<lambda>r. addons_ok (resp_addons r)"
  by unfold_locales (auto intro: response_decode_stable response_round_trip)

lemma length_request_bytes:
  assumes "request_encode r = Some bs"
  shows "length bs = request_encoded_len r"
  using assms
  by (auto simp: request_encode_def request_encoded_len_def length_encode_head length_encode_target
      split: option.splits Command.splits)

section \<open>Properties\<close>

text \<open>
  C2.  A well-formed request survives the tunnel: whatever non-empty chunks the
  transport delivers its encoding (followed by payload) in, the accumulate-and-decode
  loop of the proxy returns exactly that request, and the bytes it has not consumed
  are exactly the payload.
\<close>

theorem request_survives_chunking:
  assumes "request_ok r" and "concat cs = request_bytes r @ payload" and "[] \<notin> set cs"
  shows "\<exists>left cs'. read_until request_decode is_truncated [] cs = Inr (r, left, cs') \<and>
    left @ concat cs' = payload"
proof (rule request.read_until_complete)
  show "strict_prefix [] (request_bytes r)"
    using request_round_trip [OF assms(1)] by (cases "request_bytes r") (auto simp: request_decode_def get_u8_def get_slice_simps)
qed (use assms in auto)

theorem request_survives_chunking_witness:
  "\<exists>left cs'. read_until request_decode is_truncated []
      [take 3 (request_bytes \<lparr>req_user = 7, req_flow = FlowNone, req_command = Tcp,
         req_target = Some \<lparr>address = Domain [97, 98], port = 443\<rparr>, req_seed = []\<rparr>),
       drop 3 (request_bytes \<lparr>req_user = 7, req_flow = FlowNone, req_command = Tcp,
         req_target = Some \<lparr>address = Domain [97, 98], port = 443\<rparr>, req_seed = []\<rparr>) @ [1, 2]] =
      Inr (\<lparr>req_user = 7, req_flow = FlowNone, req_command = Tcp,
         req_target = Some \<lparr>address = Domain [97, 98], port = 443\<rparr>, req_seed = []\<rparr>, left, cs') \<and>
    left @ concat cs' = [1, 2]"
  by (rule request_survives_chunking)
     (simp_all add: request_ok_def addons_ok_def request_addons_def addons_encoded_len_def
       MAX_DOMAIN_LEN_def request_bytes_def request_encode_def encode_head_def encode_target_def
       be16_def user_as_bytes_def be_bytes_eval Let_def)

text \<open>
  Decoding is sound and canonical: whatever bytes a request is decoded from, it is
  well formed (a target exactly when the command is not \<open>Mux\<close>, a domain of 1 to 255
  bytes of UTF-8, add-ons that fit the length byte), so re-encoding cannot panic, has
  exactly the advertised length, and decodes to the same request again in front of any
  payload.
\<close>

lemma request_decode_canonical:
  assumes "request_decode buf = Inr (r, rest)"
  shows "request_ok r \<and>
    (\<exists>bs. request_encode r = Some bs \<and> length bs = request_encoded_len r \<and>
      (\<forall>payload. request_decode (bs @ payload) = Inr (r, payload)))"
proof -
  have ok: "request_ok r"
    using assms by (rule request_decode_ok)
  then obtain bs where bs: "request_encode r = Some bs"
    by (auto simp: request_ok_def request_encode_def split: option.splits Command.splits)
  then have "request_decode (bs @ payload) = Inr (r, payload)" for payload
    using request.round_trip [OF ok, of payload] by (simp add: request_bytes_def)
  with ok bs length_request_bytes [OF bs] show ?thesis
    by blast
qed

text \<open>
  No proper prefix of a request is mistaken for a request or for garbage: the
  decoder answers \<open>Truncated\<close>, and no request's encoding is a prefix of another's.
\<close>

lemma request_prefix_truncated:
  assumes "request_ok r" and "strict_prefix p (request_bytes r)"
  shows "(\<exists>n m. request_decode p = Inl (Truncated n m)) \<and>
    (\<nexists>q. request_ok q \<and> request_bytes q = p)"
proof -
  obtain e where e: "request_decode p = Inl e" "is_truncated e"
    using request.truncated [OF assms] by blast
  moreover have "\<exists>n m. e = Truncated n m"
    using e(2) by (cases e) auto
  ultimately show ?thesis
    using request_round_trip by fastforce
qed

end
