(* ===== verification/Vision_Codec.thy ===== *)
theory Vision_Codec
  imports Stream_Interfaces Wire_Codec
begin

text \<open>
  The XTLS-Vision padding codecs.  \<^verbatim>\<open>donut-wire/src/vision.rs\<close> has a padder and an
  unpadder over a pending buffer; \<^verbatim>\<open>donut-io/src/vision_xray.rs\<close> has the byte-faithful
  port with its own unpadder, the TLS filter that decides when to splice, and the
  record test.  A byte-at-a-time machine (\<open>vstep\<close>) is the abstract specification of
  an unpadder; both unpadders refine it, so they agree with each other and do not
  depend on how the transport cuts the stream into chunks.

  The random draw of \<^verbatim>\<open>rng.gen_range\<close> is an argument of \<open>xtls_padding\<close>.  The
  \<^verbatim>\<open>i32\<close> counters of the second unpadder are integers; \<open>unpadder_inv\<close> bounds them
  by \<open>65535\<close>, so no wrap-around is possible.
\<close>

section \<open>donut-wire/src/vision.rs\<close>

definition CMD_PADDING_CONTINUE :: u8 where "CMD_PADDING_CONTINUE = 0"
definition CMD_PADDING_END :: u8 where "CMD_PADDING_END = 1"
definition CMD_PADDING_DIRECT :: u8 where "CMD_PADDING_DIRECT = 2"
definition MAX_CONTENT :: nat where "MAX_CONTENT = 65535"

record VisionPadder =
  pd_uuid :: bytes
  pd_first :: bool

definition vision_padder_new :: "bytes \<Rightarrow> VisionPadder" where
  "vision_padder_new uuid = \<lparr>pd_uuid = uuid, pd_first = True\<rparr>"

definition vision_frame :: "VisionPadder \<Rightarrow> u8 \<Rightarrow> bytes \<Rightarrow> u16 \<Rightarrow> VisionPadder \<times> bytes" where
  "vision_frame p command content padding_len =
    (p\<lparr>pd_first := False\<rparr>,
     (if pd_first p then pd_uuid p else []) @
     command # be16 (of_nat (length content)) @ be16 padding_len @ content @
     replicate (unat padding_len) 0)"

record VisionUnpadder =
  vu_uuid :: bytes
  vu_started :: bool
  vu_direct :: bool
  vu_reading_header :: bool
  vu_remaining_content :: nat
  vu_remaining_padding :: nat
  vu_current_command :: u8
  vu_pending :: bytes

definition vision_unpadder_new :: "bytes \<Rightarrow> VisionUnpadder" where
  "vision_unpadder_new uuid =
    \<lparr>vu_uuid = uuid, vu_started = False, vu_direct = False, vu_reading_header = False,
     vu_remaining_content = 0, vu_remaining_padding = 0,
     vu_current_command = CMD_PADDING_CONTINUE, vu_pending = []\<rparr>"

text \<open>
  One pass through the body of \<^verbatim>\<open>push\<close>'s \<^verbatim>\<open>loop\<close>, on the bytes \<open>rest\<close> that follow the
  index \<^verbatim>\<open>i\<close>.  The last component says whether the loop goes round again.
\<close>

definition vu_read_header :: "VisionUnpadder \<Rightarrow> bytes \<Rightarrow> VisionUnpadder \<times> bytes" where
  "vu_read_header s rest =
    (s\<lparr>vu_current_command := rest ! 0,
       vu_remaining_content := unat (from_be16 (rest ! 1) (rest ! 2)),
       vu_remaining_padding := unat (from_be16 (rest ! 3) (rest ! 4)),
       vu_reading_header := False\<rparr>, drop 5 rest)"

definition vu_block :: "VisionUnpadder \<Rightarrow> bytes \<Rightarrow> VisionUnpadder \<times> bytes \<times> bytes \<times> bool" where
  "vu_block s rest =
    (let n = min (vu_remaining_content s) (length rest);
         out = take n rest;
         rest = drop n rest;
         s = s\<lparr>vu_remaining_content := vu_remaining_content s - n\<rparr>
     in if vu_remaining_content s > 0 then (s, rest, out, False)
     else
       let k = min (vu_remaining_padding s) (length rest);
           rest = drop k rest;
           s = s\<lparr>vu_remaining_padding := vu_remaining_padding s - k\<rparr>
       in if vu_remaining_padding s > 0 then (s, rest, out, False)
       else if vu_current_command s = CMD_PADDING_CONTINUE then
         (s\<lparr>vu_reading_header := True\<rparr>, rest, out, True)
       else (s\<lparr>vu_direct := True\<rparr>, [], out @ rest, False))"

function vu_loop :: "VisionUnpadder \<Rightarrow> bytes \<Rightarrow> VisionUnpadder \<times> bytes \<times> bytes" where
  "vu_loop s rest =
    (if vu_reading_header s \<and> length rest < 5 then (s, rest, [])
     else
       let (s1, rest1) = (if vu_reading_header s then vu_read_header s rest else (s, rest));
           (s2, rest2, out, again) = vu_block s1 rest1
       in if again then
            let (s3, rest3, out') = vu_loop s2 rest2 in (s3, rest3, out @ out')
          else (s2, rest2, out))"
  by pat_completeness auto
termination
proof (relation "measure (\<lambda>(s, rest). 2 * length rest + (if vu_reading_header s then 0 else 1))", goal_cases)
  case (2 s rest x s1 rest1 y s2 z rest2 w out again)
  then show ?case
    by (auto simp: vu_block_def vu_read_header_def Let_def split: if_splits)
qed simp

declare vu_loop.simps [simp del]

definition vision_push :: "VisionUnpadder \<Rightarrow> bytes \<Rightarrow> VisionUnpadder \<times> bytes" where
  "vision_push s input =
    (if vu_direct s then (s, input)
     else
       let pending = vu_pending s @ input in
       if \<not> vu_started s \<and> length pending < 21 then (s\<lparr>vu_pending := pending\<rparr>, [])
       else if \<not> vu_started s \<and> take 16 pending \<noteq> vu_uuid s then
         (s\<lparr>vu_direct := True, vu_pending := []\<rparr>, pending)
       else
         let (s, pending) =
               (if vu_started s then (s, pending)
                else (s\<lparr>vu_started := True, vu_reading_header := True\<rparr>, drop 16 pending));
             (s, rest, out) = vu_loop s pending
         in (s\<lparr>vu_pending := rest\<rparr>, out))"

section \<open>donut-io/src/vision_xray.rs\<close>

definition BUF_SIZE :: nat where "BUF_SIZE = 8192"
definition DEFAULT_SEED :: "nat \<times> nat \<times> nat \<times> nat" where "DEFAULT_SEED = (900, 500, 900, 256)"

definition padding_len :: "nat \<Rightarrow> bool \<Rightarrow> nat \<times> nat \<times> nat \<times> nat \<Rightarrow> nat \<Rightarrow> int" where
  "padding_len content_len long_padding seed draw =
    (case seed of (s0, s1, s2, s3) \<Rightarrow>
     (let p = (if content_len < s0 \<and> long_padding then int draw + int s2 - int content_len
               else int draw);
          cap = int BUF_SIZE - 21 - int content_len;
          p = (if p > cap then cap else p)
      in if p < 0 then 0 else p))"

definition xtls_padding ::
    "bytes \<Rightarrow> u8 \<Rightarrow> bytes option \<Rightarrow> bool \<Rightarrow> nat \<times> nat \<times> nat \<times> nat \<Rightarrow> nat \<Rightarrow> bytes option \<times> bytes" where
  "xtls_padding content command uuid_once long_padding seed draw =
    (let content_len = length content;
         pad = nat (padding_len content_len long_padding seed draw)
     in (None,
         (case uuid_once of Some uuid \<Rightarrow> uuid | None \<Rightarrow> []) @
         [command, of_nat (content_len div 256), of_nat content_len,
          of_nat (pad div 256), of_nat pad] @ content @ replicate pad 0))"

record Unpadder =
  up_user_uuid :: bytes
  up_started :: bool
  up_passthrough :: bool
  up_pending :: bytes
  up_remaining_command :: int
  up_remaining_content :: int
  up_remaining_padding :: int
  up_current_command :: int
  up_finished :: bool
  up_direct :: bool

definition unpadder_new :: "bytes \<Rightarrow> Unpadder" where
  "unpadder_new uuid =
    \<lparr>up_user_uuid = uuid, up_started = False, up_passthrough = False, up_pending = [],
     up_remaining_command = - 1, up_remaining_content = - 1, up_remaining_padding = - 1,
     up_current_command = 0, up_finished = False, up_direct = False\<rparr>"

text \<open>
  \<^verbatim>\<open>(x as usize).min(b.len())\<close>: a negative \<open>i32\<close> cast to \<^verbatim>\<open>usize\<close> is larger than any
  length.  \<open>c << 8 | d\<close> on a byte \<open>d\<close> is \<open>c * 256 + d\<close>.
\<close>

definition usize_min :: "int \<Rightarrow> nat \<Rightarrow> nat" where
  "usize_min x n = (if x < 0 then n else min (nat x) n)"

definition up_header_byte :: "Unpadder \<Rightarrow> u8 \<Rightarrow> Unpadder" where
  "up_header_byte s data =
    (let d = uint data; r = up_remaining_command s;
         s = (if r = 5 then s\<lparr>up_current_command := d\<rparr>
              else if r = 4 then s\<lparr>up_remaining_content := d * 256\<rparr>
              else if r = 3 then s\<lparr>up_remaining_content := up_remaining_content s + d\<rparr>
              else if r = 2 then s\<lparr>up_remaining_padding := d * 256\<rparr>
              else if r = 1 then s\<lparr>up_remaining_padding := up_remaining_padding s + d\<rparr>
              else s)
     in s\<lparr>up_remaining_command := r - 1\<rparr>)"

definition up_consume :: "Unpadder \<Rightarrow> bytes \<Rightarrow> Unpadder \<times> bytes \<times> bytes" where
  "up_consume s b =
    (if up_remaining_command s > 0 then (up_header_byte s (hd b), tl b, [])
     else if up_remaining_content s > 0 then
       (let n = usize_min (up_remaining_content s) (length b)
        in (s\<lparr>up_remaining_content := up_remaining_content s - int n\<rparr>, drop n b, take n b))
     else
       (let n = usize_min (up_remaining_padding s) (length b)
        in (s\<lparr>up_remaining_padding := up_remaining_padding s - int n\<rparr>, drop n b, [])))"

definition up_block_done :: "Unpadder \<Rightarrow> bool" where
  "up_block_done s \<longleftrightarrow>
    up_remaining_command s \<le> 0 \<and> up_remaining_content s \<le> 0 \<and> up_remaining_padding s \<le> 0"

definition up_finish :: "Unpadder \<Rightarrow> Unpadder" where
  "up_finish s =
    s\<lparr>up_remaining_command := - 1, up_remaining_content := - 1, up_remaining_padding := - 1,
      up_finished := True, up_direct := (up_direct s \<or> up_current_command s = 2)\<rparr>"

definition up_measure :: "Unpadder \<Rightarrow> bytes \<Rightarrow> nat" where
  "up_measure s b = 2 * length b + (if up_remaining_command s > 0 then 0 else 1)"

lemma up_consume_decreases:
  assumes "b \<noteq> []" and "up_consume s b = (s1, b1, out)"
  shows "2 * length b1 < up_measure s b"
    and "\<not> up_block_done s1 \<Longrightarrow> up_measure s1 b1 < up_measure s b"
  using assms
  by (cases b; auto simp: up_consume_def up_measure_def usize_min_def up_block_done_def Let_def
      split: if_splits)+

function up_process :: "Unpadder \<Rightarrow> bytes \<Rightarrow> Unpadder \<times> bytes" where
  "up_process s b =
    (if b = [] then (s, [])
     else
       let (s1, b1, out) = up_consume s b in
       if up_block_done s1 then
         (if up_current_command s1 = 0 then
            let (s2, out') = up_process (s1\<lparr>up_remaining_command := 5\<rparr>) b1 in (s2, out @ out')
          else (up_finish s1, out @ b1))
       else let (s2, out') = up_process s1 b1 in (s2, out @ out'))"
  by pat_completeness auto
termination
proof (relation "measure (\<lambda>(s, b). up_measure s b)", goal_cases)
  case (2 s b x s1 y b1 out)
  then have "2 * length b1 < up_measure s b"
    using up_consume_decreases(1) [of b s s1 b1 out] by simp
  then show ?case
    by (simp add: up_measure_def)
next
  case (3 s b x s1 y b1 out)
  then show ?case
    using up_consume_decreases(2) [of b s s1 b1 out] by simp
qed simp

declare up_process.simps [simp del]

definition unpadder_push :: "Unpadder \<Rightarrow> bytes \<Rightarrow> Unpadder \<times> bytes" where
  "unpadder_push s input =
    (if up_finished s then (s, input)
     else if up_passthrough s then (s, input)
     else if \<not> up_started s then
       (let pending = up_pending s @ input in
        if length pending < 21 then (s\<lparr>up_pending := pending\<rparr>, [])
        else if take 16 pending \<noteq> up_user_uuid s then
          (s\<lparr>up_passthrough := True, up_pending := []\<rparr>, pending)
        else up_process (s\<lparr>up_started := True, up_remaining_command := 5, up_pending := []\<rparr>)
               (drop 16 pending))
     else up_process s input)"

record FilterState =
  number_to_filter :: int
  enable_xtls :: bool
  is_tls12_or_above :: bool
  is_tls :: bool
  fs_cipher :: u16
  remaining_server_hello :: int

definition filter_default :: FilterState where
  "filter_default =
    \<lparr>number_to_filter = 8, enable_xtls = False, is_tls12_or_above = False, is_tls = False,
     fs_cipher = 0, remaining_server_hello = 0\<rparr>"

definition TLS_SERVER_HS_START :: bytes where "TLS_SERVER_HS_START = [0x16, 0x03, 0x03]"
definition TLS_CLIENT_HS_START :: bytes where "TLS_CLIENT_HS_START = [0x16, 0x03]"
definition TLS13_SUPPORTED_VERSIONS :: bytes where
  "TLS13_SUPPORTED_VERSIONS = [0x00, 0x2b, 0x00, 0x02, 0x03, 0x04]"
definition TLS_HS_TYPE_CLIENT_HELLO :: u8 where "TLS_HS_TYPE_CLIENT_HELLO = 1"
definition TLS_HS_TYPE_SERVER_HELLO :: u8 where "TLS_HS_TYPE_SERVER_HELLO = 2"
definition TLS_AES_128_CCM_8_SHA256 :: u16 where "TLS_AES_128_CCM_8_SHA256 = 0x1305"

fun windows_any :: "bytes \<Rightarrow> bytes \<Rightarrow> bool" where
  "windows_any needle [] = False"
| "windows_any needle (x # xs) =
    (length needle \<le> length (x # xs) \<and>
     (take (length needle) (x # xs) = needle \<or> windows_any needle xs))"

definition contains_seq :: "bytes \<Rightarrow> bytes \<Rightarrow> bool" where
  "contains_seq haystack needle =
    (if needle = [] \<or> length haystack < length needle then False
     else windows_any needle haystack)"

definition filter_hello :: "FilterState \<Rightarrow> bytes \<Rightarrow> FilterState" where
  "filter_hello s b =
    (if length b \<ge> 6 then
       (if take 3 b = TLS_SERVER_HS_START \<and> b ! 5 = TLS_HS_TYPE_SERVER_HELLO then
          (let s = s\<lparr>remaining_server_hello := int (unat (from_be16 (b ! 3) (b ! 4))) + 5,
                      is_tls12_or_above := True, is_tls := True\<rparr>
           in if length b \<ge> 79 \<and> remaining_server_hello s \<ge> 79 then
                (let session_id_len = unat (b ! 43) in
                 if 43 + session_id_len + 3 \<le> length b then
                   s\<lparr>fs_cipher := from_be16 (b ! (43 + session_id_len + 1))
                                        (b ! (43 + session_id_len + 2))\<rparr>
                 else s)
              else s)
        else if take 2 b = TLS_CLIENT_HS_START \<and> b ! 5 = TLS_HS_TYPE_CLIENT_HELLO then
          s\<lparr>is_tls := True\<rparr>
        else s)
     else s)"

definition filter_tls :: "FilterState \<Rightarrow> bytes \<Rightarrow> FilterState" where
  "filter_tls s b =
    (let s = filter_hello (s\<lparr>number_to_filter := number_to_filter s - 1\<rparr>) b in
     if remaining_server_hello s > 0 then
       (let e = min (nat (remaining_server_hello s)) (length b);
            s = s\<lparr>remaining_server_hello := remaining_server_hello s - int (length b)\<rparr>
        in if contains_seq (take e b) TLS13_SUPPORTED_VERSIONS then
             (if fs_cipher s \<noteq> TLS_AES_128_CCM_8_SHA256
              then s\<lparr>enable_xtls := True, number_to_filter := 0\<rparr>
              else s\<lparr>number_to_filter := 0\<rparr>)
           else if remaining_server_hello s \<le> 0 then s\<lparr>number_to_filter := 0\<rparr>
           else s)
     else s)"

function is_complete_record :: "bytes \<Rightarrow> bool" where
  "is_complete_record b =
    (if b = [] then True
     else if length b < 5 then False
     else if b ! 0 \<noteq> 0x17 \<or> b ! 1 \<noteq> 0x03 \<or> b ! 2 \<noteq> 0x03 then False
     else
       let total = 5 + unat (from_be16 (b ! 3) (b ! 4)) in
       if length b < total then False else is_complete_record (drop total b))"
  by pat_completeness auto
termination
  by (relation "measure length") auto

declare is_complete_record.simps [simp del]

section \<open>The specification of an unpadder\<close>

text \<open>
  The state is what is still expected: the sixteen-byte identifier with the first
  header, a header, the rest of a block, or nothing (every byte is payload).
\<close>

datatype vstate =
    VDetect bytes
  | VHead bytes
  | VBody u8 nat nat
  | VRaw "u8 option"

definition vdone :: "u8 \<Rightarrow> nat \<Rightarrow> nat \<Rightarrow> vstate" where
  "vdone cmd n m =
    (if n = 0 \<and> m = 0 then (if cmd = 0 then VHead [] else VRaw (Some cmd)) else VBody cmd n m)"

definition vheader :: "bytes \<Rightarrow> vstate" where
  "vheader h =
    vdone (h ! 0) (unat (from_be16 (h ! 1) (h ! 2))) (unat (from_be16 (h ! 3) (h ! 4)))"

fun vstep :: "bytes \<Rightarrow> vstate \<Rightarrow> u8 \<Rightarrow> vstate \<times> bytes" where
  "vstep uuid (VDetect p) b =
    (let p' = p @ [b] in
     if length p' < 21 then (VDetect p', [])
     else if take 16 p' = uuid then (vheader (drop 16 p'), [])
     else (VRaw None, p'))"
| "vstep uuid (VHead h) b =
    (let h' = h @ [b] in if length h' < 5 then (VHead h', []) else (vheader h', []))"
| "vstep uuid (VBody cmd n m) b =
    (if n > 0 then (vdone cmd (n - 1) m, [b]) else (vdone cmd n (m - 1), []))"
| "vstep uuid (VRaw c) b = (VRaw c, [b])"

abbreviation vrun :: "bytes \<Rightarrow> vstate \<Rightarrow> bytes \<Rightarrow> vstate \<times> bytes" where
  "vrun uuid \<equiv> run_bytes (vstep uuid)"

text \<open>A padded block, as both padders lay it out after the identifier.\<close>

definition block :: "u8 \<Rightarrow> bytes \<Rightarrow> nat \<Rightarrow> bytes" where
  "block cmd content pad =
    cmd # be16 (of_nat (length content)) @ be16 (of_nat pad) @ content @ replicate pad 0"

section \<open>The machine on whole blocks\<close>

lemma vrun_raw [simp]: "vrun uuid (VRaw c) bs = (VRaw c, bs)"
  by (induction bs) simp_all

lemma vrun_padding:
  "length bs \<le> m \<Longrightarrow> vrun uuid (vdone cmd 0 m) bs = (vdone cmd 0 (m - length bs), [])"
proof (induction bs arbitrary: m)
  case (Cons b bs)
  then show ?case
    by (cases m) (auto simp: vdone_def [of cmd 0 "Suc _"])
qed simp

lemma vrun_content:
  "length bs \<le> n \<Longrightarrow> vrun uuid (vdone cmd n m) bs = (vdone cmd (n - length bs) m, bs)"
proof (induction bs arbitrary: n)
  case (Cons b bs)
  then show ?case
    by (cases n) (auto simp: vdone_def [of cmd "Suc _"])
qed simp

lemma vrun_body:
  assumes "length c = n" and "length p = m"
  shows "vrun uuid (vdone cmd n m) (c @ p @ r) =
    (let (v, out) = vrun uuid (vdone cmd 0 0) r in (v, c @ out))"
  using assms vrun_content [of c n uuid cmd m] vrun_padding [of p m uuid cmd]
  by (simp add: run_bytes_append)

lemma vrun_head:
  assumes "length h < 5" and "length h + length bs \<le> 5"
  shows "vrun uuid (VHead h) bs =
    (if length h + length bs < 5 then VHead (h @ bs) else vheader (h @ bs), [])"
  using assms
proof (induction bs arbitrary: h)
  case (Cons b bs)
  show ?case
  proof (cases "bs = []")
    case False
    then have "length h < 4"
      using Cons.prems by (cases bs) auto
    with Cons.IH [of "h @ [b]"] Cons.prems show ?thesis
      by simp
  qed (use Cons.prems in auto)
qed simp

lemma vrun_detect:
  assumes "length p < 21" and "length p + length bs \<le> 21"
  shows "vrun uuid (VDetect p) bs =
    (if length p + length bs < 21 then (VDetect (p @ bs), [])
     else if take 16 (p @ bs) = uuid then (vheader (drop 16 (p @ bs)), [])
     else (VRaw None, p @ bs))"
  using assms
proof (induction bs arbitrary: p)
  case (Cons b bs)
  show ?case
  proof (cases "bs = []")
    case False
    then have "length p < 20"
      using Cons.prems by (cases bs) auto
    with Cons.IH [of "p @ [b]"] Cons.prems show ?thesis
      by (simp del: take_append drop_append)
  qed (use Cons.prems in auto)
qed simp

lemma vheader_take: "vheader (take 5 bs) = vheader bs"
  by (simp add: vheader_def)

lemma vheader_Cons: "vheader (cmd # be16 n @ be16 m @ rest) = vdone cmd (unat n) (unat m)"
  by (simp add: vheader_def be16_def)

lemma vrun_head_prefix:
  assumes "5 \<le> length bs"
  shows "vrun uuid (VHead []) bs = vrun uuid (vheader bs) (drop 5 bs)"
proof -
  have "vrun uuid (VHead []) (take 5 bs) = (vheader (take 5 bs), [])"
    using assms vrun_head [of "[]" "take 5 bs"] by simp
  moreover have "vheader (take 5 bs) = vheader bs"
    by (rule vheader_take)
  ultimately show ?thesis
    using run_bytes_append [of "vstep uuid" "VHead []" "take 5 bs" "drop 5 bs"]
    by (cases "vrun uuid (vheader bs) (drop 5 bs)") simp
qed

lemma vrun_detect_prefix:
  assumes "length p < 21" and "21 \<le> length (p @ bs)"
  shows "vrun uuid (VDetect p) bs =
    (if take 16 (p @ bs) = uuid then vrun uuid (VHead []) (drop 16 (p @ bs))
     else (VRaw None, p @ bs))"
proof -
  let ?k = "21 - length p"
  have k: "length p + length (take ?k bs) = 21" "p @ take ?k bs = take 21 (p @ bs)"
    using assms by auto
  have d: "drop ?k bs = drop 21 (p @ bs)"
    using assms by simp
  have "vrun uuid (VDetect p) (take ?k bs) =
    (if take 16 (p @ bs) = uuid then (vheader (drop 16 (take 21 (p @ bs))), [])
     else (VRaw None, take 21 (p @ bs)))"
    using vrun_detect [of p "take ?k bs" uuid] assms k by (simp add: min_def)
  moreover have "vheader (drop 16 (take 21 (p @ bs))) = vheader (drop 16 (p @ bs))"
    using vheader_take [of "drop 16 (p @ bs)"] by (simp add: drop_take del: drop_append take_append)
  moreover have "vrun uuid (VHead []) (drop 16 (p @ bs)) =
      vrun uuid (vheader (drop 16 (p @ bs))) (drop 21 (p @ bs))"
    using vrun_head_prefix [of "drop 16 (p @ bs)" uuid] assms
    by (simp del: drop_append)
  moreover have "vrun uuid (VDetect p) bs = vrun uuid (VDetect p) (take ?k bs @ drop ?k bs)"
    by simp
  ultimately show ?thesis
    unfolding d run_bytes_append
    by (cases "vrun uuid (vheader (drop 16 (p @ bs))) (drop 21 (p @ bs))") (simp del: drop_append take_append)
qed

lemma vheader_block:
  assumes "length content < 65536" and "pad < 65536"
  shows "vheader (block cmd content pad) = vdone cmd (length content) pad"
  using assms by (simp add: block_def vheader_Cons unat_of_nat_u16)

lemma vrun_block:
  assumes "length content < 65536" and "pad < 65536"
  shows "vrun uuid (VHead []) (block cmd content pad @ rest) =
    (let (v, out) = vrun uuid (vdone cmd 0 0) rest in (v, content @ out))"
proof -
  have "vheader (block cmd content pad @ rest) = vheader (block cmd content pad)"
    by (simp add: block_def vheader_Cons)
  moreover have "drop 5 (block cmd content pad @ rest) = content @ replicate pad 0 @ rest"
    by (simp add: block_def be16_def)
  moreover have "5 \<le> length (block cmd content pad @ rest)"
    by (simp add: block_def)
  ultimately show ?thesis
    using vrun_head_prefix [of "block cmd content pad @ rest" uuid]
      vrun_body [of content "length content" "replicate pad 0" pad uuid cmd rest]
      vheader_block [OF assms]
    by simp
qed

lemma vrun_first_block:
  assumes "length content < 65536" and "pad < 65536" and "length uuid = 16"
  shows "vrun uuid (VDetect []) (uuid @ block cmd content pad @ rest) =
    (let (v, out) = vrun uuid (vdone cmd 0 0) rest in (v, content @ out))"
  using vrun_detect_prefix [of "[]" "uuid @ block cmd content pad @ rest" uuid]
    vrun_block [OF assms(1,2)] assms(3)
  by (simp add: block_def)

section \<open>The buffering unpadder refines the machine\<close>

definition vu_abs :: "VisionUnpadder \<Rightarrow> vstate" where
  "vu_abs s =
    (if vu_direct s then VRaw (if vu_current_command s = 0 then None else Some (vu_current_command s))
     else if \<not> vu_started s then VDetect (vu_pending s)
     else if vu_reading_header s then VHead (vu_pending s)
     else VBody (vu_current_command s) (vu_remaining_content s) (vu_remaining_padding s))"

definition vu_inv :: "bytes \<Rightarrow> VisionUnpadder \<Rightarrow> bool" where
  "vu_inv uuid s \<longleftrightarrow>
    vu_uuid s = uuid \<and>
    (\<not> vu_direct s \<longrightarrow>
      (if \<not> vu_started s then length (vu_pending s) < 21 \<and> vu_current_command s = 0
       else if vu_reading_header s then length (vu_pending s) < 5
       else vu_pending s = [] \<and> 0 < vu_remaining_content s + vu_remaining_padding s))"

text \<open>The machine's state at the head of the loop.\<close>

definition vu_head :: "VisionUnpadder \<Rightarrow> vstate" where
  "vu_head s =
    (if vu_reading_header s then VHead []
     else vdone (vu_current_command s) (vu_remaining_content s) (vu_remaining_padding s))"

lemma vu_block_refines:
  assumes "vu_block s rest = (s2, rest2, out, again)"
    and "vu_started s" and "\<not> vu_direct s" and "\<not> vu_reading_header s"
  shows "vu_uuid s2 = vu_uuid s" "vu_started s2"
    and "again \<Longrightarrow> vu_reading_header s2 \<and> \<not> vu_direct s2 \<and>
      vrun uuid (vu_head s) rest = (let (v, out') = vrun uuid (VHead []) rest2 in (v, out @ out'))"
    and "\<not> again \<Longrightarrow> rest2 = [] \<and> vu_inv (vu_uuid s) (s2\<lparr>vu_pending := []\<rparr>) \<and>
      vrun uuid (vu_head s) rest = (vu_abs (s2\<lparr>vu_pending := []\<rparr>), out)"
proof -
  let ?n = "vu_remaining_content s" and ?m = "vu_remaining_padding s" and ?cmd = "vu_current_command s"
  have head: "vu_head s = vdone ?cmd ?n ?m"
    using assms by (simp add: vu_head_def)
  consider (content) "length rest < ?n"
    | (padding) "?n \<le> length rest" "length rest < ?n + ?m"
    | (whole) "?n + ?m \<le> length rest"
    by linarith
  then have "vu_uuid s2 = vu_uuid s \<and> vu_started s2 \<and>
    (if again then vu_reading_header s2 \<and> \<not> vu_direct s2 \<and>
       vrun uuid (vu_head s) rest = (let (v, out') = vrun uuid (VHead []) rest2 in (v, out @ out'))
     else rest2 = [] \<and> vu_inv (vu_uuid s) (s2\<lparr>vu_pending := []\<rparr>) \<and>
       vrun uuid (vu_head s) rest = (vu_abs (s2\<lparr>vu_pending := []\<rparr>), out))"
  proof cases
    case content
    then show ?thesis
      using assms vrun_content [of rest ?n uuid ?cmd ?m]
      by (auto simp: vu_block_def Let_def head vu_inv_def vu_abs_def vdone_def)
  next
    case padding
    have "vrun uuid (vdone ?cmd ?n ?m) (take ?n rest @ drop ?n rest) =
        (vdone ?cmd 0 (?n + ?m - length rest), take ?n rest)"
      using padding vrun_content [of "take ?n rest" ?n uuid ?cmd ?m]
        vrun_padding [of "drop ?n rest" ?m uuid ?cmd]
      unfolding run_bytes_append by (simp add: min_def add.commute)
    then show ?thesis
      using assms padding
      by (auto simp: vu_block_def Let_def head vu_inv_def vu_abs_def vdone_def min_def split: if_splits)
  next
    case whole
    have "rest = take ?n rest @ take ?m (drop ?n rest) @ drop (?n + ?m) rest"
      by (metis append_take_drop_id drop_drop add.commute)
    then have "vrun uuid (vdone ?cmd ?n ?m) rest =
        (let (v, out') = vrun uuid (vdone ?cmd 0 0) (drop (?n + ?m) rest) in (v, take ?n rest @ out'))"
      using vrun_body [of "take ?n rest" ?n "take ?m (drop ?n rest)" ?m uuid ?cmd "drop (?n + ?m) rest"]
        whole by simp
    then show ?thesis
      using assms whole
      by (auto simp: vu_block_def Let_def head vu_inv_def vu_abs_def vdone_def min_def
          CMD_PADDING_CONTINUE_def add.commute split: if_splits)
  qed
  then show "vu_uuid s2 = vu_uuid s" "vu_started s2"
    and "again \<Longrightarrow> vu_reading_header s2 \<and> \<not> vu_direct s2 \<and>
      vrun uuid (vu_head s) rest = (let (v, out') = vrun uuid (VHead []) rest2 in (v, out @ out'))"
    and "\<not> again \<Longrightarrow> rest2 = [] \<and> vu_inv (vu_uuid s) (s2\<lparr>vu_pending := []\<rparr>) \<and>
      vrun uuid (vu_head s) rest = (vu_abs (s2\<lparr>vu_pending := []\<rparr>), out)"
    by (auto split: if_splits)
qed

lemma vu_loop_refines:
  assumes "vu_loop s rest = (s', rest', out)" and "vu_started s" and "\<not> vu_direct s"
  shows "vu_inv (vu_uuid s) (s'\<lparr>vu_pending := rest'\<rparr>) \<and>
    vrun uuid (vu_head s) rest = (vu_abs (s'\<lparr>vu_pending := rest'\<rparr>), out)"
  using assms
proof (induction s rest arbitrary: s' rest' out rule: vu_loop.induct)
  case (1 s rest)
  show ?case
  proof (cases "vu_reading_header s \<and> length rest < 5")
    case True
    with "1.prems" vrun_head [of "[]" rest uuid] show ?thesis
      by (auto simp: vu_loop.simps [of s rest] vu_inv_def vu_abs_def vu_head_def)
  next
    case False
    define sr where "sr = (if vu_reading_header s then vu_read_header s rest else (s, rest))"
    obtain s1 rest1 where sr: "sr = (s1, rest1)"
      by (cases sr)
    obtain s2 rest2 out1 again where blk: "vu_block s1 rest1 = (s2, rest2, out1, again)"
      by (metis surj_pair)
    have s1: "vu_started s1" "\<not> vu_direct s1" "\<not> vu_reading_header s1" "vu_uuid s1 = vu_uuid s"
      using sr "1.prems" by (auto simp: sr_def vu_read_header_def split: if_splits)
    have head: "vrun uuid (vu_head s) rest = vrun uuid (vu_head s1) rest1"
      using sr False vrun_head_prefix [of rest uuid]
      by (auto simp: sr_def vu_head_def vu_read_header_def vheader_def split: if_splits)
    note block = vu_block_refines [OF blk s1(1-3)]
    show ?thesis
    proof (cases again)
      case True
      obtain s3 rest3 out2 where rec: "vu_loop s2 rest2 = (s3, rest3, out2)"
        by (metis surj_pair)
      have res: "s' = s3" "rest' = rest3" "out = out1 @ out2"
        using "1.prems" False True sr blk rec
        by (auto simp: vu_loop.simps [of s rest] sr_def [symmetric] simp del: not_less)
      have IH: "vu_inv (vu_uuid s2) (s3\<lparr>vu_pending := rest3\<rparr>) \<and>
          vrun uuid (vu_head s2) rest2 = (vu_abs (s3\<lparr>vu_pending := rest3\<rparr>), out2)"
        using "1.IH" [OF False refl sr [unfolded sr_def, symmetric] refl blk [symmetric] refl refl True rec]
          block True by simp
      have "vu_head s2 = VHead []"
        using block(3) True by (simp add: vu_head_def)
      with IH block True res head s1(4) show ?thesis
        by simp
    next
      case False': False
      have "s' = s2" "rest' = rest2" "out = out1"
        using "1.prems" False False' sr blk
        by (auto simp: vu_loop.simps [of s rest] sr_def [symmetric] simp del: not_less)
      with block(4) False' head s1(4) show ?thesis
        by simp
    qed
  qed
qed

lemma vision_push_refines:
  assumes "vu_inv uuid s" and "vision_push s input = (s', out)"
  shows "vu_inv uuid s' \<and> vrun uuid (vu_abs s) input = (vu_abs s', out)"
proof -
  have uuid: "vu_uuid s = uuid"
    using assms(1) by (simp add: vu_inv_def)
  consider (direct) "vu_direct s"
    | (short) "\<not> vu_direct s" "\<not> vu_started s" "length (vu_pending s @ input) < 21"
    | (other) "\<not> vu_direct s" "\<not> vu_started s" "21 \<le> length (vu_pending s @ input)"
        "take 16 (vu_pending s @ input) \<noteq> uuid"
    | (start) "\<not> vu_direct s" "\<not> vu_started s" "21 \<le> length (vu_pending s @ input)"
        "take 16 (vu_pending s @ input) = uuid"
    | (run) "\<not> vu_direct s" "vu_started s"
    by fastforce
  then show ?thesis
  proof cases
    case direct
    with assms show ?thesis
      by (auto simp: vision_push_def vu_abs_def)
  next
    case short
    with assms vrun_detect [of "vu_pending s" input uuid] show ?thesis
      by (auto simp: vision_push_def vu_abs_def vu_inv_def Let_def)
  next
    case other
    with assms uuid have "s' = s\<lparr>vu_direct := True, vu_pending := []\<rparr>" "out = vu_pending s @ input"
      by (auto simp: vision_push_def Let_def simp del: take_append)
    moreover have "length (vu_pending s) < 21" "vu_current_command s = 0"
      using other assms(1) by (auto simp: vu_inv_def)
    ultimately show ?thesis
      using other uuid vrun_detect_prefix [of "vu_pending s" input uuid]
      by (simp add: vu_abs_def vu_inv_def del: take_append)
  next
    case start
    let ?s = "s\<lparr>vu_started := True, vu_reading_header := True\<rparr>"
    obtain s1 rest where loop: "vu_loop ?s (drop 16 (vu_pending s @ input)) = (s1, rest, out)"
      and s': "s' = s1\<lparr>vu_pending := rest\<rparr>"
      using start assms(2) uuid
      by (auto simp: vision_push_def Let_def simp del: take_append drop_append split: prod.splits)
    have "vu_inv (vu_uuid ?s) s' \<and> vrun uuid (vu_head ?s) (drop 16 (vu_pending s @ input)) = (vu_abs s', out)"
      using vu_loop_refines [OF loop] start s' by simp
    moreover have "length (vu_pending s) < 21"
      using start assms(1) by (auto simp: vu_inv_def)
    ultimately show ?thesis
      using start uuid vrun_detect_prefix [of "vu_pending s" input uuid]
      by (simp add: vu_abs_def vu_head_def del: take_append drop_append)
  next
    case run
    obtain s1 rest where loop: "vu_loop s (vu_pending s @ input) = (s1, rest, out)"
      and s': "s' = s1\<lparr>vu_pending := rest\<rparr>"
      using run assms(2)
      by (auto simp: vision_push_def Let_def split: prod.splits)
    have res: "vu_inv uuid s' \<and> vrun uuid (vu_head s) (vu_pending s @ input) = (vu_abs s', out)"
      using vu_loop_refines [OF loop] run s' uuid by simp
    have "vrun uuid (vu_head s) (vu_pending s @ input) = vrun uuid (vu_abs s) input"
    proof (cases "vu_reading_header s")
      case True
      then have "length (vu_pending s) < 5"
        using assms(1) run by (simp add: vu_inv_def)
      with True run vrun_head [of "[]" "vu_pending s" uuid] show ?thesis
        by (simp add: vu_head_def vu_abs_def run_bytes_append split: prod.splits)
    next
      case False
      with run assms(1) show ?thesis
        by (auto simp: vu_inv_def vu_head_def vu_abs_def vdone_def)
    qed
    with res show ?thesis
      by simp
  qed
qed

lemma vision_unpadder_new_inv: "vu_inv uuid (vision_unpadder_new uuid)"
  by (simp add: vu_inv_def vision_unpadder_new_def CMD_PADDING_CONTINUE_def)

lemma vision_unpadder_new_abs: "vu_abs (vision_unpadder_new uuid) = VDetect []"
  by (simp add: vu_abs_def vision_unpadder_new_def)

section \<open>The counting unpadder refines the machine\<close>

text \<open>\<open>up_header s h\<close>: the header bytes \<open>h\<close> have been read into the counters.\<close>

definition up_header :: "Unpadder \<Rightarrow> bytes \<Rightarrow> bool" where
  "up_header s h \<longleftrightarrow>
    length h < 5 \<and> up_remaining_command s = 5 - int (length h) \<and>
    (1 \<le> length h \<longrightarrow> up_current_command s = uint (h ! 0)) \<and>
    (length h = 2 \<longrightarrow> up_remaining_content s = uint (h ! 1) * 256) \<and>
    (3 \<le> length h \<longrightarrow>
      up_remaining_content s = uint (h ! 1) * 256 + uint (h ! 2)) \<and>
    (length h = 4 \<longrightarrow> up_remaining_padding s = uint (h ! 3) * 256)"

definition up_body :: "Unpadder \<Rightarrow> bool" where
  "up_body s \<longleftrightarrow>
    up_remaining_command s = 0 \<and>
    0 \<le> up_remaining_content s \<and> up_remaining_content s \<le> 65535 \<and>
    0 \<le> up_remaining_padding s \<and> up_remaining_padding s \<le> 65535 \<and>
    0 \<le> up_current_command s \<and> up_current_command s \<le> 255"

definition up_live :: "Unpadder \<Rightarrow> bool" where
  "up_live s \<longleftrightarrow> (\<exists>h. up_header s h) \<or> up_body s \<and> \<not> up_block_done s"

definition unpadder_inv :: "bytes \<Rightarrow> Unpadder \<Rightarrow> bool" where
  "unpadder_inv uuid s \<longleftrightarrow>
    up_user_uuid s = uuid \<and>
    up_direct s = (up_finished s \<and> up_current_command s = 2) \<and>
    (up_finished s \<longrightarrow> 0 \<le> up_current_command s \<and> up_current_command s \<le> 255) \<and>
    (\<not> up_finished s \<and> \<not> up_passthrough s \<longrightarrow>
      (if \<not> up_started s then length (up_pending s) < 21 else up_live s))"

definition up_raw_header :: "Unpadder \<Rightarrow> bytes" where
  "up_raw_header s =
    take (nat (5 - up_remaining_command s))
      [of_int (up_current_command s), of_int (up_remaining_content s div 256),
       of_int (up_remaining_content s), of_int (up_remaining_padding s div 256)]"

definition up_done :: "Unpadder \<Rightarrow> vstate" where
  "up_done s =
    vdone (of_int (up_current_command s)) (nat (up_remaining_content s)) (nat (up_remaining_padding s))"

definition up_run :: "Unpadder \<Rightarrow> vstate" where
  "up_run s = (if up_remaining_command s > 0 then VHead (up_raw_header s) else up_done s)"

definition up_abs :: "Unpadder \<Rightarrow> vstate" where
  "up_abs s =
    (if up_finished s then VRaw (Some (of_int (up_current_command s)))
     else if up_passthrough s then VRaw None
     else if \<not> up_started s then VDetect (up_pending s)
     else up_run s)"

lemma u8_256 [simp]: "(256 :: u8) = 0"
  by (simp add: word_uint_eq_iff)

lemma uint_u8: "0 \<le> uint (b :: u8)" "uint (b :: u8) \<le> 255"
  using unsigned_less [of b, where ?'a = int] by simp_all

lemma short_header_cases:
  assumes "length h < 5"
  obtains "h = []" | c where "h = [c]" | c d where "h = [c, d]"
    | c d e where "h = [c, d, e]" | c d e f where "h = [c, d, e, f]"
  using assms
  by (cases h; cases "tl h"; cases "tl (tl h)"; cases "tl (tl (tl h))"; cases "tl (tl (tl (tl h)))")
     auto

lemma up_header_raw:
  assumes "up_header s h"
  shows "up_raw_header s = h"
proof -
  have high: "(uint (a :: u8) * 256 + uint (b :: u8)) div 256 = uint a" for a b
    using uint_u8 [of b] by simp
  have "length h < 5"
    using assms by (simp add: up_header_def)
  then show ?thesis
    using assms high by (cases rule: short_header_cases) (simp_all add: up_header_def up_raw_header_def)
qed

lemma uint_pair: "nat (uint (a :: u8) * 256 + uint (b :: u8)) = unat a * 256 + unat b"
  using uint_u8 [of a] uint_u8 [of b] by (simp add: nat_add_distrib nat_mult_distrib)

lemma up_header_step:
  assumes "up_header s h"
  shows "length h < 4 \<Longrightarrow> up_header (up_header_byte s b) (h @ [b]) \<and> \<not> up_block_done (up_header_byte s b)"
    and "length h = 4 \<Longrightarrow> up_body (up_header_byte s b) \<and> up_done (up_header_byte s b) = vheader (h @ [b])"
proof -
  have len: "length h < 5"
    using assms by (simp add: up_header_def)
  show "up_header (up_header_byte s b) (h @ [b]) \<and> \<not> up_block_done (up_header_byte s b)" if "length h < 4"
    using len assms that
    by (cases rule: short_header_cases)
       (simp_all add: up_header_def up_header_byte_def up_block_done_def Let_def)
  have bound: "uint x * 256 + uint y \<le> 65535" "0 \<le> uint x * 256 + uint y" for x y :: u8
    using uint_u8 [of x] uint_u8 [of y] by linarith+
  show "up_body (up_header_byte s b) \<and> up_done (up_header_byte s b) = vheader (h @ [b])" if "length h = 4"
    using len assms that bound uint_u8
    by (cases rule: short_header_cases)
       (simp_all add: up_header_def up_header_byte_def up_body_def up_done_def vheader_def
         unat_from_be16 uint_pair Let_def)
qed

lemma up_header_byte_frame [simp]:
  "up_user_uuid (up_header_byte s b) = up_user_uuid s"
  "up_started (up_header_byte s b) = up_started s"
  "up_finished (up_header_byte s b) = up_finished s"
  "up_passthrough (up_header_byte s b) = up_passthrough s"
  "up_direct (up_header_byte s b) = up_direct s"
  by (simp_all add: up_header_byte_def Let_def)

lemma up_consume_frame:
  assumes "up_consume s b = (s1, b1, out)"
  shows "up_user_uuid s1 = up_user_uuid s" "up_started s1 = up_started s"
    "up_finished s1 = up_finished s" "up_passthrough s1 = up_passthrough s"
    "up_direct s1 = up_direct s"
  using assms by (auto simp: up_consume_def Let_def split: if_splits)

lemma up_done_not_block_done:
  "up_body s \<Longrightarrow> \<not> up_block_done s \<Longrightarrow>
   up_done s = VBody (of_int (up_current_command s)) (nat (up_remaining_content s)) (nat (up_remaining_padding s))"
  by (auto simp: up_body_def up_block_done_def up_done_def vdone_def)

lemma up_consume_refines:
  assumes "up_live s" and "b \<noteq> []" and "up_consume s b = (s1, b1, out)"
  shows "if up_block_done s1 then up_body s1 \<and>
      vrun uuid (up_run s) b = (let (v, out') = vrun uuid (up_done s1) b1 in (v, out @ out'))
    else up_live s1 \<and>
      vrun uuid (up_run s) b = (let (v, out') = vrun uuid (up_run s1) b1 in (v, out @ out'))"
proof (cases "\<exists>h. up_header s h")
  case True
  then obtain h where h: "up_header s h"
    by blast
  then have r: "up_remaining_command s > 0" "up_run s = VHead h" "length h < 5"
    using up_header_raw [OF h] by (auto simp: up_header_def up_run_def)
  obtain x xs where b: "b = x # xs"
    using assms(2) by (cases b) auto
  with assms(3) r have eqs: "s1 = up_header_byte s x" "b1 = xs" "out = []"
    by (auto simp: up_consume_def)
  show ?thesis
  proof (cases "length h < 4")
    case True
    with up_header_step(1) [OF h True, of x] eqs have "up_header s1 (h @ [x])" "\<not> up_block_done s1"
      by simp_all
    moreover from this(1) have "up_run s1 = VHead (h @ [x])"
      using up_header_raw by (auto simp: up_run_def up_header_def)
    ultimately show ?thesis
      using True r b eqs by (auto simp: up_live_def split: prod.splits)
  next
    case False
    with r have "length h = 4"
      by simp
    with up_header_step(2) [OF h, of x] eqs have *: "up_body s1" "up_done s1 = vheader (h @ [x])"
      by simp_all
    then have "up_run s1 = up_done s1"
      by (simp add: up_run_def up_body_def)
    with * \<open>length h = 4\<close> r b eqs show ?thesis
      by (auto simp: up_live_def split: prod.splits)
  qed
next
  case False
  with assms(1) have body: "up_body s" "\<not> up_block_done s"
    by (auto simp: up_live_def)
  let ?n = "nat (up_remaining_content s)" and ?m = "nat (up_remaining_padding s)"
    and ?cmd = "of_int (up_current_command s) :: u8"
  have run: "up_run s = vdone ?cmd ?n ?m"
    using body by (simp add: up_run_def up_body_def up_done_def)
  show ?thesis
  proof (cases "up_remaining_content s > 0")
    case True
    let ?k = "min ?n (length b)"
    have eqs: "s1 = s\<lparr>up_remaining_content := up_remaining_content s - int ?k\<rparr>"
        "b1 = drop ?k b" "out = take ?k b"
      using assms(3) True body by (auto simp: up_consume_def usize_min_def up_body_def Let_def)
    have "vrun uuid (vdone ?cmd ?n ?m) (take ?k b @ drop ?k b) =
        (let (v, out') = vrun uuid (vdone ?cmd (?n - ?k) ?m) (drop ?k b) in (v, take ?k b @ out'))"
      unfolding run_bytes_append using vrun_content [of "take ?k b" ?n uuid ?cmd ?m] by simp
    moreover have "up_body s1" "up_done s1 = vdone ?cmd (?n - ?k) ?m"
      using body eqs by (auto simp: up_body_def up_done_def nat_diff_distrib)
    moreover have "up_run s1 = up_done s1"
      using \<open>up_body s1\<close> by (simp add: up_run_def up_body_def)
    ultimately show ?thesis
      using run eqs by (simp add: up_live_def)
  next
    case False
    let ?k = "min ?m (length b)"
    have n: "?n = 0"
      using False by simp
    have eqs: "s1 = s\<lparr>up_remaining_padding := up_remaining_padding s - int ?k\<rparr>"
        "b1 = drop ?k b" "out = []"
      using assms(3) False body by (auto simp: up_consume_def usize_min_def up_body_def Let_def)
    have "vrun uuid (vdone ?cmd 0 ?m) (take ?k b @ drop ?k b) =
        (let (v, out') = vrun uuid (vdone ?cmd 0 (?m - ?k)) (drop ?k b) in (v, out'))"
      unfolding run_bytes_append using vrun_padding [of "take ?k b" ?m uuid ?cmd] by simp
    moreover have "up_body s1" "up_done s1 = vdone ?cmd 0 (?m - ?k)"
      using body eqs n by (auto simp: up_body_def up_done_def nat_diff_distrib)
    moreover have "up_run s1 = up_done s1"
      using \<open>up_body s1\<close> by (simp add: up_run_def up_body_def)
    ultimately show ?thesis
      using run eqs n by (simp add: up_live_def)
  qed
qed

lemma up_process_refines:
  assumes "up_process s b = (s', out)" and "up_live s"
    and "up_started s" and "\<not> up_finished s" and "\<not> up_passthrough s" and "\<not> up_direct s"
  shows "unpadder_inv (up_user_uuid s) s' \<and> vrun uuid (up_run s) b = (up_abs s', out)"
  using assms
proof (induction s b arbitrary: s' out rule: up_process.induct)
  case (1 s b)
  show ?case
  proof (cases "b = []")
    case True
    with "1.prems" show ?thesis
      by (auto simp: up_process.simps [of s "[]"] unpadder_inv_def up_abs_def)
  next
    case False
    obtain s1 b1 o1 where c: "up_consume s b = (s1, b1, o1)"
      by (metis surj_pair)
    note frame = up_consume_frame [OF c]
    note ref = up_consume_refines [OF "1.prems"(2) False c, of uuid]
    show ?thesis
    proof (cases "up_block_done s1")
      case True
      then have body: "up_body s1"
        using ref by simp
      then have fin: "up_done s1 = (if up_current_command s1 = 0 then VHead []
          else VRaw (Some (of_int (up_current_command s1))))"
        using True by (auto simp: up_done_def up_body_def up_block_done_def vdone_def
            word_of_int_eq_0_iff dvd_imp_le_int dest: zdvd_imp_le)
      show ?thesis
      proof (cases "up_current_command s1 = 0")
        case zero: True
        let ?s2 = "s1\<lparr>up_remaining_command := 5\<rparr>"
        obtain o2 where rec: "up_process ?s2 b1 = (s', o2)" and out: "out = o1 @ o2"
          using "1.prems"(1) False c True zero by (auto simp: up_process.simps [of s b] split: prod.splits)
        have "up_header ?s2 []"
          by (simp add: up_header_def)
        then have "up_live ?s2" "up_run ?s2 = VHead []"
          using up_header_raw [of ?s2 "[]"] by (auto simp: up_live_def up_run_def)
        then show ?thesis
          using "1.IH"(1) [OF False refl c [symmetric] refl True zero rec] frame "1.prems" ref True fin zero out
          by simp
      next
        case nonzero: False
        have "s' = up_finish s1" "out = o1 @ b1"
          using "1.prems"(1) False c True nonzero by (auto simp: up_process.simps [of s b])
        then show ?thesis
          using ref True fin nonzero frame body "1.prems"
          by (simp add: unpadder_inv_def up_abs_def up_finish_def up_body_def)
      qed
    next
      case not_done: False
      obtain o2 where rec: "up_process s1 b1 = (s', o2)" and out: "out = o1 @ o2"
        using "1.prems"(1) False c not_done by (auto simp: up_process.simps [of s b] split: prod.splits)
      show ?thesis
        using "1.IH"(2) [OF False refl c [symmetric] refl not_done rec] frame "1.prems" ref not_done out
        by simp
    qed
  qed
qed

lemma unpadder_push_refines:
  assumes "unpadder_inv uuid s" and "unpadder_push s input = (s', out)"
  shows "unpadder_inv uuid s' \<and> vrun uuid (up_abs s) input = (up_abs s', out)"
proof -
  let ?p = "up_pending s @ input"
  have uuid: "up_user_uuid s = uuid"
    using assms(1) by (simp add: unpadder_inv_def)
  consider (raw) "up_finished s \<or> up_passthrough s"
    | (short) "\<not> up_finished s" "\<not> up_passthrough s" "\<not> up_started s" "length ?p < 21"
    | (other) "\<not> up_finished s" "\<not> up_passthrough s" "\<not> up_started s" "21 \<le> length ?p"
        "take 16 ?p \<noteq> uuid"
    | (start) "\<not> up_finished s" "\<not> up_passthrough s" "\<not> up_started s" "21 \<le> length ?p"
        "take 16 ?p = uuid"
    | (run) "\<not> up_finished s" "\<not> up_passthrough s" "up_started s"
    by fastforce
  then show ?thesis
  proof cases
    case raw
    with assms show ?thesis
      by (auto simp: unpadder_push_def up_abs_def)
  next
    case short
    with assms vrun_detect [of "up_pending s" input uuid] show ?thesis
      by (auto simp: unpadder_push_def up_abs_def unpadder_inv_def Let_def)
  next
    case other
    with assms uuid have "s' = s\<lparr>up_passthrough := True, up_pending := []\<rparr>" "out = ?p"
      by (auto simp: unpadder_push_def Let_def simp del: take_append)
    moreover have "length (up_pending s) < 21" "\<not> up_direct s"
      using other assms(1) by (auto simp: unpadder_inv_def)
    ultimately show ?thesis
      using other uuid vrun_detect_prefix [of "up_pending s" input uuid]
      by (simp add: up_abs_def unpadder_inv_def del: take_append)
  next
    case start
    let ?s = "s\<lparr>up_started := True, up_remaining_command := 5, up_pending := []\<rparr>"
    have proc: "up_process ?s (drop 16 ?p) = (s', out)"
      using start assms(2) uuid by (auto simp: unpadder_push_def Let_def simp del: take_append drop_append)
    have "up_header ?s []"
      by (simp add: up_header_def)
    then have live: "up_live ?s" "up_run ?s = VHead []"
      using up_header_raw [of ?s "[]"] by (auto simp: up_live_def up_run_def)
    moreover have "length (up_pending s) < 21"
      using start assms(1) by (auto simp: unpadder_inv_def)
    ultimately show ?thesis
      using up_process_refines [OF proc live(1), of uuid] start uuid assms(1)
        vrun_detect_prefix [of "up_pending s" input uuid]
      by (simp add: up_abs_def unpadder_inv_def [of uuid s] del: take_append drop_append)
  next
    case run
    with assms have "up_process s input = (s', out)" "up_live s" "\<not> up_direct s"
      by (auto simp: unpadder_push_def unpadder_inv_def)
    with run uuid up_process_refines [of s input s' out uuid] show ?thesis
      by (auto simp: up_abs_def)
  qed
qed

lemma up_abs_raw:
  assumes "unpadder_inv uuid s" and "up_abs s = VRaw (Some cmd)"
  shows "up_finished s" and "up_current_command s = uint cmd"
proof -
  show fin: "up_finished s"
  proof (rule ccontr)
    assume nf: "\<not> up_finished s"
    with assms(2) have "\<not> up_passthrough s" "up_started s" "up_run s = VRaw (Some cmd)"
      by (auto simp: up_abs_def split: if_splits)
    with nf assms(1) have "up_live s" "\<not> up_remaining_command s > 0"
      by (auto simp: unpadder_inv_def up_run_def)
    then have "up_body s \<and> \<not> up_block_done s"
      by (auto simp: up_live_def up_header_def)
    with up_done_not_block_done [of s] \<open>up_run s = VRaw (Some cmd)\<close> show False
      by (simp add: up_run_def split: if_splits)
  qed
  with assms show "up_current_command s = uint cmd"
    by (auto simp: up_abs_def unpadder_inv_def unsigned_of_int take_bit_int_eq_self)
qed

lemma unpadder_new_inv: "unpadder_inv uuid (unpadder_new uuid)"
  by (simp add: unpadder_inv_def unpadder_new_def)

lemma unpadder_new_abs: "up_abs (unpadder_new uuid) = VDetect []"
  by (simp add: up_abs_def unpadder_new_def)

interpretation vision_unpad: transducer vision_push "vu_inv uuid" vu_abs "vstep uuid"
  for uuid
proof unfold_locales
  show "vu_inv uuid s \<Longrightarrow> vu_inv uuid (fst (vision_push s a))" for s a
    using vision_push_refines [of uuid s a] by (cases "vision_push s a") auto
  show "\<lbrakk>vu_inv uuid s; vision_push s a = (s', out)\<rbrakk> \<Longrightarrow>
      vrun uuid (vu_abs s) a = (vu_abs s', out)" for s a s' out
    using vision_push_refines by blast
qed

interpretation xray_unpad: transducer unpadder_push "unpadder_inv uuid" up_abs "vstep uuid"
  for uuid
proof unfold_locales
  show "unpadder_inv uuid s \<Longrightarrow> unpadder_inv uuid (fst (unpadder_push s a))" for s a
    using unpadder_push_refines [of uuid s a] by (cases "unpadder_push s a") auto
  show "\<lbrakk>unpadder_inv uuid s; unpadder_push s a = (s', out)\<rbrakk> \<Longrightarrow>
      vrun uuid (up_abs s) a = (up_abs s', out)" for s a s' out
    using unpadder_push_refines by blast
qed

section \<open>Padded streams\<close>

text \<open>
  What a peer puts on the wire: a list of blocks (content, command, long padding,
  random draw), the first of which carries the identifier.
\<close>

type_synonym vblock = "bytes \<times> u8 \<times> bool \<times> nat"

fun xtls_stream :: "nat \<times> nat \<times> nat \<times> nat \<Rightarrow> bytes option \<Rightarrow> vblock list \<Rightarrow> bytes" where
  "xtls_stream seed once [] = []"
| "xtls_stream seed once ((content, cmd, long, draw) # bs) =
    (let (once', out) = xtls_padding content cmd once long seed draw
     in out @ xtls_stream seed once' bs)"

lemma padding_len_bounds:
  "0 \<le> padding_len n long seed draw" "padding_len n long seed draw < 8192"
  "int n \<le> int BUF_SIZE - 21 \<Longrightarrow> padding_len n long seed draw \<le> int BUF_SIZE - 21 - int n"
  by (auto simp: padding_len_def BUF_SIZE_def Let_def split: prod.splits)

lemma xtls_padding_block:
  "xtls_padding content cmd once long seed draw =
    (None, (case once of Some uuid \<Rightarrow> uuid | None \<Rightarrow> []) @
       block cmd content (nat (padding_len (length content) long seed draw)))"
  if "length content < 65536"
proof -
  have "nat (padding_len (length content) long seed draw) < 65536"
    using padding_len_bounds(2) [of "length content" long seed draw] by simp
  then show ?thesis
    using be16_of_nat that by (simp add: xtls_padding_def block_def Let_def)
qed

lemma vrun_xtls_continue:
  assumes "\<forall>(c, cmd, long, draw) \<in> set bs. length c < 65536 \<and> cmd = 0"
  shows "vrun uuid (VHead []) (xtls_stream seed None bs @ rest) =
    (let (v, out) = vrun uuid (VHead []) rest in (v, concat (map fst bs) @ out))"
  using assms
proof (induction seed "None :: bytes option" bs rule: xtls_stream.induct)
  case (2 seed content cmd long draw bs)
  let ?pad = "nat (padding_len (length content) long seed draw)"
  have pad: "?pad < 65536"
    using padding_len_bounds(2) [of "length content" long seed draw] by simp
  show ?case
    using 2 pad vrun_block [of content ?pad uuid 0 "xtls_stream seed None bs @ rest"]
    by (simp add: xtls_padding_block vdone_def split: prod.splits)
qed simp

lemma vrun_xtls_last:
  assumes "\<forall>(c, cmd, long, draw) \<in> set bs. length c < 65536 \<and> cmd = 0"
    and "length c < 65536" and "cmd \<noteq> 0" and "length uuid = 16"
  shows "vrun uuid (VDetect []) (xtls_stream seed (Some uuid) (bs @ [(c, cmd, long, draw)]) @ tail) =
    (VRaw (Some cmd), concat (map fst bs) @ c @ tail)"
proof -
  have last: "vrun uuid (VHead []) (xtls_stream seed None [(c, cmd, long, draw)] @ tail) =
      (VRaw (Some cmd), c @ tail)"
    using assms padding_len_bounds(2) [of "length c" long seed draw]
    by (simp add: xtls_padding_block vrun_block vdone_def)
  show ?thesis
  proof (cases bs)
    case Nil
    then show ?thesis
      using assms padding_len_bounds(2) [of "length c" long seed draw]
      by (simp add: xtls_padding_block vrun_first_block vdone_def)
  next
    case (Cons b bs')
    obtain c0 cmd0 long0 draw0 where b: "b = (c0, cmd0, long0, draw0)"
      by (cases b)
    let ?pad = "nat (padding_len (length c0) long0 seed draw0)"
    have "xtls_stream seed None (bs' @ [(c, cmd, long, draw)]) =
        xtls_stream seed None bs' @ xtls_stream seed None [(c, cmd, long, draw)]"
      by (induction bs') (auto simp: xtls_padding_def Let_def)
    moreover have "?pad < 65536"
      using padding_len_bounds(2) [of "length c0" long0 seed draw0] by simp
    ultimately show ?thesis
      using assms Cons b last
        vrun_xtls_continue [of bs' uuid seed "xtls_stream seed None [(c, cmd, long, draw)] @ tail"]
        vrun_first_block [of c0 ?pad uuid cmd0
          "xtls_stream seed None (bs' @ [(c, cmd, long, draw)]) @ tail"]
      by (simp add: xtls_padding_block vdone_def del: xtls_stream.simps(2) add: xtls_stream.simps(2) [of _ "Some uuid"])
  qed
qed

fun vision_stream :: "VisionPadder \<Rightarrow> (u8 \<times> bytes \<times> u16) list \<Rightarrow> bytes" where
  "vision_stream p [] = []"
| "vision_stream p ((cmd, content, pad) # fs) =
    (let (p', out) = vision_frame p cmd content pad in out @ vision_stream p' fs)"

lemma vision_frame_block:
  "vision_frame p cmd content pad =
    (p\<lparr>pd_first := False\<rparr>, (if pd_first p then pd_uuid p else []) @ block cmd content (unat pad))"
  by (simp add: vision_frame_def block_def)

lemma vrun_vision_continue:
  assumes "\<forall>(cmd, c, pad) \<in> set fs. length c \<le> MAX_CONTENT \<and> cmd = CMD_PADDING_CONTINUE"
    and "\<not> pd_first p"
  shows "vrun uuid (VHead []) (vision_stream p fs) = (VHead [], concat (map (fst \<circ> snd) fs))"
  using assms
proof (induction p fs rule: vision_stream.induct)
  case (2 p cmd content pad fs)
  then show ?case
    using vrun_block [of content "unat pad" uuid 0 "vision_stream (p\<lparr>pd_first := False\<rparr>) fs"]
    by (simp add: vision_frame_block vdone_def MAX_CONTENT_def CMD_PADDING_CONTINUE_def)
qed simp

section \<open>Records and the TLS filter\<close>

definition app_record :: "bytes \<Rightarrow> bytes" where
  "app_record payload = [0x17, 0x03, 0x03] @ be16 (of_nat (length payload)) @ payload"

lemma is_complete_record_Nil [simp]: "is_complete_record []"
  by (subst is_complete_record.simps) simp

lemma app_record_nth:
  "(app_record p @ rest) ! 0 = 0x17" "(app_record p @ rest) ! 1 = 0x03"
  "(app_record p @ rest) ! Suc 0 = 0x03" "(app_record p @ rest) ! 2 = 0x03"
  "from_be16 ((app_record p @ rest) ! 3) ((app_record p @ rest) ! 4) = of_nat (length p)"
  by (simp_all add: app_record_def be16_def)

lemma app_record_length: "length (app_record p) = 5 + length p" "app_record p \<noteq> []"
  "length p < 65536 \<Longrightarrow> unat (of_nat (length p) :: u16) = length p"
  by (simp_all add: app_record_def unat_of_nat_u16)

lemma is_complete_record_app:
  "length payload < 65536 \<Longrightarrow> is_complete_record (app_record payload @ rest) = is_complete_record rest"
  by (subst is_complete_record.simps) (simp add: app_record_nth app_record_length)

lemma is_complete_record_concat:
  "\<forall>p \<in> set ps. length p < 65536 \<Longrightarrow> is_complete_record (concat (map app_record ps))"
  by (induction ps) (simp_all add: is_complete_record_app)

lemma complete_record_split:
  assumes "5 \<le> length b" and "b ! 0 = 0x17" "b ! 1 = 0x03" "b ! 2 = 0x03"
    and "5 + unat (from_be16 (b ! 3) (b ! 4)) \<le> length b"
  shows "b = app_record (take (unat (from_be16 (b ! 3) (b ! 4))) (drop 5 b)) @
             drop (5 + unat (from_be16 (b ! 3) (b ! 4))) b"
proof -
  let ?n = "unat (from_be16 (b ! 3) (b ! 4))"
  obtain b0 b1 b2 b3 b4 r where "b = b0 # b1 # b2 # b3 # b4 # r"
    using assms(1) by (auto simp: Suc_le_length_iff numeral_eq_Suc)
  then have "take 5 b = [b ! 0, b ! 1, b ! 2, b ! 3, b ! 4]"
    by simp
  moreover have "be16 (of_nat ?n) = [b ! 3, b ! 4]"
    by (simp only: of_nat_unat ucast_id be16_from_be16)
  ultimately have "take 5 b @ take ?n (drop 5 b) = app_record (take ?n (drop 5 b))"
    using assms by (simp add: app_record_def)
  moreover have "b = (take 5 b @ take ?n (drop 5 b)) @ drop (5 + ?n) b"
    by (simp flip: take_add)
  ultimately show ?thesis
    by simp
qed

lemma is_complete_record_records:
  "is_complete_record b \<Longrightarrow> \<exists>ps. (\<forall>p \<in> set ps. length p < 65536) \<and> b = concat (map app_record ps)"
proof (induction b rule: is_complete_record.induct)
  case (1 b)
  show ?case
  proof (cases "b = []")
    case True
    then show ?thesis
      by (intro exI [of _ "[]"]) simp
  next
    case False
    let ?n = "unat (from_be16 (b ! 3) (b ! 4))"
    have h: "5 \<le> length b" "b ! 0 = 0x17" "b ! 1 = 0x03" "b ! 2 = 0x03" "5 + ?n \<le> length b"
        "is_complete_record (drop (5 + ?n) b)"
      using "1.prems" False by (auto simp: is_complete_record.simps [of b] Let_def split: if_splits)
    then obtain ps where ps: "\<forall>p \<in> set ps. length p < 65536"
        "drop (5 + ?n) b = concat (map app_record ps)"
      using "1.IH" [OF False _ _ refl] by auto
    have "?n < 65536"
      by simp
    then have "length (take ?n (drop 5 b)) < 65536"
      by (simp add: min.strict_coboundedI2)
    with ps complete_record_split [OF h(1-5)] show ?thesis
      by (intro exI [of _ "take ?n (drop 5 b) # ps"]) simp
  qed
qed

definition filter_inv :: "FilterState \<Rightarrow> bool" where
  "filter_inv s \<longleftrightarrow>
    (remaining_server_hello s > 0 \<longrightarrow> is_tls12_or_above s) \<and>
    (is_tls12_or_above s \<longrightarrow> is_tls s) \<and> (enable_xtls s \<longrightarrow> is_tls12_or_above s)"

lemma filter_hello_inv: "filter_inv s \<Longrightarrow> filter_inv (filter_hello s b)"
  by (auto simp: filter_hello_def filter_inv_def Let_def)

lemma filter_tls_inv: "filter_inv s \<Longrightarrow> filter_inv (filter_tls s b)"
  using filter_hello_inv [of "s\<lparr>number_to_filter := number_to_filter s - 1\<rparr>" b]
  by (auto simp: filter_tls_def filter_inv_def Let_def)

lemma filter_hello_xtls [simp]: "enable_xtls (filter_hello s b) = enable_xtls s"
  by (simp add: filter_hello_def Let_def)

lemma contains_seq_take: "contains_seq (take e b) needle \<Longrightarrow> contains_seq b needle"
proof -
  have "windows_any needle (take e b) \<Longrightarrow> windows_any needle b" for e
  proof (induction b arbitrary: e)
    case (Cons x xs)
    show ?case
    proof (cases e)
      case (Suc n)
      have "length needle \<le> Suc n \<Longrightarrow> take (length needle) (x # take n xs) = take (length needle) (x # xs)"
        by (cases "length needle") (auto simp: min_def)
      with Suc Cons show ?thesis
        by (auto split: if_splits)
    qed (use Cons in simp)
  qed simp
  then show "contains_seq (take e b) needle \<Longrightarrow> contains_seq b needle"
    by (auto simp: contains_seq_def split: if_splits)
qed

lemma filter_tls_xtls:
  "enable_xtls (filter_tls s b) \<Longrightarrow> enable_xtls s \<or> contains_seq b TLS13_SUPPORTED_VERSIONS"
  by (auto simp: filter_tls_def Let_def dest: contains_seq_take split: if_splits)

section \<open>Properties\<close>

text \<open>
  C3.  Vision round trip over an adversarial transport.  A peer pads any contents
  (each below 64 KiB) into blocks with \<^verbatim>\<open>xtls_padding\<close>, with whatever seed and random
  draws, ends with a block whose command is not Continue, and goes on with raw bytes.
  However the stream is cut into chunks, the unpadder returns exactly the contents
  followed by the raw bytes, has finished, and reports the raw splice exactly for the
  Direct command.
\<close>

theorem xtls_round_trip:
  assumes "\<forall>(c, cmd, long, draw) \<in> set bs. length c < 65536 \<and> cmd = 0"
    and "length c < 65536" and "cmd \<noteq> 0" and "length uuid = 16"
    and "concat cs = xtls_stream seed (Some uuid) (bs @ [(c, cmd, long, draw)]) @ tail"
  shows "\<exists>s. feed unpadder_push (unpadder_new uuid) cs = (s, concat (map fst bs) @ c @ tail) \<and>
    up_finished s \<and> (up_direct s \<longleftrightarrow> cmd = 2)"
proof -
  obtain s out where f: "feed unpadder_push (unpadder_new uuid) cs = (s, out)"
    by (cases "feed unpadder_push (unpadder_new uuid) cs")
  then have inv: "unpadder_inv uuid s"
    and run: "vrun uuid (VDetect []) (concat cs) = (up_abs s, out)"
    using xray_unpad.feed_refines [OF unpadder_new_inv f] by (simp_all add: unpadder_new_abs)
  then have abs: "up_abs s = VRaw (Some cmd)" and out: "out = concat (map fst bs) @ c @ tail"
    using vrun_xtls_last [OF assms(1-4)] assms(5) by simp_all
  have "up_finished s" "up_current_command s = uint cmd"
    using up_abs_raw [OF inv abs] by simp_all
  moreover have "uint cmd = 2 \<longleftrightarrow> cmd = 2"
    by (simp add: word_uint_eq_iff)
  ultimately show ?thesis
    using f inv out by (simp add: unpadder_inv_def)
qed

theorem xtls_round_trip_witness:
  "\<exists>s. feed unpadder_push (unpadder_new (replicate 16 7))
      [take 20 (xtls_stream DEFAULT_SEED (Some (replicate 16 7)) ([([1, 2], 0, False, 3)] @ [([9], 2, False, 1)])),
       drop 20 (xtls_stream DEFAULT_SEED (Some (replicate 16 7)) ([([1, 2], 0, False, 3)] @ [([9], 2, False, 1)])) @ [5]] =
     (s, concat (map fst [([1, 2], 0 :: u8, False, 3 :: nat)]) @ [9] @ [5]) \<and>
   up_finished s \<and> (up_direct s \<longleftrightarrow> (2 :: u8) = 2)"
  by (rule xtls_round_trip [where bs = "[([1, 2], 0, False, 3)]" and c = "[9]" and cmd = 2
        and long = False and draw = 1 and tail = "[5]" and seed = DEFAULT_SEED]) simp_all

text \<open>
  C4.  The two unpadders agree: the buffering one of the wire crate and the counting one
  of the I/O crate return the same bytes for every stream, padded or not, and neither
  depends on the chunk boundaries.
\<close>

theorem unpadders_agree:
  "snd (feed vision_push (vision_unpadder_new uuid) cs) = snd (feed unpadder_push (unpadder_new uuid) cs) \<and>
   snd (feed unpadder_push (unpadder_new uuid) cs) = snd (unpadder_push (unpadder_new uuid) (concat cs))"
  using vision_unpad.feed_output [OF vision_unpadder_new_inv, of uuid cs]
    xray_unpad.feed_output [OF unpadder_new_inv, of uuid cs]
    xray_unpad.feed_output [OF unpadder_new_inv, of uuid "[concat cs]"]
  by (simp add: vision_unpadder_new_abs unpadder_new_abs split: prod.splits)

text \<open>
  A stream that does not open with the user's identifier passes through both
  unpadders unchanged, byte for byte, once 21 bytes have been seen.
\<close>

lemma foreign_stream_passes:
  assumes "21 \<le> length (concat cs)" and "take 16 (concat cs) \<noteq> uuid"
  shows "snd (feed unpadder_push (unpadder_new uuid) cs) = concat cs \<and>
    snd (feed vision_push (vision_unpadder_new uuid) cs) = concat cs"
  using assms vision_unpad.feed_output [OF vision_unpadder_new_inv, of uuid cs]
    xray_unpad.feed_output [OF unpadder_new_inv, of uuid cs]
    vrun_detect_prefix [of "[]" "concat cs" uuid]
  by (simp add: vision_unpadder_new_abs unpadder_new_abs)

text \<open>
  Frames of the wire crate's padder, all Continue, come back as their contents.
\<close>

lemma vision_frames_round_trip:
  assumes "\<forall>(cmd, c, pad) \<in> set (f # fs). length c \<le> MAX_CONTENT \<and> cmd = CMD_PADDING_CONTINUE"
    and "length uuid = 16"
    and "concat cs = vision_stream (vision_padder_new uuid) (f # fs)"
  shows "snd (feed vision_push (vision_unpadder_new uuid) cs) = concat (map (fst \<circ> snd) (f # fs))"
proof -
  obtain cmd c pad where f: "f = (cmd, c, pad)"
    by (cases f)
  let ?p = "(vision_padder_new uuid)\<lparr>pd_first := False\<rparr>"
  have "vrun uuid (VDetect []) (uuid @ block 0 c (unat pad) @ vision_stream ?p fs) =
      (VHead [], c @ concat (map (fst \<circ> snd) fs))"
    using assms f vrun_vision_continue [of fs ?p uuid]
      vrun_first_block [of c "unat pad" uuid 0 "vision_stream ?p fs"]
    by (simp add: vdone_def MAX_CONTENT_def)
  moreover have "concat cs = uuid @ block 0 c (unat pad) @ vision_stream ?p fs"
    using assms f by (simp add: vision_frame_block vision_padder_new_def CMD_PADDING_CONTINUE_def)
  ultimately show ?thesis
    using vision_unpad.feed_output [OF vision_unpadder_new_inv, of uuid cs] f
    by (simp add: vision_unpadder_new_abs)
qed

text \<open>
  Padding bounds and length hiding.  A padded block (identifier included) of content
  that fits never exceeds \<^verbatim>\<open>BUF_SIZE\<close>, and with long padding under the default seed
  two contents below 900 bytes padded with the same draw give blocks of the same length.
\<close>

lemma padding_bounded_and_hiding:
  assumes "length c \<le> BUF_SIZE - 21" and "length uuid = 16"
    and "length c' < 900" and "length c'' < 900" and "draw' < 500"
  shows "length (snd (xtls_padding c cmd (Some uuid) long seed draw)) \<le> BUF_SIZE \<and>
    length (snd (xtls_padding c' cmd None True DEFAULT_SEED draw')) =
    length (snd (xtls_padding c'' cmd None True DEFAULT_SEED draw'))"
proof
  have "length (snd (xtls_padding c cmd (Some uuid) long seed draw)) =
      21 + length c + nat (padding_len (length c) long seed draw)"
    using assms(2) by (simp add: xtls_padding_def Let_def)
  then show "length (snd (xtls_padding c cmd (Some uuid) long seed draw)) \<le> BUF_SIZE"
    using assms(1) padding_len_bounds(1,3) [of "length c" long seed draw] by (simp add: BUF_SIZE_def)
  have "padding_len n True DEFAULT_SEED draw' = int draw' + 900 - int n" if "n < 900" for n
    using that assms(5) by (simp add: padding_len_def DEFAULT_SEED_def BUF_SIZE_def Let_def)
  then show "length (snd (xtls_padding c' cmd None True DEFAULT_SEED draw')) =
      length (snd (xtls_padding c'' cmd None True DEFAULT_SEED draw'))"
    using assms(3,4) by (simp add: xtls_padding_def Let_def)
qed

text \<open>
  \<^verbatim>\<open>is_complete_record\<close> recognises exactly the concatenations of whole TLS
  application-data records.
\<close>

lemma complete_record_iff:
  "is_complete_record b \<longleftrightarrow>
    (\<exists>ps. list_all (\<lambda>p. length p < 65536) ps \<and> b = concat (map app_record ps))"
  using is_complete_record_records is_complete_record_concat by (auto simp: list_all_iff)



end
