(* ===== verification/Std_Text.thy ===== *)
theory Std_Text
  imports Core_Types
begin

text \<open>
  The parts of the Rust standard library's text handling that the sources use, on
  the UTF-8 bytes of a string: ASCII case mapping, prefixes, suffixes and
  substrings, \<^verbatim>\<open>split_once\<close> and \<^verbatim>\<open>rsplit_once\<close>, \<^verbatim>\<open>trim\<close> (Unicode white space),
  decimal and hexadecimal numbers, and the textual forms of IP addresses
  (\<^verbatim>\<open>core::net::parser\<close>), IPv4 \<^verbatim>\<open>Display\<close> included.  With them the textual forms of
  \<^verbatim>\<open>donut-core\<close>'s \<open>Address\<close> and \<open>Endpoint\<close> are modelled.
\<close>

section \<open>Characters and substrings\<close>

definition ascii_lower :: "u8 \<Rightarrow> u8" where
  "ascii_lower c = (if 65 \<le> c \<and> c \<le> 90 then c + 32 else c)"

definition ascii_upper :: "u8 \<Rightarrow> u8" where
  "ascii_upper c = (if 97 \<le> c \<and> c \<le> 122 then c - 32 else c)"

definition to_ascii_lowercase :: "rstr \<Rightarrow> rstr" where
  "to_ascii_lowercase s = map ascii_lower s"

definition to_ascii_uppercase :: "rstr \<Rightarrow> rstr" where
  "to_ascii_uppercase s = map ascii_upper s"

definition eq_ignore_ascii_case :: "rstr \<Rightarrow> rstr \<Rightarrow> bool" where
  "eq_ignore_ascii_case a b \<longleftrightarrow> to_ascii_lowercase a = to_ascii_lowercase b"

definition starts_with :: "rstr \<Rightarrow> rstr \<Rightarrow> bool" where
  "starts_with s p \<longleftrightarrow> take (length p) s = p"

definition ends_with :: "rstr \<Rightarrow> rstr \<Rightarrow> bool" where
  "ends_with s p \<longleftrightarrow> length p \<le> length s \<and> drop (length s - length p) s = p"

fun str_contains :: "rstr \<Rightarrow> rstr \<Rightarrow> bool" where
  "str_contains [] p \<longleftrightarrow> p = []"
| "str_contains (c # s) p \<longleftrightarrow> starts_with (c # s) p \<or> str_contains s p"

definition strip_prefix :: "rstr \<Rightarrow> rstr \<Rightarrow> rstr option" where
  "strip_prefix p s = (if starts_with s p then Some (drop (length p) s) else None)"

definition strip_suffix :: "rstr \<Rightarrow> rstr \<Rightarrow> rstr option" where
  "strip_suffix p s = (if ends_with s p then Some (take (length s - length p) s) else None)"

definition trim_start_matches :: "u8 \<Rightarrow> rstr \<Rightarrow> rstr" where
  "trim_start_matches c s = dropWhile (\<lambda>x. x = c) s"

fun split_once :: "u8 \<Rightarrow> rstr \<Rightarrow> (rstr \<times> rstr) option" where
  "split_once c [] = None"
| "split_once c (x # s) =
    (if x = c then Some ([], s)
     else case split_once c s of None \<Rightarrow> None | Some (a, b) \<Rightarrow> Some (x # a, b))"

definition rsplit_once :: "u8 \<Rightarrow> rstr \<Rightarrow> (rstr \<times> rstr) option" where
  "rsplit_once c s =
    (case split_once c (rev s) of None \<Rightarrow> None | Some (a, b) \<Rightarrow> Some (rev b, rev a))"

fun split_once_seq :: "rstr \<Rightarrow> rstr \<Rightarrow> (rstr \<times> rstr) option" where
  "split_once_seq p [] = (if p = [] then Some ([], []) else None)"
| "split_once_seq p (x # s) =
    (if starts_with (x # s) p then Some ([], drop (length p) (x # s))
     else case split_once_seq p s of None \<Rightarrow> None | Some (a, b) \<Rightarrow> Some (x # a, b))"

text \<open>The UTF-8 encodings of the characters with the White_Space property.\<close>

definition white_space :: "rstr list" where
  "white_space =
    map (\<lambda>c. [c]) [9, 10, 11, 12, 13, 32] @ [[0xc2, 0x85], [0xc2, 0xa0], [0xe1, 0x9a, 0x80]] @
    map (\<lambda>c. [0xe2, 0x80, c]) [0x80, 0x81, 0x82, 0x83, 0x84, 0x85, 0x86, 0x87, 0x88, 0x89, 0x8a,
      0xa8, 0xa9, 0xaf] @ [[0xe2, 0x81, 0x9f], [0xe3, 0x80, 0x80]]"

function trim_start :: "rstr \<Rightarrow> rstr" where
  "trim_start s =
    (case find (\<lambda>w. starts_with s w) white_space of
       None \<Rightarrow> s
     | Some w \<Rightarrow> if s = [] then s else trim_start (drop (length w) s))"
  by pat_completeness auto
termination
proof (relation "measure length", goal_cases)
  case (2 s w)
  then have "w \<in> set white_space"
    by (auto simp: find_Some_iff)
  then have "w \<noteq> []"
    by (auto simp: white_space_def)
  with 2 show ?case
    by simp
qed simp

function trim_end :: "rstr \<Rightarrow> rstr" where
  "trim_end s =
    (case find (\<lambda>w. ends_with s w) white_space of
       None \<Rightarrow> s
     | Some w \<Rightarrow> if s = [] then s else trim_end (take (length s - length w) s))"
  by pat_completeness auto
termination
proof (relation "measure length", goal_cases)
  case (2 s w)
  then have "w \<in> set white_space"
    by (auto simp: find_Some_iff)
  then have "w \<noteq> []"
    by (auto simp: white_space_def)
  with 2 show ?case
    by simp
qed simp

declare trim_start.simps [simp del] trim_end.simps [simp del]

definition trim :: "rstr \<Rightarrow> rstr" where
  "trim s = trim_end (trim_start s)"

section \<open>Numbers\<close>

definition digit_val :: "nat \<Rightarrow> u8 \<Rightarrow> nat option" where
  "digit_val radix c =
    (let d = (if 48 \<le> c \<and> c \<le> 57 then Some (unat c - 48)
              else if 97 \<le> c \<and> c \<le> 122 then Some (unat c - 87)
              else if 65 \<le> c \<and> c \<le> 90 then Some (unat c - 55)
              else None)
     in case d of Some v \<Rightarrow> if v < radix then Some v else None | None \<Rightarrow> None)"

text \<open>
  \<^verbatim>\<open>str::parse\<close> for an unsigned type with largest value \<open>limit\<close>: an optional \<^verbatim>\<open>+\<close>, at
  least one digit, no overflow on the way.
\<close>

fun parse_digits :: "nat \<Rightarrow> nat \<Rightarrow> nat \<Rightarrow> rstr \<Rightarrow> nat option" where
  "parse_digits radix limit acc [] = Some acc"
| "parse_digits radix limit acc (c # s) =
    (case digit_val radix c of
       None \<Rightarrow> None
     | Some d \<Rightarrow>
         if acc * radix + d \<le> limit then parse_digits radix limit (acc * radix + d) s else None)"

definition parse_unsigned :: "nat \<Rightarrow> rstr \<Rightarrow> nat option" where
  "parse_unsigned limit s =
    (let body = (case s of c # r \<Rightarrow> if c = 43 \<and> r \<noteq> [] then r else s | [] \<Rightarrow> s)
     in if body = [] then None else parse_digits 10 limit 0 body)"

definition parse_u8 :: "rstr \<Rightarrow> u8 option" where
  "parse_u8 s = map_option of_nat (parse_unsigned 255 s)"

definition parse_u16 :: "rstr \<Rightarrow> u16 option" where
  "parse_u16 s = map_option of_nat (parse_unsigned 65535 s)"

definition parse_u32 :: "rstr \<Rightarrow> u32 option" where
  "parse_u32 s = map_option of_nat (parse_unsigned 4294967295 s)"

definition parse_u64 :: "rstr \<Rightarrow> u64 option" where
  "parse_u64 s = map_option of_nat (parse_unsigned 18446744073709551615 s)"

fun dec_digits :: "nat \<Rightarrow> nat \<Rightarrow> rstr" where
  "dec_digits 0 n = []"
| "dec_digits (Suc k) n =
    (if n < 10 then [of_nat (48 + n)] else dec_digits k (n div 10) @ [of_nat (48 + n mod 10)])"

definition show_nat :: "nat \<Rightarrow> rstr" where
  "show_nat n = dec_digits (Suc n) n"

section \<open>IP addresses\<close>

text \<open>
  \<^verbatim>\<open>Parser::read_number\<close>: at most \<open>maxd\<close> digits are read, and a leading zero is
  refused unless allowed.
\<close>

fun take_digits :: "nat \<Rightarrow> nat \<Rightarrow> rstr \<Rightarrow> nat list \<times> rstr" where
  "take_digits radix maxd [] = ([], [])"
| "take_digits radix maxd (c # s) =
    (case digit_val radix c of
       None \<Rightarrow> ([], c # s)
     | Some d \<Rightarrow> let (ds, r) = take_digits radix maxd s in (d # ds, r))"

definition read_number :: "nat \<Rightarrow> nat \<Rightarrow> bool \<Rightarrow> nat \<Rightarrow> rstr \<Rightarrow> (nat \<times> rstr) option" where
  "read_number radix maxd zero_prefix limit s =
    (let (ds, r) = take_digits radix maxd s;
         v = foldl (\<lambda>a d. a * radix + d) 0 ds
     in if ds = [] \<or> length ds > maxd \<or> v > limit then None
        else if \<not> zero_prefix \<and> hd ds = 0 \<and> length ds > 1 then None
        else Some (v, r))"

definition read_char :: "u8 \<Rightarrow> rstr \<Rightarrow> rstr option" where
  "read_char c s = (case s of x # r \<Rightarrow> if x = c then Some r else None | [] \<Rightarrow> None)"

text \<open>\<^verbatim>\<open>read_separator(sep, i, inner)\<close>: the separator is read before every item but the first.\<close>

definition read_sep :: "u8 \<Rightarrow> nat \<Rightarrow> rstr \<Rightarrow> rstr option" where
  "read_sep sep i s = (if i > 0 then read_char sep s else Some s)"

fun read_ipv4_groups :: "nat \<Rightarrow> nat \<Rightarrow> rstr \<Rightarrow> (nat list \<times> rstr) option" where
  "read_ipv4_groups 0 i s = Some ([], s)"
| "read_ipv4_groups (Suc k) i s =
    Option.bind (read_sep 46 i s) (\<lambda>s.
    Option.bind (read_number 10 3 False 255 s) (\<lambda>(v, s).
    Option.bind (read_ipv4_groups k (Suc i) s) (\<lambda>(vs, s). Some (v # vs, s))))"

definition read_ipv4 :: "rstr \<Rightarrow> (u32 \<times> rstr) option" where
  "read_ipv4 s =
    map_option (\<lambda>(vs, r). (ipv4_from_octets (map of_nat vs), r)) (read_ipv4_groups 4 0 s)"

text \<open>
  \<^verbatim>\<open>read_groups\<close> of the IPv6 parser: \<open>k\<close> slots are left, this is slot \<open>i\<close>.  The flag
  says that the groups ended with an embedded IPv4 address.
\<close>

fun read_ipv6_groups :: "nat \<Rightarrow> nat \<Rightarrow> rstr \<Rightarrow> nat list \<times> bool \<times> rstr" where
  "read_ipv6_groups 0 i s = ([], False, s)"
| "read_ipv6_groups (Suc k) i s =
    (case (if k > 0 then Option.bind (read_sep 58 i s) read_ipv4 else None) of
       Some (a, r) \<Rightarrow> ([unat a div 65536, unat a mod 65536], True, r)
     | None \<Rightarrow>
         (case Option.bind (read_sep 58 i s) (read_number 16 4 True 65535) of
            Some (v, r) \<Rightarrow> (let (vs, b, r) = read_ipv6_groups k (Suc i) r in (v # vs, b, r))
          | None \<Rightarrow> ([], False, s)))"

definition ipv6_from_groups :: "nat list \<Rightarrow> u128" where
  "ipv6_from_groups vs = of_nat (foldl (\<lambda>a v. a * 65536 + v) 0 vs)"

definition read_ipv6 :: "rstr \<Rightarrow> (u128 \<times> rstr) option" where
  "read_ipv6 s =
    (let (hd_vs, v4, s) = read_ipv6_groups 8 0 s in
     if length hd_vs = 8 then Some (ipv6_from_groups hd_vs, s)
     else if v4 then None
     else
       Option.bind (read_char 58 s) (\<lambda>s.
       Option.bind (read_char 58 s) (\<lambda>s.
       let (tl_vs, _, s) = read_ipv6_groups (8 - (length hd_vs + 1)) 0 s in
       Some (ipv6_from_groups
               (hd_vs @ replicate (8 - length hd_vs - length tl_vs) 0 @ tl_vs), s))))"

definition parse_ip :: "rstr \<Rightarrow> IpAddr option" where
  "parse_ip s =
    (case (case read_ipv4 s of Some (a, r) \<Rightarrow> Some (V4 a, r)
           | None \<Rightarrow> map_option (\<lambda>(a, r). (V6 a, r)) (read_ipv6 s)) of
       Some (ip, []) \<Rightarrow> Some ip
     | _ \<Rightarrow> None)"

definition show_ipv4 :: "u32 \<Rightarrow> rstr" where
  "show_ipv4 a =
    (case map (show_nat \<circ> unat) (ipv4_octets a) of
       [x, y, z, w] \<Rightarrow> x @ [46] @ y @ [46] @ z @ [46] @ w
     | _ \<Rightarrow> [])"

fun hex_digits :: "nat \<Rightarrow> nat \<Rightarrow> rstr" where
  "hex_digits 0 n = []"
| "hex_digits (Suc k) n =
    (let d = n mod 16; c = (if d < 10 then of_nat (48 + d) else of_nat (87 + d))
     in if n < 16 then [c] else hex_digits k (n div 16) @ [c])"

definition ipv6_segments :: "u128 \<Rightarrow> nat list" where
  "ipv6_segments a = map (\<lambda>i. unat a div 65536 ^ (7 - i) mod 65536) [0..<8]"

text \<open>The first longest run of zero segments, as (start, length).\<close>

definition longest_zeros :: "nat list \<Rightarrow> nat \<times> nat" where
  "longest_zeros segs =
    fst (foldl (\<lambda>((ls, ll), (cs, cl)) (i, seg).
           if seg = 0 then
             (let cs = (if cl = 0 then i else cs); cl = cl + 1
              in (if cl > ll then (cs, cl) else (ls, ll), (cs, cl)))
           else ((ls, ll), (0, 0)))
         ((0, 0), (0, 0)) (enumerate 0 segs))"

fun show_segments :: "nat list \<Rightarrow> rstr" where
  "show_segments [] = []"
| "show_segments [x] = hex_digits 4 x"
| "show_segments (x # xs) = hex_digits 4 x @ [58] @ show_segments xs"

definition show_ipv6 :: "u128 \<Rightarrow> rstr" where
  "show_ipv6 a =
    (let segs = ipv6_segments a in
     if take 6 segs = [0, 0, 0, 0, 0, 65535] then
       [58, 58] @ hex_digits 4 65535 @ [58] @ show_ipv4 (of_nat (unat a))
     else
       let (start, len) = longest_zeros segs in
       if len > 1 then
         show_segments (take start segs) @ [58, 58] @ show_segments (drop (start + len) segs)
       else show_segments segs)"

section \<open>address.rs: textual forms\<close>

definition address_from_str :: "rstr \<Rightarrow> AddressParseError + Address" where
  "address_from_str s =
    (case parse_ip s of
       Some ip \<Rightarrow> Inr (Ip ip)
     | None \<Rightarrow>
         (let trimmed = (case Option.bind (strip_prefix [91] s) (strip_suffix [93]) of
                           Some t \<Rightarrow> t | None \<Rightarrow> s)
          in case parse_ip trimmed of
               Some ip \<Rightarrow> Inr (Ip ip)
             | None \<Rightarrow> address_domain s))"

definition endpoint_from_str :: "rstr \<Rightarrow> AddressParseError + Endpoint" where
  "endpoint_from_str s =
    (case strip_prefix [91] s of
       Some rest \<Rightarrow>
         rbind (ok_or (split_once_seq [93, 58] rest) BadEndpoint) (\<lambda>(ip, p).
         rbind (ok_or (parse_ip ip) BadEndpoint) (\<lambda>ip.
         rbind (ok_or (parse_u16 p) BadEndpoint) (\<lambda>port.
         Inr \<lparr>address = Ip ip, port = port\<rparr>)))
     | None \<Rightarrow>
         rbind (ok_or (rsplit_once 58 s) BadEndpoint) (\<lambda>(host, p).
         rbind (ok_or (parse_u16 p) BadEndpoint) (\<lambda>port.
         rbind (address_from_str host) (\<lambda>addr.
         Inr \<lparr>address = addr, port = port\<rparr>))))"

definition address_display :: "Address \<Rightarrow> rstr" where
  "address_display a =
    (case a of
       Ip (V4 v4) \<Rightarrow> show_ipv4 v4
     | Ip (V6 v6) \<Rightarrow> [91] @ show_ipv6 v6 @ [93]
     | Domain d \<Rightarrow> d)"

definition endpoint_display :: "Endpoint \<Rightarrow> rstr" where
  "endpoint_display e =
    (case address e of
       Ip (V6 v6) \<Rightarrow> [91] @ show_ipv6 v6 @ [93, 58] @ show_nat (unat (port e))
     | other \<Rightarrow> address_display other @ [58] @ show_nat (unat (port e)))"

section \<open>Numbers survive printing\<close>

lemma digit_val_dec: "d < 10 \<Longrightarrow> digit_val 10 (of_nat (48 + d)) = Some d"
  by (auto simp: digit_val_def unat_of_nat_u8 word_le_nat_alt simp del: of_nat_add)

lemma parse_digits_append:
  "parse_digits r l acc (a @ b) =
    (case parse_digits r l acc a of None \<Rightarrow> None | Some v \<Rightarrow> parse_digits r l v b)"
  by (induction a arbitrary: acc) (auto split: option.splits)

lemma parse_digits_dec:
  "\<lbrakk>n < k; n \<le> limit\<rbrakk> \<Longrightarrow> parse_digits 10 limit 0 (dec_digits k n) = Some n"
proof (induction k arbitrary: n)
  case (Suc k)
  show ?case
  proof (cases "n < 10")
    case True
    with Suc.prems show ?thesis
      by (simp add: digit_val_dec del: of_nat_add)
  next
    case False
    with Suc.prems Suc.IH [of "n div 10"] show ?thesis
      by (simp add: parse_digits_append digit_val_dec del: of_nat_add)
  qed
qed simp

lemma dec_digits_set: "c \<in> set (dec_digits k n) \<Longrightarrow> 48 \<le> c \<and> c \<le> 57"
proof (induction k arbitrary: n)
  case (Suc k)
  have "48 \<le> (of_nat (48 + d) :: u8) \<and> (of_nat (48 + d) :: u8) \<le> 57" if "d < 10" for d
    using that by (simp add: word_le_nat_alt unat_of_nat_u8 del: of_nat_add)
  with Suc show ?case
    by (auto split: if_splits simp del: of_nat_add)
qed simp

lemma dec_digits_Nil: "dec_digits (Suc k) n \<noteq> []"
  by simp

lemma parse_unsigned_show_nat: "n \<le> limit \<Longrightarrow> parse_unsigned limit (show_nat n) = Some n"
proof -
  assume "n \<le> limit"
  moreover obtain c r where c: "show_nat n = c # r"
    unfolding show_nat_def using dec_digits_Nil [of n n] by (cases "dec_digits (Suc n) n") auto
  moreover have "c \<noteq> 43"
    using dec_digits_set [of c "Suc n" n] c by (auto simp: show_nat_def)
  ultimately show ?thesis
    using parse_digits_dec [of n "Suc n" limit] by (simp add: parse_unsigned_def show_nat_def Let_def)
qed

lemma parse_u16_show: "parse_u16 (show_nat (unat p)) = Some p"
  using parse_unsigned_show_nat [of "unat p" 65535] unat_u16_lt [of p]
  by (simp add: parse_u16_def)

section \<open>Addresses survive printing\<close>

lemma show_nat_small:
  assumes "n < 1000"
  shows "show_nat n =
    (if n < 10 then [of_nat (48 + n)]
     else if n < 100 then [of_nat (48 + n div 10), of_nat (48 + n mod 10)]
     else [of_nat (48 + n div 100), of_nat (48 + n div 10 mod 10), of_nat (48 + n mod 10)])"
proof -
  have step: "dec_digits k n = (if n < 10 then [of_nat (48 + n)]
      else dec_digits (k - 1) (n div 10) @ [of_nat (48 + n mod 10)])" if "0 < k" for k n
    using that by (cases k) simp_all
  have "n div 10 div 10 = n div 100" "n div 10 < 10 \<longleftrightarrow> n < 100" "n div 100 < 10"
    using assms by (simp_all add: div_mult2_eq [of n 10 10, simplified] div_less_iff_less_mult)
  with assms show ?thesis
    unfolding show_nat_def
    by (simp add: step [of "Suc n" n] step [of n "n div 10"] step [of "n - Suc 0" "n div 100"]
        del: dec_digits.simps of_nat_add)
qed

lemma read_octet:
  assumes "n < 256" and "rest = [] \<or> digit_val 10 (hd rest) = None"
  shows "read_number 10 3 False 255 (show_nat n @ rest) = Some (n, rest)"
proof -
  have rest: "take_digits 10 3 rest = ([], rest)"
    using assms(2) by (cases rest) auto
  consider "n < 10" | "10 \<le> n" "n < 100" | "100 \<le> n"
    by linarith
  then show ?thesis
  proof cases
    case 1
    with rest show ?thesis
      by (simp add: show_nat_small read_number_def digit_val_dec del: of_nat_add)
  next
    case 2
    then have "n div 10 < 10" "0 < n div 10" "n div 10 * 10 + n mod 10 = n"
      by auto
    with 2 rest show ?thesis
      by (simp add: show_nat_small read_number_def digit_val_dec del: of_nat_add)
  next
    case 3
    have "n div 100 * 10 + n div 10 mod 10 = n div 10"
      using div_mult_mod_eq [of "n div 10" 10] by (simp add: div_mult2_eq [of n 10 10, simplified])
    moreover have "n div 100 < 10" "0 < n div 100" "n div 10 * 10 + n mod 10 = n"
      using 3 assms(1) by auto
    ultimately show ?thesis
      using 3 assms(1) rest
      by (simp add: show_nat_small read_number_def digit_val_dec del: of_nat_add)
  qed
qed

lemma read_ipv4_group:
  assumes "n < 256" and "rest = [] \<or> digit_val 10 (hd rest) = None"
  shows "read_ipv4_groups (Suc k) i ((if i > 0 then [46] else []) @ show_nat n @ rest) =
    map_option (\<lambda>(vs, s). (n # vs, s)) (read_ipv4_groups k (Suc i) rest)"
  using read_octet [OF assms]
  by (cases "read_ipv4_groups k (Suc i) rest") (auto simp: read_sep_def read_char_def)

lemma read_ipv4_4: "read_ipv4_groups 4 i s = read_ipv4_groups (Suc (Suc (Suc (Suc 0)))) i s"
  by (simp only: numeral_eq_Suc pred_numeral_simps BitM.simps arith_simps)

lemma list_of_four: "length xs = 4 \<Longrightarrow> \<exists>w x y z. xs = [w, x, y, z]"
  by (auto simp: length_Suc_conv numeral_eq_Suc)

lemma parse_show_ipv4: "parse_ip (show_ipv4 a) = Some (V4 a)"
proof -
  obtain w x y z where o: "ipv4_octets a = [w, x, y, z]"
    using list_of_four [OF octets_simps(1) [of a]] by blast
  have four: "(4 :: nat) = Suc (Suc (Suc (Suc 0)))"
    by simp
  have dot: "digit_val 10 46 = None"
    by (simp add: digit_val_def)
  have "show_ipv4 a = show_nat (unat w) @ 46 # show_nat (unat x) @ 46 # show_nat (unat y) @ 46 #
      show_nat (unat z) @ []"
    by (simp add: show_ipv4_def o)
  moreover have "read_ipv4_groups 4 0 (show_nat (unat w) @ 46 # show_nat (unat x) @ 46 #
      show_nat (unat y) @ 46 # show_nat (unat z) @ []) = Some ([unat w, unat x, unat y, unat z], [])"
    using read_ipv4_group [of "unat w" _ "Suc (Suc (Suc 0))" 0]
      read_ipv4_group [of "unat x" _ "Suc (Suc 0)" "Suc 0"]
      read_ipv4_group [of "unat y" _ "Suc 0" "Suc (Suc 0)"]
      read_ipv4_group [of "unat z" "[]" 0 "Suc (Suc (Suc 0))"]
    unfolding four by (simp add: dot del: read_ipv4_groups.simps(2))
  ultimately have "read_ipv4 (show_ipv4 a) = Some (ipv4_from_octets [w, x, y, z], [])"
    by (simp add: read_ipv4_def)
  then show ?thesis
    by (simp add: parse_ip_def o [symmetric])
qed

lemma split_once_Some: "c \<notin> set a \<Longrightarrow> split_once c (a @ c # b) = Some (a, b)"
  by (induction a) auto

lemma rsplit_once_last: "c \<notin> set p \<Longrightarrow> rsplit_once c (x @ c # p) = Some (x, p)"
  using split_once_Some [of c "rev p" "rev x"] by (simp add: rsplit_once_def)

lemma show_nat_no_colon: "58 \<notin> set (show_nat n)"
  using dec_digits_set [of 58 "Suc n" n] by (auto simp: show_nat_def)

lemma endpoint_from_host:
  assumes "address_from_str host = Inr a" and "\<not> starts_with host [91]" and "host \<noteq> []"
  shows "endpoint_from_str (host @ [58] @ show_nat (unat p)) = Inr \<lparr>address = a, port = p\<rparr>"
proof -
  have "\<not> starts_with (host @ [58] @ show_nat (unat p)) [91]"
    using assms(2,3) by (cases host) (auto simp: starts_with_def)
  then show ?thesis
    using assms(1) rsplit_once_last [OF show_nat_no_colon, of host "unat p"]
    by (simp add: endpoint_from_str_def strip_prefix_def parse_u16_show)
qed

lemma show_ipv4_start: "\<not> starts_with (show_ipv4 a) [91]" "show_ipv4 a \<noteq> []"
proof -
  obtain w x y z where o: "ipv4_octets a = [w, x, y, z]"
    using list_of_four [OF octets_simps(1) [of a]] by blast
  obtain c r where c: "show_nat (unat w) = c # r"
    unfolding show_nat_def using dec_digits_Nil by (metis neq_Nil_conv)
  then have "c \<noteq> 91"
    using dec_digits_set [of c "Suc (unat w)" "unat w"] by (auto simp: show_nat_def)
  with c o show "\<not> starts_with (show_ipv4 a) [91]" "show_ipv4 a \<noteq> []"
    by (simp_all add: show_ipv4_def starts_with_def)
qed

lemma endpoint_text_v4:
  "address e = Ip (V4 a) \<Longrightarrow> endpoint_from_str (endpoint_display e) = Inr e"
  using endpoint_from_host [of "show_ipv4 a" "Ip (V4 a)" "port e"] show_ipv4_start [of a]
  by (simp add: endpoint_display_def address_display_def address_from_str_def parse_show_ipv4)

lemma endpoint_text_domain:
  assumes "address e = Domain d" and "address_ok (Domain d)" and "parse_ip d = None"
    and "\<not> starts_with d [91]"
  shows "endpoint_from_str (endpoint_display e) = Inr e"
proof -
  have "strip_prefix [91] d = None"
    using assms(4) by (simp add: strip_prefix_def)
  then have "address_from_str d = Inr (Domain d)"
    using assms by (simp add: address_from_str_def address_domain_def)
  then show ?thesis
    using endpoint_from_host [of d "Domain d" "port e"] assms
    by (simp add: endpoint_display_def address_display_def)
qed

section \<open>Splitting and lossy decoding\<close>

text \<open>\<^verbatim>\<open>str::split(char)\<close>: always at least one piece.\<close>

fun split_char :: "u8 \<Rightarrow> rstr \<Rightarrow> rstr list" where
  "split_char c [] = [[]]"
| "split_char c (x # s) =
    (if x = c then [] # split_char c s
     else case split_char c s of [] \<Rightarrow> [[x]] | w # ws \<Rightarrow> (x # w) # ws)"

lemma split_char_none [simp]: "c \<notin> set a \<Longrightarrow> split_char c a = [a]"
  by (induction a) auto

lemma split_char_some [simp]: "c \<notin> set a \<Longrightarrow> split_char c (a @ c # b) = a # split_char c b"
  by (induction a) auto

text \<open>
  \<^verbatim>\<open>String::from_utf8_lossy\<close>: every maximal ill-formed prefix becomes U+FFFD.  The pair is
  whether the bytes start with a well-formed scalar and how many bytes are consumed.
\<close>

definition utf8_step :: "u8 \<Rightarrow> bytes \<Rightarrow> bool \<times> nat" where
  "utf8_step b r =
    (let second = (\<lambda>lo hi. case r of c # _ \<Rightarrow> lo \<le> c \<and> c \<le> hi | [] \<Rightarrow> False);
         cont = (\<lambda>i. i < length r \<and> utf8_cont (r ! i))
     in if b < 128 then (True, 1)
        else if 194 \<le> b \<and> b \<le> 223 then (if cont 0 then (True, 2) else (False, 1))
        else if 224 \<le> b \<and> b \<le> 239 then
          (if \<not> (if b = 224 then second 160 191 else if b = 237 then second 128 159 else second 128 191)
           then (False, 1) else if \<not> cont 1 then (False, 2) else (True, 3))
        else if 240 \<le> b \<and> b \<le> 244 then
          (if \<not> (if b = 240 then second 144 191 else if b = 244 then second 128 143 else second 128 191)
           then (False, 1) else if \<not> cont 1 then (False, 2) else if \<not> cont 2 then (False, 3)
           else (True, 4))
        else (False, 1))"

lemma utf8_step_pos: "0 < snd (utf8_step b r)"
  by (simp add: utf8_step_def Let_def)

function utf8_lossy :: "bytes \<Rightarrow> rstr" where
  "utf8_lossy [] = []"
| "utf8_lossy (b # r) =
    (let (good, n) = utf8_step b r in
     (if good then take n (b # r) else [0xEF, 0xBF, 0xBD]) @ utf8_lossy (drop n (b # r)))"
  by pat_completeness auto
termination
proof (relation "measure length")
  fix b r p good n
  assume "p = utf8_step b r" and "(good, n) = p"
  then have "0 < n"
    using utf8_step_pos [of b r] by (metis snd_conv)
  then show "(drop n (b # r), b # r) \<in> measure length"
    by simp
qed simp

lemma utf8_lossy_ascii: "\<forall>b \<in> set s. b < 128 \<Longrightarrow> utf8_lossy s = s"
  by (induction s) (simp_all add: utf8_step_def Let_def)

lemma utf8_lossy_valid: "utf8_valid s \<Longrightarrow> utf8_lossy s = s"
proof (induction s rule: utf8_valid.induct)
  case (2 b r)
  consider "b < 128" | "\<not> b < 128" "194 \<le> b \<and> b \<le> 223" | "\<not> b < 128" "\<not> (194 \<le> b \<and> b \<le> 223)" "224 \<le> b \<and> b \<le> 239"
    | "\<not> b < 128" "\<not> (194 \<le> b \<and> b \<le> 223)" "\<not> (224 \<le> b \<and> b \<le> 239)" "240 \<le> b \<and> b \<le> 244"
    using 2(5) by (auto split: if_splits)
  then show ?case
  proof cases
    case 1
    with 2 show ?thesis by (simp add: utf8_step_def)
  next
    case c: 2
    with 2(5) obtain x r' where r: "r = x # r'" "utf8_cont x" "utf8_valid r'"
      by (auto split: list.splits)
    have "utf8_step b r = (True, 2)"
      using c r(1,2) unfolding utf8_step_def Let_def by simp
    with 2(2) [OF c r(1)] r show ?thesis by simp
  next
    case c: 3
    with 2(5) obtain x y r' where r: "r = x # y # r'" "if b = 224 then 160 \<le> x \<and> x \<le> 191
           else if b = 237 then 128 \<le> x \<and> x \<le> 159 else utf8_cont x" "utf8_cont y" "utf8_valid r'"
      by (auto split: list.splits)
    have "utf8_step b r = (True, 3)"
      using c r(1-3) unfolding utf8_step_def Let_def utf8_cont_def by (simp split: if_splits)
    with 2(3) [OF c r(1) refl] r show ?thesis by (simp add: numeral_3_eq_3)
  next
    case c: 4
    with 2(5) obtain x y z r' where r: "r = x # y # z # r'" "if b = 240 then 144 \<le> x \<and> x \<le> 191
           else if b = 244 then 128 \<le> x \<and> x \<le> 143 else utf8_cont x" "utf8_cont y" "utf8_cont z" "utf8_valid r'"
      by (auto split: list.splits)
    have "utf8_step b r = (True, 4)"
      using c r(1-4) unfolding utf8_step_def Let_def utf8_cont_def by (simp split: if_splits)
    with 2(4) [OF c r(1) refl refl] r show ?thesis by simp
  qed
qed simp
lemma white_space_bytes: "w \<in> set white_space \<Longrightarrow> w \<noteq> [] \<and> (\<forall>c \<in> set w. c \<le> 32 \<or> 127 < c)"
  by (auto simp: white_space_def)

lemma trim_graphic:
  assumes "s \<noteq> []" and "32 < hd s" "hd s \<le> 127" and "32 < last s" "last s \<le> 127"
  shows "trim s = s"
proof -
  have "\<not> starts_with s w \<and> \<not> ends_with s w" if "w \<in> set white_space" for w
  proof -
    have "\<not> (32 < hd w \<and> hd w \<le> 127)" "\<not> (32 < last w \<and> last w \<le> 127)"
      using white_space_bytes [OF that] hd_in_set [of w] last_in_set [of w] by (metis linorder_not_less)+
    with assms have "hd s \<noteq> hd w" "last s \<noteq> last w"
      by metis+
    then show ?thesis
      using white_space_bytes [OF that] assms(1)
      by (auto simp: starts_with_def ends_with_def) (metis append_is_Nil_conv append_take_drop_id hd_append2 last_appendR)+
  qed
  then have "find (\<lambda>w. starts_with s w) white_space = None" "find (\<lambda>w. ends_with s w) white_space = None"
    by (auto simp: find_None_iff)
  then show ?thesis
    by (simp add: trim_def trim_start.simps [of s] trim_end.simps [of s])
qed
lemma parse_u64_show: "parse_u64 (show_nat (unat p)) = Some p"
proof -
  have "unat p \<le> 18446744073709551615"
    using unsigned_less [of p, where ?'a = nat] by simp
  then show ?thesis by (simp add: parse_u64_def parse_unsigned_show_nat)
qed

section \<open>Properties\<close>

text \<open>
  Endpoint text round trip: printing an endpoint and parsing the text gives the
  endpoint back, for every IPv4 endpoint and for every endpoint whose well-formed domain
  neither reads as an address nor starts with a bracket.
\<close>

lemma endpoint_text_round_trip:
  assumes "case address e of
      Ip (V4 _) \<Rightarrow> True
    | Ip (V6 _) \<Rightarrow> False
    | Domain d \<Rightarrow> address_ok (Domain d) \<and> parse_ip d = None \<and> \<not> starts_with d [91]"
  shows "endpoint_from_str (endpoint_display e) = Inr e"
  using assms endpoint_text_v4 [of e] endpoint_text_domain [of e]
  by (auto split: Address.splits IpAddr.splits)

end
