(* ===== verification/Geo_Db.thy ===== *)
theory Geo_Db
  imports Std_Text
begin

text \<open>
  The crate \<^verbatim>\<open>donut-geo\<close>: network ranges and their mask test, the GeoIP and GeoSite
  databases with their loaders, and domain rules.  The protobuf decoder of \<^verbatim>\<open>prost\<close> is
  an argument of the loaders; the messages it yields are the records below.  A hash
  map is a partial function.  The locale \<open>cidr_contract\<close> is what a range test promises;
  this crate's test and the router's own both provide it.
\<close>

section \<open>The contract of a range test\<close>

definition ip_value :: "IpAddr \<Rightarrow> nat" where
  "ip_value ip = (case ip of V4 a \<Rightarrow> unat a | V6 a \<Rightarrow> unat a)"

definition ip_bits :: "IpAddr \<Rightarrow> nat" where
  "ip_bits ip = (case ip of V4 _ \<Rightarrow> 32 | V6 _ \<Rightarrow> 128)"

text \<open>Same family, and the leading \<open>p\<close> bits agree.\<close>

definition in_prefix :: "IpAddr \<Rightarrow> nat \<Rightarrow> IpAddr \<Rightarrow> bool" where
  "in_prefix net p ip \<longleftrightarrow>
    ip_bits net = ip_bits ip \<and>
    (p = 0 \<or> p \<le> ip_bits ip \<and>
      ip_value net div 2 ^ (ip_bits ip - p) = ip_value ip div 2 ^ (ip_bits ip - p))"

locale cidr_contract =
  fixes range_contains :: "IpAddr \<Rightarrow> u8 \<Rightarrow> IpAddr \<Rightarrow> bool"
  assumes contains_iff: "range_contains net p ip \<longleftrightarrow> in_prefix net (unat p) ip"
begin

lemma contains_net: "unat p \<le> ip_bits net \<Longrightarrow> range_contains net p net"
  by (simp add: contains_iff in_prefix_def)

lemma contains_sym: "range_contains net p ip \<longleftrightarrow> range_contains ip p net"
  by (auto simp: contains_iff in_prefix_def)

lemma contains_family: "range_contains net p ip \<Longrightarrow> ip_bits net = ip_bits ip"
  by (simp add: contains_iff in_prefix_def)

lemma contains_all: "range_contains net 0 ip \<longleftrightarrow> ip_bits net = ip_bits ip"
  by (simp add: contains_iff in_prefix_def)

lemma contains_too_long: "ip_bits net < unat p \<Longrightarrow> \<not> range_contains net p ip"
  by (auto simp: contains_iff in_prefix_def)

lemma contains_shorter:
  assumes "range_contains net p ip" and "unat q \<le> unat p"
  shows "range_contains net q ip"
proof (cases "unat q = 0")
  case False
  let ?b = "ip_bits ip"
  have h: "ip_bits net = ?b" "unat p \<le> ?b"
      "ip_value net div 2 ^ (?b - unat p) = ip_value ip div 2 ^ (?b - unat p)"
    using assms False by (auto simp: contains_iff in_prefix_def)
  have "?b - unat q = (?b - unat p) + (unat p - unat q)"
    using assms(2) h(2) by simp
  then have "x div 2 ^ (?b - unat q) = x div 2 ^ (?b - unat p) div 2 ^ (unat p - unat q)" for x :: nat
    by (simp add: power_add div_mult2_eq)
  with h assms(2) show ?thesis
    by (simp add: contains_iff in_prefix_def)
qed (use assms in \<open>auto simp: contains_iff in_prefix_def\<close>)

end

section \<open>GeoIP\<close>

datatype GeoError = GeoDecode | CidrLen nat

record ProtoCidr =
  pc_ip :: bytes
  pc_prefix :: u32

record ProtoGeoIp =
  pg_country_code :: rstr
  pg_cidr :: "ProtoCidr list"
  pg_reverse_match :: bool

datatype DomainType = TPlain | TRegex | TDomain | TFull

record ProtoDomain =
  pd_type :: int
  pd_value :: rstr

record ProtoGeoSite =
  ps_country_code :: rstr
  ps_domain :: "ProtoDomain list"

record GeoCidr =
  gc_net :: IpAddr
  gc_prefix :: u8

definition geo_cidr_from_proto :: "ProtoCidr \<Rightarrow> GeoError + GeoCidr" where
  "geo_cidr_from_proto c =
    (let n = length (pc_ip c) in
     if n = 4 then Inr \<lparr>gc_net = V4 (ipv4_from_octets (pc_ip c)), gc_prefix = ucast (pc_prefix c)\<rparr>
     else if n = 16 then
       Inr \<lparr>gc_net = V6 (ipv6_from_octets (pc_ip c)), gc_prefix = ucast (pc_prefix c)\<rparr>
     else Inl (CidrLen n))"

definition geo_masked_eq :: "u128 \<Rightarrow> u128 \<Rightarrow> u8 \<Rightarrow> u8 \<Rightarrow> bool" where
  "geo_masked_eq net ip pfx bits =
    (if pfx = 0 then True
     else if pfx > bits then False
     else
       let mask = drop_bit (128 - unat bits) (push_bit (128 - unat pfx) (- 1 :: u128))
       in net AND mask = ip AND mask)"

definition geo_cidr_contains :: "GeoCidr \<Rightarrow> IpAddr \<Rightarrow> bool" where
  "geo_cidr_contains c ip =
    (case (gc_net c, ip) of
       (V4 net, V4 ip) \<Rightarrow> geo_masked_eq (ucast net) (ucast ip) (gc_prefix c) 32
     | (V6 net, V6 ip) \<Rightarrow> geo_masked_eq net ip (gc_prefix c) 128
     | _ \<Rightarrow> False)"

text \<open>\<^verbatim>\<open>by_code.entry(code).or_default().extend(xs)\<close>.\<close>

definition extend_entry :: "(rstr \<rightharpoonup> 'a list) \<Rightarrow> rstr \<Rightarrow> 'a list \<Rightarrow> (rstr \<rightharpoonup> 'a list)" where
  "extend_entry m code xs =
    m(code \<mapsto> (case m code of None \<Rightarrow> [] | Some ys \<Rightarrow> ys) @ xs)"

record GeoIpDb =
  gi_by_code :: "rstr \<rightharpoonup> GeoCidr list"

fun geoip_load ::
    "(rstr \<rightharpoonup> GeoCidr list) \<Rightarrow> ProtoGeoIp list \<Rightarrow> GeoError + (rstr \<rightharpoonup> GeoCidr list)" where
  "geoip_load m [] = Inr m"
| "geoip_load m (entry # es) =
    rbind (collect_results geo_cidr_from_proto (pg_cidr entry)) (\<lambda>cidrs.
    geoip_load (extend_entry m (to_ascii_uppercase (pg_country_code entry)) cidrs) es)"

definition geoip_parse ::
    "(bytes \<Rightarrow> ProtoGeoIp list option) \<Rightarrow> bytes \<Rightarrow> GeoError + GeoIpDb" where
  "geoip_parse decode data =
    rbind (ok_or (decode data) GeoDecode) (\<lambda>list.
    rbind (geoip_load Map.empty list) (\<lambda>m. Inr \<lparr>gi_by_code = m\<rparr>))"

definition geoip_from_entries :: "(rstr \<times> GeoCidr list) list \<Rightarrow> GeoIpDb" where
  "geoip_from_entries entries =
    \<lparr>gi_by_code = foldl (\<lambda>m (code, cidrs). extend_entry m (to_ascii_uppercase code) cidrs)
       Map.empty entries\<rparr>"

definition geoip_cidrs :: "GeoIpDb \<Rightarrow> rstr \<Rightarrow> GeoCidr list option" where
  "geoip_cidrs db code = gi_by_code db (to_ascii_uppercase code)"

definition geoip_contains :: "GeoIpDb \<Rightarrow> rstr \<Rightarrow> IpAddr \<Rightarrow> bool" where
  "geoip_contains db code ip =
    (case geoip_cidrs db code of
       None \<Rightarrow> False
     | Some cidrs \<Rightarrow> list_ex (\<lambda>c. geo_cidr_contains c ip) cidrs)"

section \<open>GeoSite\<close>

datatype DomainRule = RFull rstr | RSuffix rstr | RKeyword rstr | RRegex rstr

definition domain_type_from :: "int \<Rightarrow> DomainType" where
  "domain_type_from t =
    (if t = 3 then TFull else if t = 2 then TDomain else if t = 1 then TRegex else TPlain)"

definition domain_rule_from_proto :: "ProtoDomain \<Rightarrow> DomainRule" where
  "domain_rule_from_proto d =
    (let v = to_ascii_lowercase (pd_value d) in
     case domain_type_from (pd_type d) of
       TFull \<Rightarrow> RFull v | TDomain \<Rightarrow> RSuffix v | TPlain \<Rightarrow> RKeyword v | TRegex \<Rightarrow> RRegex v)"

definition domain_rule_matches :: "DomainRule \<Rightarrow> rstr \<Rightarrow> bool" where
  "domain_rule_matches r host =
    (let h = to_ascii_lowercase host in
     case r of
       RFull v \<Rightarrow> h = v
     | RSuffix v \<Rightarrow> h = v \<or> ends_with h (46 # v)
     | RKeyword v \<Rightarrow> str_contains h v
     | RRegex _ \<Rightarrow> False)"

record GeoSiteDb =
  gs_by_code :: "rstr \<rightharpoonup> DomainRule list"

definition geosite_parse ::
    "(bytes \<Rightarrow> ProtoGeoSite list option) \<Rightarrow> bytes \<Rightarrow> GeoError + GeoSiteDb" where
  "geosite_parse decode data =
    rbind (ok_or (decode data) GeoDecode) (\<lambda>list.
    Inr \<lparr>gs_by_code =
      foldl (\<lambda>m entry. extend_entry m (to_ascii_uppercase (ps_country_code entry))
               (map domain_rule_from_proto (ps_domain entry))) Map.empty list\<rparr>)"

definition geosite_from_entries :: "(rstr \<times> DomainRule list) list \<Rightarrow> GeoSiteDb" where
  "geosite_from_entries entries =
    \<lparr>gs_by_code = foldl (\<lambda>m (code, rules). extend_entry m (to_ascii_uppercase code) rules)
       Map.empty entries\<rparr>"

definition geosite_rules :: "GeoSiteDb \<Rightarrow> rstr \<Rightarrow> DomainRule list option" where
  "geosite_rules db code = gs_by_code db (to_ascii_uppercase code)"

definition geosite_matches :: "GeoSiteDb \<Rightarrow> rstr \<Rightarrow> rstr \<Rightarrow> bool" where
  "geosite_matches db code host =
    (case geosite_rules db code of
       None \<Rightarrow> False
     | Some rules \<Rightarrow> list_ex (\<lambda>r. domain_rule_matches r host) rules)"

section \<open>The mask test\<close>

lemma unat_drop_bit: "unat (drop_bit m (w :: 'a :: len word)) = unat w div 2 ^ m"
  by (subst unsigned_drop_bit_eq) (simp add: drop_bit_eq_div take_bit_nat_eq_self)

lemma bit_prefix_mask:
  assumes "0 < p" "p \<le> b" "b \<le> 128"
  shows "bit (drop_bit (128 - b) (push_bit (128 - p) (- 1 :: u128))) k \<longleftrightarrow> b - p \<le> k \<and> k < b"
  using assms by (auto simp: bit_simps)

lemma masked_eq_iff:
  assumes "0 < p" "p \<le> b" "b \<le> 128" "unat n < 2 ^ b" "unat i < 2 ^ b"
  shows "(n :: u128) AND drop_bit (128 - b) (push_bit (128 - p) (- 1)) =
         i AND drop_bit (128 - b) (push_bit (128 - p) (- 1)) \<longleftrightarrow>
         unat n div 2 ^ (b - p) = unat i div 2 ^ (b - p)"
proof -
  have high: "bit n k \<Longrightarrow> k < b" "bit i k \<Longrightarrow> k < b" for k
    using assms(4,5) by (auto simp: unat_less_exp_iff_bits)
  define m where "m = drop_bit (128 - b) (push_bit (128 - p) (- 1 :: u128))"
  have m: "bit m k \<longleftrightarrow> b - p \<le> k \<and> k < b" for k
    unfolding m_def by (rule bit_prefix_mask [OF assms(1-3)])
  have "n AND m = i AND m \<longleftrightarrow> (\<forall>k. b - p \<le> k \<and> k < b \<longrightarrow> bit n k = bit i k)"
    unfolding bit_eq_iff using assms(3) by (auto simp: bit_and_iff m) (meson less_le_trans)+
  also have "\<dots> \<longleftrightarrow> drop_bit (b - p) n = drop_bit (b - p) i"
  proof
    assume eq: "\<forall>k. b - p \<le> k \<and> k < b \<longrightarrow> bit n k = bit i k"
    have "bit n (b - p + j) = bit i (b - p + j)" for j
      using eq high [of "b - p + j"] by (cases "b - p + j < b") auto
    then show "drop_bit (b - p) n = drop_bit (b - p) i"
      by (intro bit_eqI) (simp add: bit_drop_bit_eq)
  next
    assume eq: "drop_bit (b - p) n = drop_bit (b - p) i"
    have "bit n (b - p + (k - (b - p))) = bit i (b - p + (k - (b - p)))" for k
      using arg_cong [OF eq, of "\<lambda>w. bit w (k - (b - p))"] by (simp add: bit_drop_bit_eq)
    then show "\<forall>k. b - p \<le> k \<and> k < b \<longrightarrow> bit n k = bit i k"
      by (metis le_add_diff_inverse)
  qed
  also have "\<dots> \<longleftrightarrow> unat n div 2 ^ (b - p) = unat i div 2 ^ (b - p)"
    by (simp add: word_unat_eq_iff unat_drop_bit)
  finally show ?thesis
    by (simp only: m_def)
qed

lemma geo_masked_eq_iff:
  assumes "0 < unat b" "unat b \<le> 128" "unat n < 2 ^ unat b" "unat i < 2 ^ unat b"
  shows "geo_masked_eq n i p b \<longleftrightarrow>
    unat p = 0 \<or> unat p \<le> unat b \<and> unat n div 2 ^ (unat b - unat p) = unat i div 2 ^ (unat b - unat p)"
proof -
  have "p = 0 \<longleftrightarrow> unat p = 0" "p > b \<longleftrightarrow> \<not> unat p \<le> unat b"
    by (simp_all add: unat_eq_0 word_less_nat_alt not_le)
  then show ?thesis
    using masked_eq_iff [of "unat p" "unat b" n i] assms
    by (auto simp: geo_masked_eq_def Let_def)
qed

lemma unat_ucast_u32_u128: "unat (ucast (a :: u32) :: u128) = unat a"
proof -
  have "unat a < 2 ^ 128"
    using unsigned_less [of a, where ?'a = nat] by (rule less_le_trans) simp
  then show ?thesis
    by (simp add: unsigned_ucast_eq take_bit_nat_eq_self)
qed

lemma unat_bounds: "unat (a :: u32) < 2 ^ 32" "unat (b :: u128) < 2 ^ 128"
  using unsigned_less [of a, where ?'a = nat] unsigned_less [of b, where ?'a = nat] by simp_all

lemma unat_family_bits: "unat (32 :: u8) = 32" "unat (128 :: u8) = 128"
  by simp_all

lemma geo_masked_v4:
  "geo_masked_eq (ucast (n :: u32)) (ucast (i :: u32)) p 32 \<longleftrightarrow> in_prefix (V4 n) (unat p) (V4 i)"
  using geo_masked_eq_iff [of 32 "ucast n" "ucast i" p] unat_bounds(1)
  unfolding unat_family_bits unat_ucast_u32_u128 by (simp add: in_prefix_def ip_bits_def ip_value_def)

lemma geo_masked_v6: "geo_masked_eq n i p 128 \<longleftrightarrow> in_prefix (V6 n) (unat p) (V6 i)"
  using geo_masked_eq_iff [of 128 n i p] unat_bounds(2)
  unfolding unat_family_bits by (simp add: in_prefix_def ip_bits_def ip_value_def)

interpretation geo_cidr: cidr_contract "\<lambda>net p. geo_cidr_contains \<lparr>gc_net = net, gc_prefix = p\<rparr>"
proof
  fix net ip :: IpAddr and p :: u8
  show "geo_cidr_contains \<lparr>gc_net = net, gc_prefix = p\<rparr> ip \<longleftrightarrow> in_prefix net (unat p) ip"
    by (cases net; cases ip)
       (simp_all add: geo_cidr_contains_def geo_masked_v4 geo_masked_v6, simp_all add: in_prefix_def ip_bits_def)
qed

section \<open>Lookups\<close>

lemma extend_entry_apply:
  "extend_entry m code xs c =
    (if c = code then Some ((case m code of None \<Rightarrow> [] | Some ys \<Rightarrow> ys) @ xs) else m c)"
  by (simp add: extend_entry_def)

text \<open>What a key holds after a sequence of extensions, as one list.\<close>

definition entry_list :: "(rstr \<rightharpoonup> 'a list) \<Rightarrow> rstr \<Rightarrow> 'a list" where
  "entry_list m c = (case m c of None \<Rightarrow> [] | Some ys \<Rightarrow> ys)"

lemma entry_list_extend:
  "entry_list (extend_entry m code xs) c = entry_list m c @ (if c = code then xs else [])"
  by (simp add: entry_list_def extend_entry_apply)

lemma entry_list_empty [simp]: "entry_list Map.empty c = []"
  by (simp add: entry_list_def)

lemma entry_list_foldl:
  "entry_list (foldl (\<lambda>m e. extend_entry m (key e) (vals e)) m es) c =
    entry_list m c @ concat (map vals (filter (\<lambda>e. key e = c) es))"
  by (induction es arbitrary: m) (auto simp: entry_list_extend)

lemma geoip_contains_entry:
  "geoip_contains db code ip \<longleftrightarrow>
    (\<exists>c \<in> set (entry_list (gi_by_code db) (to_ascii_uppercase code)). geo_cidr_contains c ip)"
  by (auto simp: geoip_contains_def geoip_cidrs_def entry_list_def list_ex_iff split: option.splits)

lemma geosite_matches_entry:
  "geosite_matches db code host \<longleftrightarrow>
    (\<exists>r \<in> set (entry_list (gs_by_code db) (to_ascii_uppercase code)). domain_rule_matches r host)"
  by (auto simp: geosite_matches_def geosite_rules_def entry_list_def list_ex_iff split: option.splits)

lemma geoip_load_entry:
  assumes "geoip_load m es = Inr m'"
  shows "set (entry_list m' code) = set (entry_list m code) \<union>
    {c. \<exists>e \<in> set es. to_ascii_uppercase (pg_country_code e) = code \<and>
        (\<exists>p \<in> set (pg_cidr e). geo_cidr_from_proto p = Inr c)}"
  using assms
proof (induction m es rule: geoip_load.induct)
  case (2 m entry es)
  then obtain cidrs where c: "collect_results geo_cidr_from_proto (pg_cidr entry) = Inr cidrs"
      "geoip_load (extend_entry m (to_ascii_uppercase (pg_country_code entry)) cidrs) es = Inr m'"
    by (auto simp: rbind_eq_Inr_iff)
  have "set cidrs = {c. \<exists>p \<in> set (pg_cidr entry). geo_cidr_from_proto p = Inr c}"
    using c(1) unfolding collect_results_Inr
    by (induction rule: list_all2_induct) auto
  with 2 c show ?case
    by (auto simp: entry_list_extend)
qed simp

lemma ascii_lower_idem [simp]: "to_ascii_lowercase (to_ascii_lowercase s) = to_ascii_lowercase s"
proof -
  have "ascii_lower (ascii_lower c) = ascii_lower c" for c
  proof (cases "65 \<le> c \<and> c \<le> 90")
    case True
    then have "unat c \<le> 90"
      by (simp add: word_le_nat_alt)
    then have "unat (c + 32) = unat c + 32"
      by (simp add: unat_word_ariths)
    with True have "\<not> c + 32 \<le> 90"
      by (simp add: word_le_nat_alt)
    with True show ?thesis
      by (simp add: ascii_lower_def)
  qed (simp add: ascii_lower_def)
  then show ?thesis
    by (simp add: to_ascii_lowercase_def)
qed

lemma domain_rule_case_insensitive:
  "domain_rule_matches r (to_ascii_lowercase host) = domain_rule_matches r host"
  by (simp add: domain_rule_matches_def)

section \<open>Properties\<close>

text \<open>
  The GeoIP loader builds exactly the database its messages describe: an address is
  in a country iff some message with that code, up to ASCII case, lists a range that
  contains it; several messages with one code accumulate.
\<close>

lemma geoip_lookup:
  assumes "geoip_parse decode data = Inr db" and "decode data = Some entries"
  shows "geoip_contains db code ip \<longleftrightarrow>
    (\<exists>e \<in> set entries. to_ascii_uppercase (pg_country_code e) = to_ascii_uppercase code \<and>
      (\<exists>p \<in> set (pg_cidr e). \<exists>c. geo_cidr_from_proto p = Inr c \<and> geo_cidr_contains c ip))"
proof -
  have "geoip_load Map.empty entries = Inr (gi_by_code db)"
    using assms by (auto simp: geoip_parse_def rbind_eq_Inr_iff)
  from geoip_load_entry [OF this, of "to_ascii_uppercase code"] show ?thesis
    by (auto simp: geoip_contains_entry)
qed

text \<open>
  The GeoSite loader likewise: a host matches a category iff a rule of a message with
  that code matches it, and neither the case of the host nor of the code matters.
\<close>

lemma geosite_lookup:
  assumes "geosite_parse decode data = Inr db" and "decode data = Some entries"
  shows "(geosite_matches db code host \<longleftrightarrow>
      (\<exists>e \<in> set entries. to_ascii_uppercase (ps_country_code e) = to_ascii_uppercase code \<and>
        (\<exists>d \<in> set (ps_domain e). domain_rule_matches (domain_rule_from_proto d) host))) \<and>
    geosite_matches db code (to_ascii_lowercase host) = geosite_matches db code host"
proof -
  have db: "gs_by_code db = foldl (\<lambda>m e. extend_entry m (to_ascii_uppercase (ps_country_code e))
      (map domain_rule_from_proto (ps_domain e))) Map.empty entries"
    using assms by (auto simp: geosite_parse_def rbind_eq_Inr_iff)
  show ?thesis
    unfolding geosite_matches_entry db entry_list_foldl domain_rule_case_insensitive
    by auto
qed


end
