(* ===== verification/Routing.thy ===== *)
theory Routing
  imports Geo_Db
begin

text \<open>
  The crate \<^verbatim>\<open>donut-routing\<close>: domain matchers, CIDR ranges and their parser,
  conditions, rules with their builder methods, the router with its first-match walk,
  and the configuration form with \<open>build_with_geo\<close> and \<open>parse_port_spec\<close>.
\<close>

section \<open>Matchers\<close>

datatype RoutingError = RCidr rstr | RPort rstr | MissingGeo rstr

datatype DomainMatch = Full rstr | Suffix rstr | Keyword rstr

definition domain_match :: "DomainMatch \<Rightarrow> rstr \<Rightarrow> bool" where
  "domain_match m host =
    (case m of
       Full d \<Rightarrow> eq_ignore_ascii_case host d
     | Suffix d \<Rightarrow>
         (let d = to_ascii_lowercase (trim_start_matches 46 d); h = to_ascii_lowercase host
          in h = d \<or> ends_with h (46 # d))
     | Keyword k \<Rightarrow> str_contains (to_ascii_lowercase host) (to_ascii_lowercase k))"

record Cidr =
  net :: IpAddr
  pfx_len :: u8

definition masked_eq :: "u128 \<Rightarrow> u128 \<Rightarrow> u8 \<Rightarrow> u8 \<Rightarrow> bool" where
  "masked_eq n ip pfx bits =
    (if pfx = 0 then True
     else if pfx > bits then False
     else
       let mask = drop_bit (128 - unat bits) (push_bit (128 - unat pfx) (- 1 :: u128))
       in n AND mask = ip AND mask)"

definition cidr_contains :: "Cidr \<Rightarrow> IpAddr \<Rightarrow> bool" where
  "cidr_contains c ip =
    (case (net c, ip) of
       (V4 n, V4 ip) \<Rightarrow> masked_eq (ucast n) (ucast ip) (pfx_len c) 32
     | (V6 n, V6 ip) \<Rightarrow> masked_eq n ip (pfx_len c) 128
     | _ \<Rightarrow> False)"

definition cidr_from_str :: "rstr \<Rightarrow> RoutingError + Cidr" where
  "cidr_from_str s =
    rbind (ok_or (split_once 47 s) (RCidr s)) (\<lambda>(net_str, prefix_str).
    rbind (ok_or (parse_ip net_str) (RCidr s)) (\<lambda>ip.
    rbind (ok_or (parse_u8 prefix_str) (RCidr s)) (\<lambda>p.
    let max = (case ip of V4 _ \<Rightarrow> 32 | V6 _ \<Rightarrow> 128) in
    if p > max then Inl (RCidr s) else Inr \<lparr>net = ip, pfx_len = p\<rparr>)))"

datatype Condition =
    CDomain DomainMatch
  | CCidr Cidr
  | CPorts u16 u16
  | CGeoIp GeoIpDb rstr
  | CGeoSite GeoSiteDb rstr

definition condition_matches :: "Condition \<Rightarrow> Endpoint \<Rightarrow> bool" where
  "condition_matches c target =
    (case c of
       CDomain m \<Rightarrow> (case address target of Domain d \<Rightarrow> domain_match m d | Ip _ \<Rightarrow> False)
     | CCidr c \<Rightarrow> (case address target of Ip ip \<Rightarrow> cidr_contains c ip | Domain _ \<Rightarrow> False)
     | CPorts lo hi \<Rightarrow> port target \<ge> lo \<and> port target \<le> hi
     | CGeoIp db code \<Rightarrow>
         (case address target of Ip ip \<Rightarrow> geoip_contains db code ip | Domain _ \<Rightarrow> False)
     | CGeoSite db code \<Rightarrow>
         (case address target of Domain d \<Rightarrow> geosite_matches db code d | Ip _ \<Rightarrow> False))"

section \<open>Rules and the router\<close>

record Rule =
  conditions :: "Condition list"
  outbound :: rstr

definition rule_to :: "rstr \<Rightarrow> Rule" where
  "rule_to out = \<lparr>conditions = [], outbound = out\<rparr>"

definition rule_domain :: "Rule \<Rightarrow> DomainMatch \<Rightarrow> Rule" where
  "rule_domain r m = r\<lparr>conditions := conditions r @ [CDomain m]\<rparr>"

definition rule_cidr :: "Rule \<Rightarrow> Cidr \<Rightarrow> Rule" where
  "rule_cidr r c = r\<lparr>conditions := conditions r @ [CCidr c]\<rparr>"

definition rule_ports :: "Rule \<Rightarrow> u16 \<times> u16 \<Rightarrow> Rule" where
  "rule_ports r p = r\<lparr>conditions := conditions r @ [CPorts (fst p) (snd p)]\<rparr>"

definition rule_geoip :: "GeoIpDb \<Rightarrow> Rule \<Rightarrow> rstr \<Rightarrow> Rule" where
  "rule_geoip db r code = r\<lparr>conditions := conditions r @ [CGeoIp db code]\<rparr>"

definition rule_geosite :: "GeoSiteDb \<Rightarrow> Rule \<Rightarrow> rstr \<Rightarrow> Rule" where
  "rule_geosite db r code = r\<lparr>conditions := conditions r @ [CGeoSite db code]\<rparr>"

definition rule_matches :: "Rule \<Rightarrow> Endpoint \<Rightarrow> bool" where
  "rule_matches r target = list_ex (\<lambda>c. condition_matches c target) (conditions r)"

record Router =
  rules :: "Rule list"
  default_outbound :: rstr

definition router_new :: "rstr \<Rightarrow> Router" where
  "router_new out = \<lparr>rules = [], default_outbound = out\<rparr>"

definition with_rule :: "Router \<Rightarrow> Rule \<Rightarrow> Router" where
  "with_rule r rule = r\<lparr>rules := rules r @ [rule]\<rparr>"

fun route_rules :: "Rule list \<Rightarrow> rstr \<Rightarrow> Endpoint \<Rightarrow> rstr" where
  "route_rules [] d target = d"
| "route_rules (r # rs) d target =
    (if rule_matches r target then outbound r else route_rules rs d target)"

definition route :: "Router \<Rightarrow> Endpoint \<Rightarrow> rstr" where
  "route r target = route_rules (rules r) (default_outbound r) target"

section \<open>Configuration\<close>

record RuleConfig =
  rc_domain :: "DomainMatch list"
  rc_ip :: "rstr list"
  rc_port :: "rstr list"
  rc_geoip :: "rstr list"
  rc_geosite :: "rstr list"
  rc_outbound :: rstr

record RoutingConfig =
  cfg_default :: rstr
  cfg_rules :: "RuleConfig list"

definition routing_default :: RoutingConfig where
  "routing_default = \<lparr>cfg_default = str ''freedom'', cfg_rules = []\<rparr>"

definition parse_port_spec :: "rstr \<Rightarrow> RoutingError + u16 \<times> u16" where
  "parse_port_spec s =
    (let s = trim s in
     case split_once 45 s of
       Some (a, b) \<Rightarrow>
         rbind (ok_or (parse_u16 (trim a)) (RPort s)) (\<lambda>lo.
         rbind (ok_or (parse_u16 (trim b)) (RPort s)) (\<lambda>hi.
         if lo > hi then Inl (RPort s) else Inr (lo, hi)))
     | None \<Rightarrow> rbind (ok_or (parse_u16 s) (RPort s)) (\<lambda>p. Inr (p, p)))"

definition need_geo :: "'db option \<Rightarrow> rstr \<Rightarrow> rstr list \<Rightarrow> RoutingError + 'db option" where
  "need_geo db tag codes =
    (case codes of
       [] \<Rightarrow> Inr db
     | code # _ \<Rightarrow> (case db of None \<Rightarrow> Inl (MissingGeo (tag @ code)) | Some _ \<Rightarrow> Inr db))"

definition build_rule ::
    "GeoIpDb option \<Rightarrow> GeoSiteDb option \<Rightarrow> RuleConfig \<Rightarrow> RoutingError + Rule" where
  "build_rule geoip_db geosite_db rc =
    (let rule = foldl rule_domain (rule_to (rc_outbound rc)) (rc_domain rc) in
     rbind (collect_results cidr_from_str (rc_ip rc)) (\<lambda>cidrs.
     let rule = foldl rule_cidr rule cidrs in
     rbind (collect_results parse_port_spec (rc_port rc)) (\<lambda>ports.
     let rule = foldl rule_ports rule ports in
     rbind (need_geo geoip_db (str ''geoip:'') (rc_geoip rc)) (\<lambda>gi.
     let rule = (case gi of None \<Rightarrow> rule | Some db \<Rightarrow> foldl (rule_geoip db) rule (rc_geoip rc)) in
     rbind (need_geo geosite_db (str ''geosite:'') (rc_geosite rc)) (\<lambda>gs.
     Inr (case gs of None \<Rightarrow> rule | Some db \<Rightarrow> foldl (rule_geosite db) rule (rc_geosite rc)))))))"

definition build_with_geo ::
    "RoutingConfig \<Rightarrow> GeoIpDb option \<Rightarrow> GeoSiteDb option \<Rightarrow> RoutingError + Router" where
  "build_with_geo cfg geoip_db geosite_db =
    rbind (collect_results (build_rule geoip_db geosite_db) (cfg_rules cfg)) (\<lambda>rs.
    Inr (foldl with_rule (router_new (cfg_default cfg)) rs))"

definition build :: "RoutingConfig \<Rightarrow> RoutingError + Router" where
  "build cfg = build_with_geo cfg None None"

section \<open>Lemmas\<close>

lemma masked_eq_geo: "masked_eq n i p b = geo_masked_eq n i p b"
  by (simp add: masked_eq_def geo_masked_eq_def)

interpretation cidr: cidr_contract "\<lambda>n p. cidr_contains \<lparr>net = n, pfx_len = p\<rparr>"
proof
  fix n ip :: IpAddr and p :: u8
  show "cidr_contains \<lparr>net = n, pfx_len = p\<rparr> ip \<longleftrightarrow> in_prefix n (unat p) ip"
    using geo_cidr.contains_iff [of n p ip]
    by (cases n; cases ip) (simp_all add: cidr_contains_def geo_cidr_contains_def masked_eq_geo)
qed

lemma route_rules_default:
  "(\<forall>r \<in> set rs. \<not> rule_matches r t) \<Longrightarrow> route_rules rs d t = d"
  by (induction rs) auto

lemma route_rules_first:
  "\<lbrakk>\<forall>r \<in> set pre. \<not> rule_matches r t; rule_matches r t\<rbrakk> \<Longrightarrow>
   route_rules (pre @ r # post) d t = outbound r"
  by (induction pre) auto

lemma route_rules_find:
  "route_rules rs d t = (case find (\<lambda>r. rule_matches r t) rs of None \<Rightarrow> d | Some r \<Rightarrow> outbound r)"
  by (induction rs) auto

lemma foldl_with_rule: "foldl with_rule r rs = r\<lparr>rules := rules r @ rs\<rparr>"
  by (induction rs arbitrary: r) (simp_all add: with_rule_def)

lemma foldl_push:
  "foldl (\<lambda>r x. r\<lparr>conditions := conditions r @ [f x]\<rparr>) r xs =
    r\<lparr>conditions := conditions r @ map f xs\<rparr>"
  by (induction xs arbitrary: r) simp_all

lemma foldl_rule:
  "foldl rule_domain r ds = r\<lparr>conditions := conditions r @ map CDomain ds\<rparr>"
  "foldl rule_cidr r cs = r\<lparr>conditions := conditions r @ map CCidr cs\<rparr>"
  "foldl rule_ports r ps = r\<lparr>conditions := conditions r @ map (\<lambda>p. CPorts (fst p) (snd p)) ps\<rparr>"
  "foldl (rule_geoip gi) r codes = r\<lparr>conditions := conditions r @ map (CGeoIp gi) codes\<rparr>"
  "foldl (rule_geosite gs) r codes = r\<lparr>conditions := conditions r @ map (CGeoSite gs) codes\<rparr>"
  using foldl_push [of CDomain r ds] foldl_push [of CCidr r cs]
    foldl_push [of "\<lambda>p. CPorts (fst p) (snd p)" r ps] foldl_push [of "CGeoIp gi" r codes]
    foldl_push [of "CGeoSite gs" r codes]
  by (simp_all only: rule_domain_def [abs_def] rule_cidr_def [abs_def] rule_ports_def [abs_def]
      rule_geoip_def [abs_def] rule_geosite_def [abs_def])

text \<open>What a configured rule means, without building it.\<close>

definition config_matches ::
    "GeoIpDb option \<Rightarrow> GeoSiteDb option \<Rightarrow> RuleConfig \<Rightarrow> Endpoint \<Rightarrow> bool" where
  "config_matches gi gs rc t \<longleftrightarrow>
    (case address t of
       Domain d \<Rightarrow>
         list_ex (\<lambda>m. domain_match m d) (rc_domain rc) \<or>
         list_ex (\<lambda>code. case gs of None \<Rightarrow> False | Some db \<Rightarrow> geosite_matches db code d) (rc_geosite rc)
     | Ip ip \<Rightarrow>
         list_ex (\<lambda>s. case cidr_from_str s of Inl _ \<Rightarrow> False | Inr c \<Rightarrow> cidr_contains c ip) (rc_ip rc) \<or>
         list_ex (\<lambda>code. case gi of None \<Rightarrow> False | Some db \<Rightarrow> geoip_contains db code ip) (rc_geoip rc)) \<or>
    list_ex (\<lambda>s. case parse_port_spec s of
        Inl _ \<Rightarrow> False | Inr (lo, hi) \<Rightarrow> lo \<le> port t \<and> port t \<le> hi) (rc_port rc)"

lemma list_ex_results:
  "collect_results f xs = Inr ys \<Longrightarrow>
   list_ex P ys \<longleftrightarrow> list_ex (\<lambda>x. case f x of Inl _ \<Rightarrow> False | Inr y \<Rightarrow> P y) xs"
  unfolding collect_results_Inr by (induction rule: list_all2_induct) auto

lemma need_geo_ok:
  "need_geo db tag codes = Inr db' \<Longrightarrow> db' = db \<and> (db = None \<longrightarrow> codes = [])"
  by (auto simp: need_geo_def split: list.splits option.splits)

lemma build_rule_ok:
  assumes "build_rule gi gs rc = Inr r"
  shows "outbound r = rc_outbound rc" and "rule_matches r t \<longleftrightarrow> config_matches gi gs rc t"
proof -
  obtain cidrs ports gi' gs' where
    c: "collect_results cidr_from_str (rc_ip rc) = Inr cidrs"
    and p: "collect_results parse_port_spec (rc_port rc) = Inr ports"
    and g: "need_geo gi (str ''geoip:'') (rc_geoip rc) = Inr gi'"
           "need_geo gs (str ''geosite:'') (rc_geosite rc) = Inr gs'"
    and r: "r = (let rule = foldl rule_ports (foldl rule_cidr (foldl rule_domain
              (rule_to (rc_outbound rc)) (rc_domain rc)) cidrs) ports;
            rule = (case gi' of None \<Rightarrow> rule | Some db \<Rightarrow> foldl (rule_geoip db) rule (rc_geoip rc))
          in case gs' of None \<Rightarrow> rule | Some db \<Rightarrow> foldl (rule_geosite db) rule (rc_geosite rc))"
    using assms by (auto simp: build_rule_def rbind_eq_Inr_iff Let_def)
  have g': "gi' = gi" "gs' = gs" "gi = None \<longrightarrow> rc_geoip rc = []" "gs = None \<longrightarrow> rc_geosite rc = []"
    using need_geo_ok [OF g(1)] need_geo_ok [OF g(2)] by simp_all
  show "outbound r = rc_outbound rc"
    unfolding r by (simp add: foldl_rule rule_to_def Let_def split: option.splits)
  have "conditions r = map CDomain (rc_domain rc) @ map CCidr cidrs @
      map (\<lambda>p. CPorts (fst p) (snd p)) ports @
      (case gi of None \<Rightarrow> [] | Some db \<Rightarrow> map (CGeoIp db) (rc_geoip rc)) @
      (case gs of None \<Rightarrow> [] | Some db \<Rightarrow> map (CGeoSite db) (rc_geosite rc))"
    unfolding r g' by (cases gi; cases gs) (simp_all add: foldl_rule rule_to_def)
  then have "rule_matches r t \<longleftrightarrow>
      list_ex (\<lambda>m. condition_matches (CDomain m) t) (rc_domain rc) \<or>
      list_ex (\<lambda>c. condition_matches (CCidr c) t) cidrs \<or>
      list_ex (\<lambda>p. condition_matches (CPorts (fst p) (snd p)) t) ports \<or>
      (case gi of None \<Rightarrow> False | Some db \<Rightarrow> list_ex (\<lambda>c. condition_matches (CGeoIp db c) t) (rc_geoip rc)) \<or>
      (case gs of None \<Rightarrow> False | Some db \<Rightarrow> list_ex (\<lambda>c. condition_matches (CGeoSite db c) t) (rc_geosite rc))"
    by (cases gi; cases gs) (simp_all add: rule_matches_def list_ex_iff ball_Un bex_Un)
  then show "rule_matches r t \<longleftrightarrow> config_matches gi gs rc t"
    unfolding list_ex_results [OF c] list_ex_results [OF p]
    using g'(3,4)
    by (cases "address t"; cases gi; cases gs)
       (simp_all add: config_matches_def condition_matches_def list_ex_iff case_prod_beta' disj_ac
         cong del: sum.case_cong_weak)
qed

lemma find_results:
  "\<lbrakk>list_all2 (\<lambda>x y. f x = Inr y) xs ys; \<And>x y. f x = Inr y \<Longrightarrow> Q y = P x\<rbrakk> \<Longrightarrow>
   (find P xs = None \<and> find Q ys = None) \<or>
   (\<exists>x y. find P xs = Some x \<and> find Q ys = Some y \<and> f x = Inr y)"
  by (induction rule: list_all2_induct) auto

section \<open>Properties\<close>

text \<open>
  C6.  The router is a first-match table faithful to its configuration: when a
  configuration builds, the tag of a target is the outbound of the first configured
  rule that has a condition matching it (domain, CIDR, port range or geo code), and the
  configured default when there is none.
\<close>

theorem router_first_match:
  assumes "build_with_geo cfg gi gs = Inr r"
  shows "route r t =
    (case find (\<lambda>rc. config_matches gi gs rc t) (cfg_rules cfg) of
       Some rc \<Rightarrow> rc_outbound rc
     | None \<Rightarrow> cfg_default cfg)"
proof -
  obtain rs where rs: "list_all2 (\<lambda>rc r. build_rule gi gs rc = Inr r) (cfg_rules cfg) rs"
      and r: "r = foldl with_rule (router_new (cfg_default cfg)) rs"
    using assms by (auto simp: build_with_geo_def rbind_eq_Inr_iff collect_results_Inr)
  have "route r t = (case find (\<lambda>r. rule_matches r t) rs of None \<Rightarrow> cfg_default cfg | Some r \<Rightarrow> outbound r)"
    by (simp add: route_def r foldl_with_rule router_new_def route_rules_find)
  then show ?thesis
    using find_results [OF rs, of "\<lambda>r. rule_matches r t" "\<lambda>rc. config_matches gi gs rc t"]
      build_rule_ok [of gi gs] by fastforce
qed

theorem router_first_match_witness:
  "route (foldl with_rule (router_new [102])
      [\<lparr>conditions = [CDomain (Suffix [97])], outbound = [98]\<rparr>]) \<lparr>address = Domain [120, 46, 65], port = 80\<rparr> =
   (case find (\<lambda>rc. config_matches None None rc \<lparr>address = Domain [120, 46, 65], port = 80\<rparr>)
      (cfg_rules \<lparr>cfg_default = [102], cfg_rules = [\<lparr>rc_domain = [Suffix [97]], rc_ip = [], rc_port = [],
         rc_geoip = [], rc_geosite = [], rc_outbound = [98]\<rparr>]\<rparr>) of
     Some rc \<Rightarrow> rc_outbound rc
   | None \<Rightarrow> cfg_default \<lparr>cfg_default = [102], cfg_rules = [\<lparr>rc_domain = [Suffix [97]], rc_ip = [], rc_port = [],
         rc_geoip = [], rc_geosite = [], rc_outbound = [98]\<rparr>]\<rparr>)"
  by (rule router_first_match)
     (simp add: build_with_geo_def build_rule_def need_geo_def rule_domain_def rule_to_def)

text \<open>
  Range tests: the router's CIDR test and the geo database's agree on every network,
  prefix and address, and both hold exactly when the families agree and the leading
  prefix bits of network and address are equal.
\<close>

lemma cidr_tests_agree:
  "(cidr_contains \<lparr>net = n, pfx_len = p\<rparr> ip \<longleftrightarrow> in_prefix n (unat p) ip) \<and>
   (geo_cidr_contains \<lparr>gc_net = n, gc_prefix = p\<rparr> ip \<longleftrightarrow> cidr_contains \<lparr>net = n, pfx_len = p\<rparr> ip)"
  by (simp add: cidr.contains_iff geo_cidr.contains_iff)

text \<open>
  A parsed CIDR contains its own network address, and shortening the prefix of any
  range only enlarges it.
\<close>

lemma parsed_cidr_sound:
  assumes "cidr_from_str s = Inr c"
  shows "cidr_contains c (net c) \<and>
    (\<forall>q ip. unat q \<le> unat (pfx_len c) \<and> cidr_contains c ip \<longrightarrow>
       cidr_contains \<lparr>net = net c, pfx_len = q\<rparr> ip)"
proof -
  have eta: "\<lparr>net = net c, pfx_len = pfx_len c\<rparr> = c"
    by simp
  have "unat (pfx_len c) \<le> ip_bits (net c)"
    using assms
    by (auto simp: cidr_from_str_def rbind_eq_Inr_iff ip_bits_def Let_def not_less word_le_nat_alt
        split: if_splits IpAddr.splits)
  then show ?thesis
    using cidr.contains_net [of "pfx_len c" "net c"] cidr.contains_shorter [of "net c" "pfx_len c"]
    unfolding eta by blast
qed

end
