(* ===== verification/Async_Io.thy ===== *)
theory Async_Io
  imports Std_Text
begin

text \<open>
  The sockets the handlers read from and write to.  A stream holds the chunks its peer
  will deliver, in the sizes they arrive in, what the stream yields when they are used up
  (end of file or an error), the bytes written so far and how many more the peer takes
  before writing breaks.  The operations are those of \<^verbatim>\<open>tokio::io\<close>: \<open>read_exact\<close>, \<open>read\<close>
  and \<open>write_all\<close>; a handler is a function from a state to a result and a state, and
  \<open>abind\<close> is \<^verbatim>\<open>?\<close>.

  A program built from \<open>read_exact\<close> and \<open>write_all\<close> does not depend on how its input is
  cut into chunks: \<open>chunk_inv\<close> and its closure rules.
\<close>

section \<open>Programs\<close>

declare concat_eq_Nil_conv [simp del] Nil_eq_concat_conv [simp del]

type_synonym ('s, 'e, 'a) act = "'s \<Rightarrow> ('e + 'a) \<times> 's"

definition aret :: "'a \<Rightarrow> ('s, 'e, 'a) act" where
  "aret x s = (Inr x, s)"

definition afail :: "'e \<Rightarrow> ('s, 'e, 'a) act" where
  "afail e s = (Inl e, s)"

definition abind :: "('s, 'e, 'a) act \<Rightarrow> ('a \<Rightarrow> ('s, 'e, 'b) act) \<Rightarrow> ('s, 'e, 'b) act" where
  "abind m f s = (case m s of (Inl e, s') \<Rightarrow> (Inl e, s') | (Inr x, s') \<Rightarrow> f x s')"

text \<open>\<^verbatim>\<open>map_err\<close>/\<^verbatim>\<open>From\<close> on the error of a program, and \<^verbatim>\<open>.ok()\<close>, which drops it.\<close>

definition aerr :: "('e \<Rightarrow> 'f) \<Rightarrow> ('s, 'e, 'a) act \<Rightarrow> ('s, 'f, 'a) act" where
  "aerr g m s = (case m s of (r, s') \<Rightarrow> (map_err g r, s'))"

definition aok :: "('s, 'e, 'a) act \<Rightarrow> ('s, 'f, 'a option) act" where
  "aok m s = (case m s of (Inl _, s') \<Rightarrow> (Inr None, s') | (Inr x, s') \<Rightarrow> (Inr (Some x), s'))"

definition alift :: "'e + 'a \<Rightarrow> ('s, 'e, 'a) act" where
  "alift r s = (r, s)"

section \<open>Streams\<close>

datatype ErrorKind =
    UnexpectedEof | BrokenPipe | ConnectionReset | ConnectionAborted | ConnectionRefused
  | NotConnected | TimedOut | WriteZero | InvalidData | InvalidInput | Unsupported | NotFound | OtherKind

record TcpStream =
  rx :: "bytes list"
  rx_end :: "ErrorKind option"
  tx :: bytes
  tx_room :: "nat option"

fun take_chunks :: "nat \<Rightarrow> bytes list \<Rightarrow> (bytes \<times> bytes list) option" where
  "take_chunks n [] = (if n = 0 then Some ([], []) else None)"
| "take_chunks n (c # cs) =
    (if n \<le> length c then Some (take n c, drop n c # cs)
     else map_option (\<lambda>(bs, r). (c @ bs, r)) (take_chunks (n - length c) cs))"

definition read_exact :: "nat \<Rightarrow> ('a TcpStream_scheme, ErrorKind, bytes) act" where
  "read_exact n s =
    (case take_chunks n (rx s) of
       Some (bs, cs) \<Rightarrow> (Inr bs, s\<lparr>rx := cs\<rparr>)
     | None \<Rightarrow>
         (Inl (case rx_end s of None \<Rightarrow> UnexpectedEof | Some e \<Rightarrow> e), s\<lparr>rx := []\<rparr>))"

text \<open>One \<^verbatim>\<open>read\<close> into a buffer of \<open>n\<close> bytes: what has arrived, and nothing at the end.\<close>

fun read_chunk :: "nat \<Rightarrow> bytes list \<Rightarrow> bytes \<times> bytes list" where
  "read_chunk n [] = ([], [])"
| "read_chunk n (c # cs) = (if c = [] then read_chunk n cs else (take n c, drop n c # cs))"

definition read_some :: "nat \<Rightarrow> ('a TcpStream_scheme, ErrorKind, bytes) act" where
  "read_some n s =
    (let (bs, cs) = read_chunk n (rx s) in
     case (cs, rx_end s) of
       ([], Some e) \<Rightarrow> (Inl e, s\<lparr>rx := []\<rparr>)
     | _ \<Rightarrow> (Inr bs, s\<lparr>rx := cs\<rparr>))"

definition write_all :: "bytes \<Rightarrow> ('a TcpStream_scheme, ErrorKind, unit) act" where
  "write_all bs s =
    (case tx_room s of
       None \<Rightarrow> (Inr (), s\<lparr>tx := tx s @ bs\<rparr>)
     | Some r \<Rightarrow>
         if length bs \<le> r then (Inr (), s\<lparr>tx := tx s @ bs, tx_room := Some (r - length bs)\<rparr>)
         else (Inl BrokenPipe, s\<lparr>tx := tx s @ take r bs, tx_room := Some 0\<rparr>))"

section \<open>Lemmas\<close>

lemma act_simps [simp]:
  "aret x s = (Inr x, s)" "afail e s = (Inl e, s)" "alift r s = (r, s)"
  by (simp_all add: aret_def afail_def alift_def)

lemma abind_run:
  "m s = (Inl e, s') \<Longrightarrow> abind m f s = (Inl e, s')"
  "m s = (Inr x, s') \<Longrightarrow> abind m f s = f x s'"
  by (simp_all add: abind_def)

lemma abind_ret [simp]: "abind (aret x) f = f x" "abind (afail e) f = afail e"
  by (rule ext, simp add: abind_def)+

lemma abind_Inr:
  "fst (abind m f s) = Inr y \<longleftrightarrow> (\<exists>x s'. m s = (Inr x, s') \<and> fst (f x s') = Inr y)"
  by (auto simp: abind_def split: prod.splits sum.splits)

lemma abind_eq_Inr:
  "abind m f s = (Inr y, s'') \<longleftrightarrow> (\<exists>x s'. m s = (Inr x, s') \<and> f x s' = (Inr y, s''))"
  by (auto simp: abind_def split: prod.splits sum.splits)

lemma abind_eq_Inl:
  "abind m f s = (Inl e, s'') \<longleftrightarrow>
    m s = (Inl e, s'') \<or> (\<exists>x s'. m s = (Inr x, s') \<and> f x s' = (Inl e, s''))"
  by (auto simp: abind_def split: prod.splits sum.splits)

lemma aerr_eq_Inl: "aerr g m s = (Inl e, s') \<longleftrightarrow> (\<exists>k. e = g k \<and> m s = (Inl k, s'))"
  by (auto simp: aerr_def map_err_def split: prod.splits sum.splits)

lemma aerr_eq_Inr [simp]: "aerr g m s = (Inr y, s') \<longleftrightarrow> m s = (Inr y, s')"
  by (auto simp: aerr_def split: prod.splits)

lemma alift_eq_Inr: "alift r s = (Inr y, s') \<longleftrightarrow> r = Inr y \<and> s' = s"
  by (auto simp: alift_def)

lemma take_chunks_Some:
  "n \<le> length (concat cs) \<Longrightarrow>
   \<exists>r. take_chunks n cs = Some (take n (concat cs), r) \<and> concat r = drop n (concat cs)"
proof (induction cs arbitrary: n)
  case (Cons c cs)
  then show ?case
    using Cons.IH [of "n - length c"] by (cases "n \<le> length c") auto
qed auto

lemma take_chunks_None: "length (concat cs) < n \<Longrightarrow> take_chunks n cs = None"
  by (induction cs arbitrary: n) auto

section \<open>Chunk invariance\<close>

text \<open>Two streams that differ only in where their input is cut.\<close>

definition same_flow :: "'a TcpStream_scheme \<Rightarrow> 'a TcpStream_scheme \<Rightarrow> bool" where
  "same_flow s t \<longleftrightarrow> concat (rx s) = concat (rx t) \<and> s\<lparr>rx := []\<rparr> = t\<lparr>rx := []\<rparr>"

definition chunk_inv :: "('a TcpStream_scheme, 'e, 'b) act \<Rightarrow> bool" where
  "chunk_inv m \<longleftrightarrow>
    (\<forall>s t. same_flow s t \<longrightarrow> fst (m s) = fst (m t) \<and> same_flow (snd (m s)) (snd (m t)))"

definition glue :: "'a TcpStream_scheme \<Rightarrow> 'a TcpStream_scheme" where
  "glue s = s\<lparr>rx := [concat (rx s)]\<rparr>"

named_theorems chunk_intros \<open>programs that do not see chunk boundaries\<close>

lemma same_flow_glue [simp]: "same_flow s (glue s)"
  by (simp add: same_flow_def glue_def)

lemma same_flow_fields:
  "same_flow s t \<Longrightarrow> rx_end s = rx_end t \<and> tx s = tx t \<and> tx_room s = tx_room t \<and>
    concat (rx s) = concat (rx t)"
proof -
  assume "same_flow s t"
  then have eq: "s\<lparr>rx := []\<rparr> = t\<lparr>rx := []\<rparr>" and c: "concat (rx s) = concat (rx t)"
    by (simp_all add: same_flow_def)
  have "rx_end (s\<lparr>rx := []\<rparr>) = rx_end (t\<lparr>rx := []\<rparr>)" "tx (s\<lparr>rx := []\<rparr>) = tx (t\<lparr>rx := []\<rparr>)"
    "tx_room (s\<lparr>rx := []\<rparr>) = tx_room (t\<lparr>rx := []\<rparr>)"
    by (simp_all only: eq)
  with c show ?thesis
    by simp
qed

lemma chunk_inv_ret [chunk_intros]: "chunk_inv (aret x)" "chunk_inv (afail e)" "chunk_inv (alift r)"
  by (simp_all add: chunk_inv_def)

lemma chunk_inv_bind [chunk_intros]:
  assumes "chunk_inv m" and "\<And>x. chunk_inv (f x)"
  shows "chunk_inv (abind m f)"
  unfolding chunk_inv_def
proof (intro allI impI)
  fix s t :: "'a TcpStream_scheme"
  assume "same_flow s t"
  then have "fst (m s) = fst (m t)" "same_flow (snd (m s)) (snd (m t))"
    using assms(1) by (auto simp: chunk_inv_def)
  then show "fst (abind m f s) = fst (abind m f t) \<and> same_flow (snd (abind m f s)) (snd (abind m f t))"
    using assms(2) by (cases "m s"; cases "m t") (auto simp: abind_def chunk_inv_def split: sum.splits)
qed

lemma chunk_inv_err [chunk_intros]: "chunk_inv m \<Longrightarrow> chunk_inv (aerr g m)"
  by (fastforce simp: chunk_inv_def aerr_def split: prod.splits)

lemma chunk_inv_ok [chunk_intros]: "chunk_inv m \<Longrightarrow> chunk_inv (aok m)"
  by (fastforce simp: chunk_inv_def aok_def split: prod.splits sum.splits)

lemma chunk_inv_if [chunk_intros]:
  "\<lbrakk>chunk_inv m; chunk_inv k\<rbrakk> \<Longrightarrow> chunk_inv (if b then m else k)"
  by simp

lemma chunk_inv_option [chunk_intros]:
  "\<lbrakk>chunk_inv m; \<And>x. chunk_inv (f x)\<rbrakk> \<Longrightarrow> chunk_inv (case v of None \<Rightarrow> m | Some x \<Rightarrow> f x)"
  by (cases v) auto

lemma read_exact_enough:
  "n \<le> length (concat (rx s)) \<Longrightarrow>
   \<exists>r. read_exact n s = (Inr (take n (concat (rx s))), s\<lparr>rx := r\<rparr>) \<and> concat r = drop n (concat (rx s))"
  using take_chunks_Some [of n "rx s"] by (auto simp: read_exact_def)

lemma read_exact_short:
  "length (concat (rx s)) < n \<Longrightarrow>
   read_exact n s = (Inl (case rx_end s of None \<Rightarrow> UnexpectedEof | Some e \<Rightarrow> e), s\<lparr>rx := []\<rparr>)"
  by (simp add: read_exact_def take_chunks_None)

lemma same_flow_rx: "same_flow s t \<Longrightarrow> concat a = concat b \<Longrightarrow> same_flow (s\<lparr>rx := a\<rparr>) (t\<lparr>rx := b\<rparr>)"
  by (simp add: same_flow_def)

lemma chunk_inv_read [chunk_intros]: "chunk_inv (read_exact n)"
  unfolding chunk_inv_def
proof (intro allI impI)
  fix s t :: "'a TcpStream_scheme"
  assume st: "same_flow s t"
  note f = same_flow_fields [OF st]
  show "fst (read_exact n s) = fst (read_exact n t) \<and>
      same_flow (snd (read_exact n s)) (snd (read_exact n t))"
  proof (cases "n \<le> length (concat (rx s))")
    case True
    with f obtain r r' where "read_exact n s = (Inr (take n (concat (rx s))), s\<lparr>rx := r\<rparr>)"
        "read_exact n t = (Inr (take n (concat (rx s))), t\<lparr>rx := r'\<rparr>)"
        "concat r = concat r'"
      using read_exact_enough [of n s] read_exact_enough [of n t] by auto
    with same_flow_rx [OF st] show ?thesis
      by simp
  next
    case False
    with f same_flow_rx [OF st] show ?thesis
      by (simp add: read_exact_short)
  qed
qed

lemma chunk_inv_write [chunk_intros]: "chunk_inv (write_all bs)"
proof -
  have upd: "same_flow s t \<Longrightarrow> same_flow (s\<lparr>tx := a, tx_room := b\<rparr>) (t\<lparr>tx := a, tx_room := b\<rparr>)"
    for s t :: "'a TcpStream_scheme" and a b
  proof -
    assume st: "same_flow s t"
    then have "s\<lparr>rx := []\<rparr>\<lparr>tx := a, tx_room := b\<rparr> = t\<lparr>rx := []\<rparr>\<lparr>tx := a, tx_room := b\<rparr>"
      by (simp only: same_flow_def)
    with st show ?thesis
      by (cases s; cases t) (simp add: same_flow_def)
  qed
  have full: "write_all bs s = (let r = (case tx_room s of None \<Rightarrow> length bs | Some r \<Rightarrow> r) in
      (if length bs \<le> r then Inr () else Inl BrokenPipe,
       s\<lparr>tx := tx s @ take r bs,
         tx_room := (case tx_room s of None \<Rightarrow> None | Some r \<Rightarrow> Some (r - length bs))\<rparr>))"
    for s :: "'a TcpStream_scheme"
    by (cases s) (auto simp: write_all_def split: option.splits)
  show ?thesis
    unfolding chunk_inv_def
  proof (intro allI impI)
    fix s t :: "'a TcpStream_scheme"
    assume st: "same_flow s t"
    show "fst (write_all bs s) = fst (write_all bs t) \<and>
        same_flow (snd (write_all bs s)) (snd (write_all bs t))"
      using same_flow_fields [OF st] upd [OF st] by (simp add: full Let_def)
  qed
qed

lemma chunk_inv_glue:
  "chunk_inv m \<Longrightarrow> fst (m s) = fst (m (glue s)) \<and> same_flow (snd (m s)) (snd (m (glue s)))"
  by (simp add: chunk_inv_def)

text \<open>Reads of a stream whose input is one chunk.\<close>

lemma read_exact_one:
  "\<lbrakk>rx s = [xs]; n \<le> length xs\<rbrakk> \<Longrightarrow> read_exact n s = (Inr (take n xs), s\<lparr>rx := [drop n xs]\<rparr>)"
  by (simp add: read_exact_def)

lemma write_all_open: "tx_room s = None \<Longrightarrow> write_all bs s = (Inr (), s\<lparr>tx := tx s @ bs\<rparr>)"
  by (simp add: write_all_def)

lemma read_exact_Inr:
  assumes "read_exact n s = (Inr bs, s')"
  shows "length bs = n" "concat (rx s) = bs @ concat (rx s')" "s'\<lparr>rx := rx s\<rparr> = s"
    "tx s' = tx s" "tx_room s' = tx_room s" "rx_end s' = rx_end s"
  using assms read_exact_enough [of n s] read_exact_short [of s n]
  by (cases "n \<le> length (concat (rx s))"; auto)+

lemma write_all_Inr:
  assumes "write_all bs s = (Inr u, s')"
  shows "tx s' = tx s @ bs" "rx s' = rx s" "rx_end s' = rx_end s"
  using assms by (auto simp: write_all_def split: option.splits if_splits)

lemma read_exact_keeps:
  "read_exact n s = (Inr bs, s') \<Longrightarrow> tx s' = tx s \<and> tx_room s' = tx_room s"
  using read_exact_Inr [of n s bs s'] by simp

lemma write_all_keeps:
  "write_all bs s = (Inr u, s') \<Longrightarrow> tx s' = tx s @ bs \<and> (tx_room s = None \<longrightarrow> tx_room s' = None)"
  by (auto simp: write_all_def split: option.splits if_splits)

lemma aok_no_error [simp]: "aok m s \<noteq> (Inl e, s')"
  by (auto simp: aok_def split: prod.splits sum.splits)

lemma aok_Inr: "aok m s = (Inr x, s') \<Longrightarrow> s' = snd (m s)"
  by (auto simp: aok_def split: prod.splits sum.splits)

lemma read_chunk_spec:
  "read_chunk n cs = (bs, r) \<Longrightarrow>
   concat cs = bs @ concat r \<and> length bs \<le> n \<and> (bs = [] \<and> 0 < n \<longrightarrow> concat cs = [])"
  by (induction n cs rule: read_chunk.induct) (auto split: if_splits)

lemma read_some_Inr:
  assumes "read_some n s = (Inr bs, s')"
  shows "concat (rx s) = bs @ concat (rx s')" "length bs \<le> n" "bs = [] \<Longrightarrow> 0 < n \<Longrightarrow> concat (rx s) = []"
    "tx s' = tx s" "tx_room s' = tx_room s" "rx_end s' = rx_end s"
proof -
  obtain b r where b: "read_chunk n (rx s) = (b, r)"
    by fastforce
  with assms have e: "bs = b" "s' = s\<lparr>rx := r\<rparr>"
    by (auto simp: read_some_def split: list.splits option.splits)
  show "concat (rx s) = bs @ concat (rx s')" "length bs \<le> n"
    "bs = [] \<Longrightarrow> 0 < n \<Longrightarrow> concat (rx s) = []"
    "tx s' = tx s" "tx_room s' = tx_room s" "rx_end s' = rx_end s"
    using read_chunk_spec [OF b] e by auto
qed

lemma read_some_eof: "rx_end s = None \<Longrightarrow> \<exists>bs s'. read_some n s = (Inr bs, s') \<and> rx_end s' = None"
  by (auto simp: read_some_def split: prod.splits list.splits)

lemma read_some_shorter:
  "read_some n rd = (Inr (b # bs), rd') \<Longrightarrow> length (concat (rx rd')) < length (concat (rx rd))"
  using read_some_Inr(1) [of n rd "b # bs" rd'] by simp

lemma read_chunk_nonempty:
  "\<lbrakk>0 < n; concat cs \<noteq> []\<rbrakk> \<Longrightarrow> \<exists>b bs c r. read_chunk n cs = (b # bs, c # r)"
  by (induction n cs rule: read_chunk.induct) (auto simp: neq_Nil_conv gr0_conv_Suc)

lemma read_some_nonempty:
  "\<lbrakk>0 < n; concat (rx s) \<noteq> []\<rbrakk> \<Longrightarrow> \<exists>b bs s'. read_some n s = (Inr (b # bs), s')"
  using read_chunk_nonempty [of n "rx s"] by (auto simp: read_some_def)

end
