(* ===== verification/Dns_Resolver.thy ===== *)
theory Dns_Resolver
  imports Async_Io
begin

text \<open>
  The crate \<^verbatim>\<open>donut-dns\<close>: resolving a host to socket addresses.  The lookup of
  \<^verbatim>\<open>hickory-resolver\<close> is the argument \<open>lookup_ip\<close>, whose error carries no structure here.
\<close>

record SocketAddr =
  sa_ip :: IpAddr
  sa_port :: u16

datatype DnsError = DnsResolve rstr | DnsSystem | NoAddresses rstr

definition resolve ::
    "(rstr \<Rightarrow> IpAddr list option) \<Rightarrow> rstr \<Rightarrow> u16 \<Rightarrow> DnsError + SocketAddr list" where
  "resolve lookup_ip host p =
    (case parse_ip host of
       Some ip \<Rightarrow> Inr [\<lparr>sa_ip = ip, sa_port = p\<rparr>]
     | None \<Rightarrow>
         rbind (ok_or (lookup_ip host) (DnsResolve host)) (\<lambda>ips.
         let addrs = map (\<lambda>ip. \<lparr>sa_ip = ip, sa_port = p\<rparr>) ips in
         if addrs = [] then Inl (NoAddresses host) else Inr addrs))"

definition resolve_one ::
    "(rstr \<Rightarrow> IpAddr list option) \<Rightarrow> rstr \<Rightarrow> u16 \<Rightarrow> DnsError + SocketAddr" where
  "resolve_one lookup_ip host p =
    rbind (resolve lookup_ip host p) (\<lambda>addrs.
    ok_or (case addrs of [] \<Rightarrow> None | a # _ \<Rightarrow> Some a) (NoAddresses host))"

lemma resolve_nonempty: "resolve lk host p \<noteq> Inr []"
  by (auto simp: resolve_def rbind_eq_Inr_iff split: option.splits)

lemma resolve_ports: "resolve lk host p = Inr as \<Longrightarrow> a \<in> set as \<Longrightarrow> sa_port a = p"
  by (auto simp: resolve_def rbind_eq_Inr_iff Let_def split: option.splits if_splits)

lemma resolve_one_hd:
  "resolve_one lk host p = map_sum id hd (resolve lk host p)"
  using resolve_nonempty [of lk host p]
  by (cases "resolve lk host p") (auto simp: resolve_one_def split: list.splits)

section \<open>Properties\<close>

text \<open>
  Resolution: the text of an IPv4 literal resolves to that address without
  consulting the resolver, whatever it would answer; every address returned carries the
  requested port; success always has an address, and \<open>resolve_one\<close> returns the first of
  them or the same error.
\<close>

lemma resolve_correct:
  "resolve lk (show_ipv4 a) p = Inr [\<lparr>sa_ip = V4 a, sa_port = p\<rparr>] \<and>
   (case resolve lk host p of
      Inr as \<Rightarrow> as \<noteq> [] \<and> list_all (\<lambda>x. sa_port x = p) as \<and> resolve_one lk host p = Inr (hd as)
    | Inl e \<Rightarrow> resolve_one lk host p = Inl e \<and> parse_ip host = None)"
proof -
  have "parse_ip host = None" if "resolve lk host p = Inl e" for e
    using that by (auto simp: resolve_def split: option.splits)
  then show ?thesis
    using resolve_nonempty [of lk host p] resolve_ports [of lk host p]
    by (auto simp: resolve_one_hd list_all_iff resolve_def [of lk "show_ipv4 a"] parse_show_ipv4
        split: sum.splits)
qed

end
