(* ===== verification/Socks_Inbound.thy ===== *)
theory Socks_Inbound
  imports Dns_Resolver
begin

text \<open>
  The crate \<^verbatim>\<open>donut-socks\<close>: the SOCKS5 greeting, the CONNECT request and the replies, as
  programs over a stream.
\<close>

section \<open>Handshake\<close>

definition VER :: u8 where "VER = 0x05"
definition RSV :: u8 where "RSV = 0x00"
definition METHOD_NO_AUTH :: u8 where "METHOD_NO_AUTH = 0x00"
definition METHOD_NONE_ACCEPTABLE :: u8 where "METHOD_NONE_ACCEPTABLE = 0xff"
definition CMD_CONNECT :: u8 where "CMD_CONNECT = 0x01"
definition REP_SUCCEEDED :: u8 where "REP_SUCCEEDED = 0x00"
definition REP_GENERAL_FAILURE :: u8 where "REP_GENERAL_FAILURE = 0x01"
definition REP_COMMAND_NOT_SUPPORTED :: u8 where "REP_COMMAND_NOT_SUPPORTED = 0x07"
definition ATYP_IPV4 :: u8 where "ATYP_IPV4 = 0x01"
definition ATYP_DOMAIN :: u8 where "ATYP_DOMAIN = 0x03"
definition ATYP_IPV6 :: u8 where "ATYP_IPV6 = 0x04"

lemmas socks_consts = VER_def RSV_def METHOD_NO_AUTH_def METHOD_NONE_ACCEPTABLE_def
  CMD_CONNECT_def REP_SUCCEEDED_def REP_GENERAL_FAILURE_def REP_COMMAND_NOT_SUPPORTED_def
  ATYP_IPV4_def ATYP_DOMAIN_def ATYP_IPV6_def

datatype SocksError =
    SocksIo ErrorKind
  | BadVersion u8
  | NoAcceptableAuth
  | UnsupportedCommand u8
  | BadAddressType u8
  | BadDomain

text \<open>The pending request is the target; the stream is the state of the program.\<close>

record PendingConnect =
  pc_target :: Endpoint

definition reply_bytes :: "u8 \<Rightarrow> SocketAddr \<Rightarrow> bytes" where
  "reply_bytes rep bound =
    [VER, rep, RSV] @
    (case sa_ip bound of
       V4 a \<Rightarrow> [ATYP_IPV4] @ ipv4_octets a @ be16 (sa_port bound)
     | V6 a \<Rightarrow> [ATYP_IPV6] @ ipv6_octets a @ be16 (sa_port bound))"

definition write_reply :: "u8 \<Rightarrow> SocketAddr \<Rightarrow> (TcpStream, SocksError, unit) act" where
  "write_reply rep bound = aerr SocksIo (write_all (reply_bytes rep bound))"

definition unspecified :: SocketAddr where
  "unspecified = \<lparr>sa_ip = V4 0, sa_port = 0\<rparr>"

definition read_address :: "u8 \<Rightarrow> (TcpStream, SocksError, Address) act" where
  "read_address atyp =
    (if atyp = ATYP_IPV4 then
       abind (aerr SocksIo (read_exact 4)) (\<lambda>buf. aret (Ip (V4 (ipv4_from_octets buf))))
     else if atyp = ATYP_IPV6 then
       abind (aerr SocksIo (read_exact 16)) (\<lambda>buf. aret (Ip (V6 (ipv6_from_octets buf))))
     else if atyp = ATYP_DOMAIN then
       abind (aerr SocksIo (read_exact 1)) (\<lambda>len_byte.
       abind (aerr SocksIo (read_exact (unat (len_byte ! 0)))) (\<lambda>buf.
       if utf8_valid buf then alift (map_err (\<lambda>_. BadDomain) (address_domain buf))
       else afail BadDomain))
     else afail (BadAddressType atyp))"

definition handshake_connect :: "(TcpStream, SocksError, PendingConnect) act" where
  "handshake_connect =
    abind (aerr SocksIo (read_exact 2)) (\<lambda>header.
    if header ! 0 \<noteq> VER then afail (BadVersion (header ! 0)) else
    abind (aerr SocksIo (read_exact (unat (header ! 1)))) (\<lambda>methods.
    if METHOD_NO_AUTH \<notin> set methods then
      abind (aerr SocksIo (write_all [VER, METHOD_NONE_ACCEPTABLE])) (\<lambda>_.
      afail NoAcceptableAuth)
    else
    abind (aerr SocksIo (write_all [VER, METHOD_NO_AUTH])) (\<lambda>_.
    abind (aerr SocksIo (read_exact 4)) (\<lambda>request_head.
    if request_head ! 0 \<noteq> VER then afail (BadVersion (request_head ! 0))
    else if request_head ! 1 \<noteq> CMD_CONNECT then
      abind (aok (write_reply REP_COMMAND_NOT_SUPPORTED unspecified)) (\<lambda>_.
      afail (UnsupportedCommand (request_head ! 1)))
    else
    abind (read_address (request_head ! 3)) (\<lambda>addr.
    abind (aerr SocksIo (read_exact 2)) (\<lambda>port_buf.
    aret \<lparr>pc_target =
      \<lparr>address = addr, port = from_be16 (port_buf ! 0) (port_buf ! 1)\<rparr>\<rparr>))))))"

definition pending_accept :: "SocketAddr \<Rightarrow> (TcpStream, SocksError, unit) act" where
  "pending_accept bound = write_reply REP_SUCCEEDED bound"

definition pending_reject :: "(TcpStream, SocksError, unit) act" where
  "pending_reject = write_reply REP_GENERAL_FAILURE unspecified"

section \<open>What a client sends\<close>

definition client_address :: "Address \<Rightarrow> bytes" where
  "client_address a =
    (case a of
       Ip (V4 v) \<Rightarrow> 1 # ipv4_octets v
     | Ip (V6 v) \<Rightarrow> 4 # ipv6_octets v
     | Domain d \<Rightarrow> 3 # of_nat (length d) # d)"

definition client_hello :: "bytes \<Rightarrow> bytes" where
  "client_hello methods = [5, of_nat (length methods)] @ methods"

definition client_connect :: "u8 \<Rightarrow> Endpoint \<Rightarrow> bytes" where
  "client_connect rsv e = [5, 1, rsv] @ client_address (address e) @ be16 (port e)"

section \<open>Lemmas\<close>

lemma chunk_inv_handshake: "chunk_inv handshake_connect"
  unfolding handshake_connect_def read_address_def write_reply_def
  by (intro chunk_intros)

text \<open>One step of a program that reads from a single chunk.\<close>

lemma read_step:
  "\<lbrakk>rx s = [xs]; n \<le> length xs\<rbrakk> \<Longrightarrow>
   abind (aerr g (read_exact n)) f s = f (take n xs) (s\<lparr>rx := [drop n xs]\<rparr>)"
  by (rule abind_run(2)) (simp add: read_exact_one)

lemma write_step:
  "tx_room s = None \<Longrightarrow> abind (aerr g (write_all bs)) f s = f () (s\<lparr>tx := tx s @ bs\<rparr>)"
  by (rule abind_run(2)) (simp add: write_all_open)

lemma unat_length_u8: "length d \<le> 255 \<Longrightarrow> unat (of_nat (length d) :: u8) = length d"
  by (rule unat_of_nat_u8) simp

lemma read_address_client:
  assumes "address_ok a" and "rx s = [tl (client_address a) @ r]"
  shows "abind (read_address (hd (client_address a))) f s = f a (s\<lparr>rx := [r]\<rparr>)"
proof (cases a)
  case (Ip ip)
  then show ?thesis
    using assms
    by (cases ip) (simp_all add: read_address_def client_address_def socks_consts abind_def aerr_def
        read_exact_one)
next
  case (Domain d)
  with assms have d: "rx s = [of_nat (length d) # d @ r]" "utf8_valid d" "length d \<le> 255"
    "address_domain d = Inr (Domain d)"
    by (simp_all add: client_address_def address_domain_def MAX_DOMAIN_LEN_def)
  then have "unat (of_nat (length d) :: u8) = length d"
    by (simp only: unat_length_u8)
  with Domain d show ?thesis
    by (simp add: read_address_def client_address_def socks_consts abind_def aerr_def read_exact_one)
qed

lemma client_connect_split:
  "client_connect rsv e = [5, 1, rsv, hd (client_address (address e))] @
     tl (client_address (address e)) @ be16 (port e)"
  by (simp add: client_connect_def client_address_def split: Address.splits IpAddr.splits)

lemma handshake_one_chunk:
  assumes "length methods \<le> 255" and "0 \<in> set methods" and "address_ok (address e)"
    and "rx s = [client_hello methods @ client_connect rsv e @ rest]" and "tx_room s = None"
  shows "handshake_connect s = (Inr \<lparr>pc_target = e\<rparr>, s\<lparr>rx := [rest], tx := tx s @ [5, 0]\<rparr>)"
proof -
  have rx: "rx s = [[5, of_nat (length methods)] @ methods @
      [5, 1, rsv, hd (client_address (address e))] @ tl (client_address (address e)) @
      be16 (port e) @ rest]"
    using assms(4) by (simp add: client_hello_def client_connect_split)
  have len: "unat (of_nat (length methods) :: u8) = length methods"
    using assms(1) by (rule unat_length_u8)
  show ?thesis
    unfolding handshake_connect_def
    using assms(2,3,5)
    by (simp add: read_step [OF rx] read_step write_step len socks_consts read_address_client be16_def)
qed

lemma same_flow_obs: "same_flow s t \<Longrightarrow> concat (rx s) = concat (rx t) \<and> tx s = tx t"
  using same_flow_fields by blast

lemma read_io_Inr:
  assumes "aerr g (read_exact n) s = (Inr bs, s')"
  shows "length bs = n \<and> concat (rx s) = bs @ concat (rx s') \<and> tx s' = tx s \<and> tx_room s' = tx_room s"
  using assms read_exact_Inr by auto

lemma write_io_Inr:
  assumes "aerr g (write_all bs) s = (Inr u, s')"
  shows "concat (rx s') = concat (rx s) \<and> tx s' = tx s @ bs"
  using assms write_all_Inr [of bs s u s'] by simp

lemma list_of_two: "length xs = 2 \<Longrightarrow> \<exists>x y. xs = [x, y]"
  by (auto simp: length_Suc_conv numeral_2_eq_2)

lemma read_address_Inr:
  assumes "read_address atyp s = (Inr a, s')"
  shows "address_ok a \<and> tx s' = tx s \<and>
    atyp # concat (rx s) = client_address a @ concat (rx s')"
proof -
  consider (v4) buf where "atyp = 1" "aerr SocksIo (read_exact 4) s = (Inr buf, s')"
      "a = Ip (V4 (ipv4_from_octets buf))"
    | (v6) buf where "atyp = 4" "aerr SocksIo (read_exact 16) s = (Inr buf, s')"
      "a = Ip (V6 (ipv6_from_octets buf))"
    | (dom) l t buf where "atyp = 3" "aerr SocksIo (read_exact 1) s = (Inr l, t)"
      "aerr SocksIo (read_exact (unat (l ! 0))) t = (Inr buf, s')" "utf8_valid buf"
      "address_domain buf = Inr a"
    using assms
    by (auto simp: read_address_def abind_eq_Inr socks_consts simp del: aerr_eq_Inr
        split: if_splits)
  then show ?thesis
  proof cases
    case v4
    then show ?thesis
      using read_io_Inr [OF v4(2)] by (simp add: client_address_def)
  next
    case v6
    then show ?thesis
      using read_io_Inr [OF v6(2)] by (simp add: client_address_def)
  next
    case dom
    note l = read_io_Inr [OF dom(2)] and b = read_io_Inr [OF dom(3)]
    obtain x where x: "l = [x]"
      using l by (cases l) auto
    with b have "of_nat (length buf) = x"
      by simp
    with x l b dom show ?thesis
      by (auto simp: client_address_def address_domain_ok)
  qed
qed

lemma read_address_errors:
  "read_address atyp s \<noteq> (Inl NoAcceptableAuth, s')" "read_address atyp s \<noteq> (Inl (UnsupportedCommand c), s')"
  by (auto simp: read_address_def abind_eq_Inl aerr_eq_Inl map_err_def split: if_splits sum.splits)

lemma write_io_open:
  "tx_room s = None \<Longrightarrow> aerr g (write_all bs) s = (Inr (), s\<lparr>tx := tx s @ bs\<rparr>)"
  by (simp add: aerr_def write_all_open)

lemma no_auth_reply:
  "\<lbrakk>handshake_connect s = (Inl NoAcceptableAuth, s'); tx_room s = None\<rbrakk> \<Longrightarrow> tx s' = tx s @ [5, 0xff]"
  by (auto simp: handshake_connect_def abind_eq_Inl aerr_eq_Inl read_address_errors socks_consts
      split: if_splits dest!: read_exact_keeps write_all_keeps)

lemma unsupported_reply:
  "\<lbrakk>handshake_connect s = (Inl (UnsupportedCommand c), s'); tx_room s = None\<rbrakk> \<Longrightarrow>
   c \<noteq> 1 \<and> tx s' = tx s @ [5, 0] @ reply_bytes 7 unspecified"
  by (auto simp: handshake_connect_def abind_eq_Inl aerr_eq_Inl read_address_errors socks_consts
      write_reply_def write_io_open split: if_splits
      dest!: read_exact_keeps write_all_keeps aok_Inr)

section \<open>Properties\<close>

text \<open>
  C8.  The SOCKS handshake completes: a client that offers no authentication and asks to
  CONNECT to a well-formed target is answered with the method selection, the target read
  is the one sent, and the bytes after the request are left unread, however the bytes
  were cut into segments and whatever the reserved byte is.
\<close>

theorem socks_handshake_complete:
  assumes "length methods \<le> 255" and "0 \<in> set methods" and "address_ok (address e)"
    and "concat (rx s) = client_hello methods @ client_connect rsv e @ rest" and "tx_room s = None"
  shows "fst (handshake_connect s) = Inr \<lparr>pc_target = e\<rparr> \<and>
    concat (rx (snd (handshake_connect s))) = rest \<and> tx (snd (handshake_connect s)) = tx s @ [5, 0]"
proof -
  have one: "handshake_connect (glue s) =
      (Inr \<lparr>pc_target = e\<rparr>, (glue s)\<lparr>rx := [rest], tx := tx (glue s) @ [5, 0]\<rparr>)"
    by (rule handshake_one_chunk [OF assms(1-3)]) (simp_all add: glue_def assms(4,5))
  show ?thesis
    using chunk_inv_glue [OF chunk_inv_handshake, of s] one
      same_flow_obs [of "snd (handshake_connect s)" "snd (handshake_connect (glue s))"]
    by (simp add: glue_def)
qed

theorem socks_handshake_complete_witness:
  "fst (handshake_connect \<lparr>rx = [[5], [1, 0, 5, 1, 0], [3, 1, 97, 1], [187, 9]], rx_end = None, tx = [],
      tx_room = None\<rparr>) = Inr \<lparr>pc_target = \<lparr>address = Domain [97], port = 443\<rparr>\<rparr> \<and>
   concat (rx (snd (handshake_connect \<lparr>rx = [[5], [1, 0, 5, 1, 0], [3, 1, 97, 1], [187, 9]],
      rx_end = None, tx = [], tx_room = None\<rparr>))) = [9] \<and>
   tx (snd (handshake_connect \<lparr>rx = [[5], [1, 0, 5, 1, 0], [3, 1, 97, 1], [187, 9]],
      rx_end = None, tx = [], tx_room = None\<rparr>)) = [5, 0]"
  using socks_handshake_complete [of "[0]" "\<lparr>address = Domain [97], port = 443\<rparr>"
      "\<lparr>rx = [[5], [1, 0, 5, 1, 0], [3, 1, 97, 1], [187, 9]], rx_end = None, tx = [], tx_room = None\<rparr>"
      0 "[9]"]
  by (simp add: client_hello_def client_connect_def client_address_def be16_def MAX_DOMAIN_LEN_def)

text \<open>
  C9.  No other bytes pass as a SOCKS request: when the handshake returns a target, the
  client sent a greeting offering no authentication followed by the CONNECT request for
  exactly that target, the target is well formed, the reply so far is the method
  selection alone, and nothing beyond the request was consumed.
\<close>

theorem socks_handshake_sound:
  assumes "handshake_connect s = (Inr p, s')"
  shows "\<exists>methods rsv. concat (rx s) =
      client_hello methods @ client_connect rsv (pc_target p) @ concat (rx s') \<and>
    0 \<in> set methods \<and> address_ok (address (pc_target p)) \<and> tx s' = tx s @ [5, 0]"
proof -
  obtain h s1 m s2 s3 u rh s4 a s5 pb s6 where
    r: "aerr SocksIo (read_exact 2) s = (Inr h, s1)"
      "aerr SocksIo (read_exact (unat (h ! 1))) s1 = (Inr m, s2)"
      "aerr SocksIo (write_all [VER, METHOD_NO_AUTH]) s2 = (Inr u, s3)"
      "aerr SocksIo (read_exact 4) s3 = (Inr rh, s4)"
      "read_address (rh ! 3) s4 = (Inr a, s5)"
      "aerr SocksIo (read_exact 2) s5 = (Inr pb, s6)"
    and c: "h ! 0 = 5" "0 \<in> set m" "rh ! 0 = 5" "rh ! 1 = 1"
    and p: "p = \<lparr>pc_target = \<lparr>address = a, port = from_be16 (pb ! 0) (pb ! 1)\<rparr>\<rparr>" "s' = s6"
    using assms
    by (clarsimp simp: handshake_connect_def abind_eq_Inr socks_consts simp del: aerr_eq_Inr
        split: if_splits)
  note f = read_io_Inr [OF r(1)] read_io_Inr [OF r(2)] write_io_Inr [OF r(3)] read_io_Inr [OF r(4)]
    read_address_Inr [OF r(5)] read_io_Inr [OF r(6)]
  obtain n where h: "h = [5, n]"
    using f(1) c(1) list_of_two [of h] by auto
  then have n: "of_nat (length m) = n"
    using f(2) by simp
  obtain x y where rh: "rh = [5, 1, x, y]"
    using f(4) c(3,4) list_of_four [of rh] by auto
  obtain z w where pb: "pb = [z, w]"
    using f(6) list_of_two [of pb] by blast
  have "concat (rx s) = client_hello m @ [5, 1, x] @ y # concat (rx s4)"
    using f(1,3,4) f(2) [THEN conjunct2] by (simp add: client_hello_def h n rh)
  moreover have "y # concat (rx s4) = client_address a @ be16 (port (pc_target p)) @ concat (rx s')"
    using f(5,6) by (simp add: rh pb p)
  ultimately show ?thesis
    using f c p by (intro exI [of _ m] exI [of _ x])
      (simp add: client_connect_def socks_consts)
qed

theorem socks_handshake_sound_witness:
  "\<exists>s s' p. handshake_connect s = (Inr p, s') \<and>
    (\<exists>methods rsv. concat (rx s) =
      client_hello methods @ client_connect rsv (pc_target p) @ concat (rx s') \<and>
      0 \<in> set methods \<and> address_ok (address (pc_target p)) \<and> tx s' = tx s @ [5, 0])"
proof -
  let ?s = "\<lparr>rx = [[5, 1, 0, 5, 1, 0], [1, 10, 0, 0, 1, 0, 80]], rx_end = None, tx = [], tx_room = None\<rparr>"
  have "handshake_connect ?s = (Inr \<lparr>pc_target = \<lparr>address = Ip (V4 0x0a000001), port = 80\<rparr>\<rparr>,
      \<lparr>rx = [[]], rx_end = None, tx = [5, 0], tx_room = None\<rparr>)"
    by (simp add: handshake_connect_def read_address_def abind_def aerr_def read_exact_def write_all_def
        socks_consts ipv4_from_octets_def be_nat_def from_be16_def)
  from this socks_handshake_sound [OF this] show ?thesis
    by blast
qed

text \<open>
  Every refusal is answered as the protocol asks, on a stream that can be written
  to: without an acceptable method the client gets \<^verbatim>\<open>05 FF\<close>; a command other than CONNECT
  gets a reply with code 7 after the method selection; \<open>accept\<close> and \<open>reject\<close> send a reply
  carrying the bound address with codes 0 and 1.
\<close>

lemma socks_replies:
  assumes "tx_room s = None"
  shows "(fst (handshake_connect s) = Inl NoAcceptableAuth \<longrightarrow>
        tx (snd (handshake_connect s)) = tx s @ [5, 0xff]) \<and>
    (\<forall>c. fst (handshake_connect s) = Inl (UnsupportedCommand c) \<longrightarrow>
        c \<noteq> 1 \<and> tx (snd (handshake_connect s)) =
          tx s @ [5, 0] @ [5, 7, 0, 1] @ ipv4_octets 0 @ [0, 0]) \<and>
    pending_accept \<lparr>sa_ip = V4 a, sa_port = p\<rparr> s =
      (Inr (), s\<lparr>tx := tx s @ [5, 0, 0, 1] @ ipv4_octets a @ be16 p\<rparr>) \<and>
    pending_accept \<lparr>sa_ip = V6 b, sa_port = p\<rparr> s =
      (Inr (), s\<lparr>tx := tx s @ [5, 0, 0, 4] @ ipv6_octets b @ be16 p\<rparr>) \<and>
    pending_reject s = (Inr (), s\<lparr>tx := tx s @ [5, 1, 0, 1] @ ipv4_octets 0 @ [0, 0]\<rparr>)"
  using assms no_auth_reply [of s] unsupported_reply [of s]
  by (cases "handshake_connect s")
     (auto simp: pending_accept_def pending_reject_def write_reply_def write_io_open reply_bytes_def
       socks_consts unspecified_def be16_def)

end
