(* ===== verification/Fragmentation.thy ===== *)
theory Fragmentation
  imports Async_Io
begin

text \<open>
  \<^verbatim>\<open>donut-server/src/fragment.rs\<close>: reading the first TLS record of a stream, re-emitting a
  ClientHello as several smaller records, and the write adapter that does so to whatever
  is written through it first.  Random draws are a function from the draw's index;
  \<open>Panicked\<close> is the arithmetic panic of \<open>pick\<close> on the full 32-bit range.
\<close>

section \<open>Parameters and slices\<close>

record FragmentParams =
  fr_len :: "u32 \<times> u32"
  fr_interval_ms :: "u32 \<times> u32"

datatype FragError = Panicked | FragIo ErrorKind

definition pick :: "u32 \<times> u32 \<Rightarrow> u32 \<Rightarrow> u32 option" where
  "pick rg draw =
    (let (lo, hi) = rg in
     if lo \<ge> hi then Some lo
     else if hi - lo + 1 = 0 then None
     else Some (lo + draw mod (hi - lo + 1)))"

definition chunk_size :: "u32 \<Rightarrow> bytes \<Rightarrow> nat" where
  "chunk_size c payload = max 1 (min (length payload) (unat c))"

definition fragment_header :: "u8 \<Rightarrow> u8 \<Rightarrow> bytes \<Rightarrow> bytes" where
  "fragment_header v0 v1 frag =
    [0x16, v0, v1, of_nat (length frag div 256), of_nat (length frag mod 256)]"

definition is_client_hello :: "bytes \<Rightarrow> bool" where
  "is_client_hello record \<longleftrightarrow> length record \<ge> 6 \<and> record ! 0 = 0x16 \<and> record ! 5 = 0x01"

function fragment_loop ::
    "FragmentParams \<Rightarrow> (nat \<Rightarrow> u32) \<Rightarrow> nat \<Rightarrow> u8 \<Rightarrow> u8 \<Rightarrow> bytes \<Rightarrow> bytes option" where
  "fragment_loop p draws i v0 v1 payload =
    (if payload = [] then Some []
     else case pick (fr_len p) (draws i) of
       None \<Rightarrow> None
     | Some c \<Rightarrow>
         let k = chunk_size c payload; frag = take k payload in
         map_option (\<lambda>out. fragment_header v0 v1 frag @ frag @ out)
           (fragment_loop p draws (Suc i) v0 v1 (drop k payload)))"
  by pat_completeness auto
termination
  by (relation "measure (\<lambda>(p, d, i, v0, v1, payload). length payload)")
     (auto simp: chunk_size_def)

definition fragment_clienthello_to_vec ::
    "bytes \<Rightarrow> FragmentParams \<Rightarrow> (nat \<Rightarrow> u32) \<Rightarrow> bytes option" where
  "fragment_clienthello_to_vec record p draws =
    (if \<not> is_client_hello record then Some record
     else fragment_loop p draws 0 (record ! 1) (record ! 2) (drop 5 record))"

section \<open>Reading the first record, writing it in fragments\<close>

record PacedStream = TcpStream +
  pauses :: "u32 list"

text \<open>The accumulation loop: stops at \<open>n\<close> bytes or at a read of zero bytes.\<close>

function read_at_least ::
    "nat \<Rightarrow> nat \<Rightarrow> bytes \<Rightarrow> 'a TcpStream_scheme \<Rightarrow> (ErrorKind + bytes) \<times> 'a TcpStream_scheme" where
  "read_at_least cap n buf s =
    (if length buf \<ge> n then (Inr buf, s)
     else case read_some cap s of
       (Inl e, s') \<Rightarrow> (Inl e, s')
     | (Inr bs, s') \<Rightarrow> if bs = [] then (Inr buf, s') else read_at_least cap n (buf @ bs) s')"
  by pat_completeness auto
termination
  by (relation "measure (\<lambda>(cap, n, buf, s). n - length buf)") (auto intro!: diff_less_mono2)

definition read_first_record :: "bytes \<Rightarrow> ('a TcpStream_scheme, ErrorKind, bytes \<times> bytes) act" where
  "read_first_record pre =
    abind (read_at_least 2048 5 pre) (\<lambda>buf.
    if length buf < 5 then aret (buf, [])
    else
      let total = 5 + unat (from_be16 (buf ! 3) (buf ! 4)) in
      abind (read_at_least 4096 total buf) (\<lambda>buf.
      if length buf > total then aret (take total buf, drop total buf) else aret (buf, [])))"

definition sleep :: "u32 \<Rightarrow> (PacedStream, 'e, unit) act" where
  "sleep ms s = (Inr (), s\<lparr>pauses := pauses s @ [ms]\<rparr>)"

function write_loop ::
    "FragmentParams \<Rightarrow> (nat \<Rightarrow> u32) \<Rightarrow> nat \<Rightarrow> u8 \<Rightarrow> u8 \<Rightarrow> bytes \<Rightarrow> (PacedStream, FragError, unit) act" where
  "write_loop p draws i v0 v1 payload =
    (if payload = [] then aret ()
     else case pick (fr_len p) (draws i) of
       None \<Rightarrow> afail Panicked
     | Some c \<Rightarrow>
         let k = chunk_size c payload; frag = take k payload; rest = drop k payload in
         abind (aerr FragIo (write_all (fragment_header v0 v1 frag))) (\<lambda>_.
         abind (aerr FragIo (write_all frag)) (\<lambda>_.
         if rest = [] then aret ()
         else case pick (fr_interval_ms p) (draws (Suc i)) of
           None \<Rightarrow> afail Panicked
         | Some d \<Rightarrow>
             abind (if d > 0 then sleep d else aret ()) (\<lambda>_.
             write_loop p draws (Suc (Suc i)) v0 v1 rest))))"
  by pat_completeness auto
termination
  by (relation "measure (\<lambda>(p, d, i, v0, v1, payload). length payload)")
     (auto simp: chunk_size_def)

definition write_fragmented ::
    "bytes \<Rightarrow> FragmentParams \<Rightarrow> (nat \<Rightarrow> u32) \<Rightarrow> (PacedStream, FragError, unit) act" where
  "write_fragmented record p draws =
    (if \<not> is_client_hello record then aerr FragIo (write_all record)
     else write_loop p draws 0 (record ! 1) (record ! 2) (drop 5 record))"

declare fragment_loop.simps [simp del] read_at_least.simps [simp del] write_loop.simps [simp del]

section \<open>The adapter\<close>

datatype 'a Poll = Pending | Ready 'a

text \<open>
  The wrapped writer: what it has taken, and how it answers the coming calls.  A call
  beyond the script takes everything.
\<close>

record Inner =
  in_bytes :: bytes
  in_script :: "(ErrorKind + nat) Poll list"
  in_flushes :: nat
  in_shut :: bool

definition inner_write :: "bytes \<Rightarrow> Inner \<Rightarrow> (ErrorKind + nat) Poll \<times> Inner" where
  "inner_write buf w =
    (case in_script w of
       [] \<Rightarrow> (Ready (Inr (length buf)), w\<lparr>in_bytes := in_bytes w @ buf\<rparr>)
     | Pending # sc \<Rightarrow> (Pending, w\<lparr>in_script := sc\<rparr>)
     | Ready (Inl e) # sc \<Rightarrow> (Ready (Inl e), w\<lparr>in_script := sc\<rparr>)
     | Ready (Inr n) # sc \<Rightarrow>
         (Ready (Inr (min n (length buf))), w\<lparr>in_bytes := in_bytes w @ take n buf, in_script := sc\<rparr>))"

record FragmentWriter =
  fw_inner :: Inner
  fw_params :: FragmentParams
  fw_acc :: bytes
  fw_out :: bytes
  fw_out_pos :: nat
  fw_done :: bool

definition fragment_writer_new :: "Inner \<Rightarrow> FragmentParams \<Rightarrow> FragmentWriter" where
  "fragment_writer_new w p =
    \<lparr>fw_inner = w, fw_params = p, fw_acc = [], fw_out = [], fw_out_pos = 0, fw_done = False\<rparr>"

function fw_drain :: "FragmentWriter \<Rightarrow> (FragError + unit) Poll \<times> FragmentWriter" where
  "fw_drain me =
    (if fw_out_pos me < length (fw_out me) then
       case inner_write (drop (fw_out_pos me) (fw_out me)) (fw_inner me) of
         (Ready (Inr n), w) \<Rightarrow>
           if n = 0 then (Ready (Inl (FragIo WriteZero)), me\<lparr>fw_inner := w\<rparr>)
           else fw_drain (me\<lparr>fw_inner := w, fw_out_pos := fw_out_pos me + n\<rparr>)
       | (Ready (Inl e), w) \<Rightarrow> (Ready (Inl (FragIo e)), me\<lparr>fw_inner := w\<rparr>)
       | (Pending, w) \<Rightarrow> (Pending, me\<lparr>fw_inner := w\<rparr>)
     else (Ready (Inr ()), me\<lparr>fw_out := [], fw_out_pos := 0\<rparr>))"
  by pat_completeness auto
termination
  by (relation "measure (\<lambda>me. length (fw_out me) - fw_out_pos me)") auto

declare fw_drain.simps [simp del]

text \<open>\<open>None\<close>: keep accumulating; \<open>Some\<close>: the bytes to hand on (or the panic).\<close>

definition fw_finalize :: "(nat \<Rightarrow> u32) \<Rightarrow> FragmentParams \<Rightarrow> bytes \<Rightarrow> bytes option option" where
  "fw_finalize draws p acc =
    (if acc = [] \<or> hd acc \<noteq> 0x16 then Some (Some acc)
     else if length acc \<ge> 5 then
       let total = 5 + unat (from_be16 (acc ! 3) (acc ! 4)) in
       if length acc \<ge> total then
         Some (map_option (\<lambda>out. out @ drop total acc)
           (fragment_clienthello_to_vec (take total acc) p draws))
       else None
     else None)"

definition fw_drain_pending :: "FragmentWriter \<Rightarrow> (FragError + unit) Poll \<times> FragmentWriter" where
  "fw_drain_pending me = (if fw_out me \<noteq> [] then fw_drain me else (Ready (Inr ()), me))"

definition fw_poll_write ::
    "(nat \<Rightarrow> u32) \<Rightarrow> bytes \<Rightarrow> FragmentWriter \<Rightarrow> (FragError + nat) Poll \<times> FragmentWriter" where
  "fw_poll_write draws buf me =
    (case fw_drain_pending me of
       (Ready (Inl e), me) \<Rightarrow> (Ready (Inl e), me)
     | (Pending, me) \<Rightarrow> (Pending, me)
     | (Ready (Inr _), me) \<Rightarrow>
         if fw_done me then
           (case inner_write buf (fw_inner me) of
              (Ready (Inr n), w) \<Rightarrow> (Ready (Inr n), me\<lparr>fw_inner := w\<rparr>)
            | (Ready (Inl e), w) \<Rightarrow> (Ready (Inl (FragIo e)), me\<lparr>fw_inner := w\<rparr>)
            | (Pending, w) \<Rightarrow> (Pending, me\<lparr>fw_inner := w\<rparr>))
         else
           let acc = fw_acc me @ buf in
           case fw_finalize draws (fw_params me) acc of
             None \<Rightarrow> (Ready (Inr (length buf)), me\<lparr>fw_acc := acc\<rparr>)
           | Some None \<Rightarrow> (Ready (Inl Panicked), me\<lparr>fw_acc := []\<rparr>)
           | Some (Some out) \<Rightarrow>
               (case fw_drain (me\<lparr>fw_acc := [], fw_out := out, fw_out_pos := 0, fw_done := True\<rparr>) of
                  (Ready (Inl e), me) \<Rightarrow> (Ready (Inl e), me)
                | (_, me) \<Rightarrow> (Ready (Inr (length buf)), me)))"

definition fw_poll_flush :: "FragmentWriter \<Rightarrow> (FragError + unit) Poll \<times> FragmentWriter" where
  "fw_poll_flush me =
    (let me = (if \<not> fw_done me \<and> fw_acc me \<noteq> []
               then me\<lparr>fw_out := fw_acc me, fw_acc := [], fw_out_pos := 0, fw_done := True\<rparr> else me)
     in case fw_drain_pending me of
          (Ready (Inr _), me) \<Rightarrow>
            (Ready (Inr ()), me\<lparr>fw_inner := (fw_inner me)\<lparr>in_flushes := Suc (in_flushes (fw_inner me))\<rparr>\<rparr>)
        | other \<Rightarrow> other)"

definition fw_poll_shutdown :: "FragmentWriter \<Rightarrow> (FragError + unit) Poll \<times> FragmentWriter" where
  "fw_poll_shutdown me =
    (case fw_drain_pending me of
       (Ready (Inr _), me) \<Rightarrow> (Ready (Inr ()), me\<lparr>fw_inner := (fw_inner me)\<lparr>in_shut := True\<rparr>\<rparr>)
     | other \<Rightarrow> other)"

section \<open>Slicing\<close>

text \<open>What the destination reads back: the payloads of handshake records of one version.\<close>

fun records :: "nat \<Rightarrow> u8 \<Rightarrow> u8 \<Rightarrow> bytes \<Rightarrow> bytes list option" where
  "records 0 v0 v1 bs = (if bs = [] then Some [] else None)"
| "records (Suc fuel) v0 v1 bs =
    (case bs of
       t # a # b # h # l # r \<Rightarrow>
         (let n = unat (from_be16 h l) in
          if t = 0x16 \<and> a = v0 \<and> b = v1 \<and> 0 < n \<and> n \<le> length r
          then map_option (\<lambda>out. take n r # out) (records fuel v0 v1 (drop n r))
          else None)
     | [] \<Rightarrow> Some []
     | _ \<Rightarrow> None)"

text \<open>The ranges on which \<open>pick\<close> does not panic, and the largest fragment a range allows.\<close>

definition range_ok :: "u32 \<times> u32 \<Rightarrow> bool" where
  "range_ok rg \<longleftrightarrow> \<not> (fst rg = 0 \<and> snd rg = - 1)"

definition range_max :: "u32 \<times> u32 \<Rightarrow> nat" where
  "range_max rg = max 1 (max (unat (fst rg)) (unat (snd rg)))"

lemma pick_ok:
  assumes "range_ok rg"
  shows "\<exists>c. pick rg d = Some c \<and> unat c \<le> range_max rg"
proof -
  obtain lo hi where rg: "rg = (lo, hi)"
    by fastforce
  show ?thesis
  proof (cases "lo < hi")
    case True
    have ne: "hi - lo + 1 \<noteq> 0"
    proof
      assume "hi - lo + 1 = 0"
      then have "hi = lo - 1"
        by (simp add: algebra_simps eq_neg_iff_add_eq_0)
      with True assms rg show False
        by (cases "lo = 0") (auto simp: range_ok_def word_less_nat_alt unat_minus_one)
    qed
    let ?m = "d mod (hi - lo + 1)"
    have "unat (1 + (hi - lo)) = Suc (unat (hi - lo))"
      using ne by (intro unatSuc) (simp add: add.commute)
    then have "unat (hi - lo + 1) = unat hi - unat lo + 1"
      using True by (simp add: unat_sub add.commute less_imp_le)
    then have m: "unat ?m \<le> unat hi - unat lo"
      using ne by (metis Suc_eq_plus1 less_Suc_eq_le mod_less_divisor unat_gt_0 unat_mod)
    moreover have "unat lo + unat ?m < 2 ^ LENGTH(32)"
      using m True unsigned_less [of hi, where ?'a = nat] by (simp add: word_less_nat_alt)
    ultimately have "unat (lo + ?m) \<le> unat hi"
      using True by (simp add: unat_add_lem [THEN iffD1] word_less_nat_alt)
    with True ne rg show ?thesis
      by (auto simp: pick_def range_max_def)
  qed (simp add: pick_def rg range_max_def not_less)
qed

lemma header_length:
  "length frag < 65536 \<Longrightarrow>
   unat (from_be16 (of_nat (length frag div 256)) (of_nat (length frag mod 256))) = length frag"
  by (simp add: unat_from_be16 unat_of_nat_u8 del: of_nat_mod)

lemma chunk_size_bounds:
  "payload \<noteq> [] \<Longrightarrow> 0 < chunk_size c payload \<and> chunk_size c payload \<le> length payload"
  by (cases payload) (auto simp: chunk_size_def)

lemma records_step:
  assumes "0 < length frag" and "length frag < 65536"
  shows "records (Suc fuel) v0 v1 (fragment_header v0 v1 frag @ frag @ out) =
    map_option (\<lambda>r. frag # r) (records fuel v0 v1 out)"
  using assms header_length [OF assms(2)] by (simp add: fragment_header_def Let_def)

lemma fragment_loop_records:
  assumes "range_ok (fr_len p)" and "length payload < 65536" and "length payload \<le> fuel"
  shows "\<exists>out fs. fragment_loop p draws i v0 v1 payload = Some out \<and>
    records fuel v0 v1 out = Some fs \<and> concat fs = payload \<and>
    list_all (\<lambda>f. length f \<le> range_max (fr_len p)) fs"
  using assms(2,3)
proof (induction "length payload" arbitrary: payload i fuel rule: less_induct)
  case less
  show ?case
  proof (cases "payload = []")
    case True
    then show ?thesis
      by (cases fuel) (simp_all add: fragment_loop.simps)
  next
    case False
    obtain c where c: "pick (fr_len p) (draws i) = Some c" "unat c \<le> range_max (fr_len p)"
      using pick_ok [OF assms(1)] by blast
    let ?k = "chunk_size c payload"
    obtain f where f: "fuel = Suc f" "length (drop ?k payload) \<le> f"
      using False less.prems(2) chunk_size_bounds [OF False, of c] by (cases fuel) auto
    have "length (drop ?k payload) < length payload"
      using chunk_size_bounds [OF False, of c] unfolding length_drop by linarith
    with f(2) less.prems obtain out fs where
        "fragment_loop p draws (Suc i) v0 v1 (drop ?k payload) = Some out"
        "records f v0 v1 out = Some fs" "concat fs = drop ?k payload"
        "list_all (\<lambda>f. length f \<le> range_max (fr_len p)) fs"
      using less.hyps [of "drop ?k payload" f "Suc i"] by auto
    moreover have "?k \<le> range_max (fr_len p)"
      using c(2) by (simp add: chunk_size_def range_max_def)
    ultimately show ?thesis
      using False c f(1) less.prems chunk_size_bounds [OF False, of c]
        records_step [of "take ?k payload" f v0 v1 out]
      by (subst fragment_loop.simps) (simp add: Let_def)
  qed
qed

lemma fragment_loop_shift:
  "fragment_loop p draws (Suc i) v0 v1 payload = fragment_loop p (\<lambda>j. draws (Suc j)) i v0 v1 payload"
proof (induction "length payload" arbitrary: payload i rule: less_induct)
  case less
  show ?case
  proof (cases "payload = []")
    case False
    then have "length (drop (chunk_size c payload) payload) < length payload" for c
      using chunk_size_bounds [OF False, of c] unfolding length_drop by linarith
    then show ?thesis
      using less.hyps
      by (subst (1 2) fragment_loop.simps) (simp add: Let_def split: option.splits)
  qed (simp add: fragment_loop.simps)
qed

lemma write_io_paced:
  "tx_room s = None \<Longrightarrow> aerr g (write_all bs) s = (Inr (), s\<lparr>tx := tx s @ bs\<rparr>)"
  by (simp add: aerr_def write_all_open)

lemma write_loop_emits:
  assumes "range_ok (fr_len p)" and "range_ok (fr_interval_ms p)" and "tx_room s = None"
  shows "\<exists>out s'. fragment_loop p (\<lambda>j. draws (i + 2 * j)) 0 v0 v1 payload = Some out \<and>
    write_loop p draws i v0 v1 payload s = (Inr (), s') \<and> tx s' = tx s @ out \<and> rx s' = rx s"
  using assms(3)
proof (induction "length payload" arbitrary: payload i s rule: less_induct)
  case less
  show ?case
  proof (cases "payload = []")
    case True
    then show ?thesis
      by (simp add: fragment_loop.simps write_loop.simps)
  next
    case False
    obtain c d where c: "pick (fr_len p) (draws i) = Some c"
        and d: "pick (fr_interval_ms p) (draws (Suc i)) = Some d"
      using pick_ok [OF assms(1)] pick_ok [OF assms(2)] by blast
    let ?k = "chunk_size c payload"
    let ?f = "take ?k payload"
    let ?rest = "drop ?k payload"
    let ?s = "s\<lparr>tx := tx s @ fragment_header v0 v1 ?f @ ?f\<rparr>"
    define s1 where "s1 = (if ?rest = [] \<or> d = 0 then ?s else ?s\<lparr>pauses := pauses s @ [d]\<rparr>)"
    have s1: "tx_room s1 = None" "tx s1 = tx ?s" "rx s1 = rx s"
      using less.prems by (simp_all add: s1_def sleep_def)
    have "length ?rest < length payload"
      using chunk_size_bounds [OF False, of c] unfolding length_drop by linarith
    then obtain out s' where ih:
        "fragment_loop p (\<lambda>j. draws (Suc (Suc i) + 2 * j)) 0 v0 v1 ?rest = Some out"
        "write_loop p draws (Suc (Suc i)) v0 v1 ?rest s1 = (Inr (), s')" "tx s' = tx s1 @ out" "rx s' = rx s1"
      using less.hyps [of ?rest s1 "Suc (Suc i)"] s1(1) by blast
    have "fragment_loop p (\<lambda>j. draws (i + 2 * j)) (Suc 0) v0 v1 ?rest = Some out"
      using ih(1) by (simp add: fragment_loop_shift)
    then have "fragment_loop p (\<lambda>j. draws (i + 2 * j)) 0 v0 v1 payload =
        Some (fragment_header v0 v1 ?f @ ?f @ out)"
      using False c by (subst fragment_loop.simps) (simp add: Let_def)
    moreover have "write_loop p draws i v0 v1 payload s = (Inr (), s')"
    proof (cases "?rest = []")
      case True
      then have "s1 = ?s" "s' = s1"
        using ih(2) by (simp_all add: s1_def write_loop.simps)
      with True False c less.prems show ?thesis
        by (subst write_loop.simps) (simp add: Let_def abind_def write_io_paced del: drop_eq_Nil)
    next
      case rest: False
      then have "s1 = (if d = 0 then ?s else ?s\<lparr>pauses := pauses s @ [d]\<rparr>)"
        by (simp add: s1_def)
      with rest False c d less.prems ih(2) show ?thesis
        by (subst write_loop.simps)
          (simp add: Let_def abind_def write_io_paced sleep_def word_neq_0_conv [symmetric]
            del: drop_eq_Nil split: if_splits)
    qed
    ultimately show ?thesis
      using ih s1 by simp
  qed
qed

section \<open>The first record\<close>

lemma read_at_least_spec:
  assumes "read_at_least cap n buf s = (Inr b, s')" and "0 < cap"
  shows "b @ concat (rx s') = buf @ concat (rx s) \<and> length buf \<le> length b \<and>
    (n \<le> length b \<or> concat (rx s') = [])"
  using assms
proof (induction cap n buf s arbitrary: b s' rule: read_at_least.induct)
  case (1 cap n buf s)
  show ?case
  proof (cases "n \<le> length buf")
    case True
    with "1.prems" show ?thesis
      by (simp add: read_at_least.simps)
  next
    case False
    with "1.prems" obtain bs t where r: "read_some cap s = (Inr bs, t)"
      by (subst (asm) read_at_least.simps) (auto split: prod.splits sum.splits)
    note sp = read_some_Inr [OF r]
    show ?thesis
    proof (cases "bs = []")
      case True
      with False r "1.prems" sp(1) sp(3) show ?thesis
        by (subst (asm) read_at_least.simps) simp
    next
      case ne: False
      with False r "1.prems"(1) have "read_at_least cap n (buf @ bs) t = (Inr b, s')"
        by (subst (asm) read_at_least.simps) simp
      from "1.IH" [OF False r [symmetric] refl ne this "1.prems"(2)] sp(1) show ?thesis
        by simp
    qed
  qed
qed

lemma read_at_least_total:
  "rx_end s = None \<Longrightarrow> \<exists>b s'. read_at_least cap n buf s = (Inr b, s') \<and> rx_end s' = None"
proof (induction cap n buf s rule: read_at_least.induct)
  case (1 cap n buf s)
  obtain bs t where r: "read_some cap s = (Inr bs, t)" "rx_end t = None"
    using read_some_eof [OF "1.prems"] by blast
  show ?case
    using "1.IH" [OF _ r(1) [symmetric] refl _ r(2)] r "1.prems"
    by (subst read_at_least.simps) auto
qed

lemma read_first_record_total:
  "rx_end s = None \<Longrightarrow> \<exists>x s'. read_first_record pre s = (Inr x, s')"
proof -
  assume "rx_end s = None"
  then obtain b t where t: "read_at_least 2048 5 pre s = (Inr b, t)" "rx_end t = None"
    using read_at_least_total by blast
  obtain b' t' where "read_at_least 4096 (5 + unat (from_be16 (b ! 3) (b ! 4))) b t = (Inr b', t')"
    using read_at_least_total [OF t(2)] by blast
  with t show ?thesis
    by (simp add: read_first_record_def abind_def Let_def)
qed

text \<open>The length of the record a byte string starts with.\<close>

definition record_len :: "bytes \<Rightarrow> nat" where
  "record_len bs = 5 + unat (from_be16 (bs ! 3) (bs ! 4))"

lemma record_len_append: "5 \<le> length a \<Longrightarrow> record_len (a @ b) = record_len a"
  by (simp add: record_len_def nth_append)

lemma read_first_record_spec:
  fixes s :: "'a TcpStream_scheme"
  assumes "read_first_record pre s = (Inr (rec, extra), s')" and all: "pre @ concat (rx s) = all"
  shows "rec @ extra @ concat (rx s') = all \<and>
    rec = (if 5 \<le> length all \<and> record_len all \<le> length all then take (record_len all) all else all)"
proof -
  obtain b t where b: "read_at_least 2048 5 pre s = (Inr b, t)"
    and k: "(if length b < 5 then aret (b, [])
      else abind (read_at_least 4096 (record_len b) b) (\<lambda>buf.
        if length buf > record_len b then aret (take (record_len b) buf, drop (record_len b) buf)
        else aret (buf, []))) t = (Inr (rec, extra), s')"
    using assms(1)
    unfolding read_first_record_def Let_def record_len_def [symmetric] abind_eq_Inr by blast
  have sb: "b @ concat (rx t) = all" "5 \<le> length b \<or> concat (rx t) = []"
    using read_at_least_spec [OF b] all by simp_all
  show ?thesis
  proof (cases "length b < 5")
    case True
    with k sb show ?thesis
      by auto
  next
    case False
    with k obtain c where c: "read_at_least 4096 (record_len b) b t = (Inr c, s')"
      and re: "rec = take (record_len b) c" "extra = drop (record_len b) c"
      by (auto simp: abind_eq_Inr not_less split: if_splits)
    have sc: "c @ concat (rx s') = all" "length b \<le> length c"
        "record_len b \<le> length c \<or> concat (rx s') = []"
      using read_at_least_spec [OF c] sb by simp_all
    have "record_len all = record_len b"
      using sb False record_len_append [of b "concat (rx t)"] by simp
    moreover have "5 \<le> length all"
      using sc(1,2) False by (metis le_trans length_append le_add1 not_less)
    ultimately show ?thesis
      using sc(1,3) re by auto
  qed
qed

section \<open>The adapter loses and adds nothing\<close>

text \<open>
  \<open>fw_emits\<close>: what may reach the wrapped writer for the bytes written so far, which is
  those bytes, with the first record possibly replaced by its fragments.
\<close>

definition fw_emits :: "(nat \<Rightarrow> u32) \<Rightarrow> FragmentParams \<Rightarrow> bytes \<Rightarrow> bytes \<Rightarrow> bool" where
  "fw_emits draws p W E \<longleftrightarrow> E = W \<or>
    (\<exists>R T rest. W = R @ rest \<and> E = T @ rest \<and> length R = record_len R \<and>
       fragment_clienthello_to_vec R p draws = Some T)"

definition fw_pending :: "FragmentWriter \<Rightarrow> bytes" where
  "fw_pending me = drop (fw_out_pos me) (fw_out me)"

definition fw_inv :: "(nat \<Rightarrow> u32) \<Rightarrow> bytes \<Rightarrow> FragmentWriter \<Rightarrow> bool" where
  "fw_inv draws W me \<longleftrightarrow>
    (if fw_done me
     then fw_acc me = [] \<and> fw_emits draws (fw_params me) W (in_bytes (fw_inner me) @ fw_pending me)
     else fw_out me = [] \<and> in_bytes (fw_inner me) = [] \<and> fw_acc me = W)"

datatype FwOp = FwWrite bytes | FwFlush

fun fw_run ::
    "(nat \<Rightarrow> u32) \<Rightarrow> FwOp list \<Rightarrow> bytes \<Rightarrow> FragmentWriter \<Rightarrow> (bytes \<times> FragmentWriter) option" where
  "fw_run draws [] W me = Some (W, me)"
| "fw_run draws (FwWrite buf # ops) W me =
    (case fw_poll_write draws buf me of
       (Ready (Inr n), me') \<Rightarrow> fw_run draws ops (W @ take n buf) me'
     | (Pending, me') \<Rightarrow> fw_run draws ops W me'
     | (Ready (Inl _), _) \<Rightarrow> None)"
| "fw_run draws (FwFlush # ops) W me =
    (case fw_poll_flush me of
       (Ready (Inl _), _) \<Rightarrow> None
     | (_, me') \<Rightarrow> fw_run draws ops W me')"

lemma fw_emits_append: "fw_emits draws p W E \<Longrightarrow> fw_emits draws p (W @ x) (E @ x)"
  unfolding fw_emits_def by (metis append.assoc)

lemma fw_emits_refl [simp]: "fw_emits draws p W W"
  by (simp add: fw_emits_def)

lemma inner_write_bytes:
  "inner_write buf w = (Ready (Inr n), w') \<Longrightarrow> in_bytes w' = in_bytes w @ take n buf \<and> n \<le> length buf"
  "inner_write buf w = (Ready (Inl e), w') \<Longrightarrow> in_bytes w' = in_bytes w"
  "inner_write buf w = (Pending, w') \<Longrightarrow> in_bytes w' = in_bytes w"
  by (auto simp: inner_write_def min_def split: list.splits Poll.splits sum.splits if_splits)

lemma fw_drain_spec:
  "fw_drain me = (r, me') \<Longrightarrow>
   in_bytes (fw_inner me') @ fw_pending me' = in_bytes (fw_inner me) @ fw_pending me \<and>
   fw_acc me' = fw_acc me \<and> fw_done me' = fw_done me \<and> fw_params me' = fw_params me \<and>
   (r = Ready (Inr ()) \<longrightarrow> fw_out me' = [])"
proof (induction me rule: fw_drain.induct)
  case (1 me)
  show ?case
  proof (cases "fw_out_pos me < length (fw_out me)")
    case False
    with "1.prems" show ?thesis
      by (subst (asm) fw_drain.simps) (auto simp: fw_pending_def)
  next
    case True
    obtain q w where w: "inner_write (drop (fw_out_pos me) (fw_out me)) (fw_inner me) = (q, w)"
      by fastforce
    show ?thesis
    proof (cases "\<exists>n. q = Ready (Inr n) \<and> n \<noteq> 0")
      case False
      then have "me' = me\<lparr>fw_inner := w\<rparr> \<and> r \<noteq> Ready (Inr ())"
        using True w "1.prems" by (auto simp: fw_drain.simps [of me] split: Poll.splits sum.splits)
      moreover have "in_bytes w = in_bytes (fw_inner me)"
      proof (cases q)
        case Pending
        with w inner_write_bytes(3) show ?thesis
          by metis
      next
        case (Ready x)
        with False w inner_write_bytes(1) [of _ _ 0 w] inner_write_bytes(2) [of _ _ _ w] show ?thesis
          by (cases x) fastforce+
      qed
      ultimately show ?thesis
        by (simp add: fw_pending_def)
    next
      case ok: True
      then obtain n where n: "q = Ready (Inr n)" "n \<noteq> 0"
        by blast
      let ?me = "me\<lparr>fw_inner := w, fw_out_pos := fw_out_pos me + n\<rparr>"
      have "fw_drain ?me = (r, me')"
        using True w n "1.prems" by (subst (asm) fw_drain.simps) simp
      moreover have "in_bytes (fw_inner ?me) @ fw_pending ?me = in_bytes (fw_inner me) @ fw_pending me"
        using inner_write_bytes(1) [of _ _ n w] w n
        by (simp add: fw_pending_def add.commute flip: drop_drop)
      ultimately show ?thesis
        using "1.IH" [OF True w [symmetric] n(1) refl n(2)] by simp
    qed
  qed
qed

lemma fw_drain_pending_inv:
  assumes "fw_inv draws W me" and "fw_drain_pending me = (r, me')"
  shows "fw_inv draws W me' \<and> fw_params me' = fw_params me \<and> (r = Ready (Inr ()) \<longrightarrow> fw_out me' = [])"
  using assms fw_drain_spec [of me r me']
  by (auto simp: fw_drain_pending_def fw_inv_def split: if_splits)

lemma fw_finalize_emits:
  assumes "fw_finalize draws p acc = Some (Some out)"
  shows "fw_emits draws p acc out"
proof (cases "acc = [] \<or> hd acc \<noteq> 0x16")
  case True
  with assms show ?thesis
    by (auto simp: fw_finalize_def)
next
  case False
  let ?t = "record_len acc"
  obtain T where T: "5 \<le> length acc" "?t \<le> length acc" "out = T @ drop ?t acc"
      "fragment_clienthello_to_vec (take ?t acc) p draws = Some T"
    using assms False by (auto simp: fw_finalize_def record_len_def Let_def split: if_splits)
  have "5 \<le> length (take ?t acc)"
    using T(1,2) by (simp add: record_len_def)
  then have "record_len (take ?t acc) = length (take ?t acc)"
    using T(2) record_len_append [of "take ?t acc" "drop ?t acc"] by simp
  with T show ?thesis
    unfolding fw_emits_def by (metis append_take_drop_id)
qed

lemma fw_poll_write_inv:
  assumes "fw_inv draws W me" and "fw_poll_write draws buf me = (r, me')" and "\<nexists>e. r = Ready (Inl e)"
  shows "fw_inv draws (case r of Ready (Inr n) \<Rightarrow> W @ take n buf | _ \<Rightarrow> W) me' \<and> fw_params me' = fw_params me"
proof -
  obtain q m where q: "fw_drain_pending me = (q, m)"
    by fastforce
  note inv = fw_drain_pending_inv [OF assms(1) q]
  show ?thesis
  proof (cases "q = Ready (Inr ())")
    case False
    with assms(2,3) q inv show ?thesis
      by (auto simp: fw_poll_write_def split: Poll.splits sum.splits)
  next
    case True
    then have m: "fw_inv draws W m" "fw_params m = fw_params me" "fw_out m = []"
      using inv by auto
    show ?thesis
    proof (cases "fw_done m")
      case d: True
      obtain x w where x: "inner_write buf (fw_inner m) = (x, w)"
        by fastforce
      have me': "me' = m\<lparr>fw_inner := w\<rparr>" and r: "r = map_Poll (map_err FragIo) x"
        using assms(2) q True d x
        by (auto simp: fw_poll_write_def split: Poll.splits sum.splits)
      have E: "fw_emits draws (fw_params m) W (in_bytes (fw_inner m))" "fw_acc m = []"
        using m d by (simp_all add: fw_inv_def fw_pending_def)
      show ?thesis
      proof (cases x)
        case Pending
        with r me' d m E inner_write_bytes(3) [of buf "fw_inner m" w] x show ?thesis
          by (simp add: fw_inv_def fw_pending_def)
      next
        case (Ready y)
        with assms(3) r obtain n where n: "y = Inr n"
          by (cases y) auto
        with Ready r me' d m E inner_write_bytes(1) [of buf "fw_inner m" n w] x
          fw_emits_append [of draws "fw_params m" W "in_bytes (fw_inner m)" "take n buf"]
        show ?thesis
          by (simp add: fw_inv_def fw_pending_def)
      qed
    next
      case nd: False
      let ?acc = "fw_acc m @ buf"
      have acc: "fw_acc m = W" "in_bytes (fw_inner m) = []"
        using m(1) nd by (simp_all add: fw_inv_def)
      show ?thesis
      proof (cases "fw_finalize draws (fw_params m) ?acc")
        case None
        with assms(2) q True nd m acc show ?thesis
          by (auto simp: fw_poll_write_def fw_inv_def)
      next
        case (Some o')
        with assms(2,3) q True nd obtain out where out: "o' = Some out"
          by (cases o') (auto simp: fw_poll_write_def)
        let ?m = "m\<lparr>fw_acc := [], fw_out := out, fw_out_pos := 0, fw_done := True\<rparr>"
        obtain z m' where z: "fw_drain ?m = (z, m')"
          by fastforce
        then have "r = Ready (Inr (length buf))" "me' = m'"
          using assms(2,3) q True nd Some out by (auto simp: fw_poll_write_def split: Poll.splits sum.splits)
        with fw_drain_spec [OF z] fw_finalize_emits [of draws "fw_params m" ?acc out] Some out acc m
        show ?thesis
          by (simp add: fw_inv_def fw_pending_def)
      qed
    qed
  qed
qed

lemma fw_poll_flush_inv:
  assumes "fw_inv draws W me" and "fw_poll_flush me = (r, me')"
  shows "fw_inv draws W me' \<and> fw_params me' = fw_params me \<and>
    (r = Ready (Inr ()) \<longrightarrow> fw_pending me' = [] \<and> fw_acc me' = [])"
proof -
  define m where "m = (if \<not> fw_done me \<and> fw_acc me \<noteq> []
      then me\<lparr>fw_out := fw_acc me, fw_acc := [], fw_out_pos := 0, fw_done := True\<rparr> else me)"
  have inv: "fw_inv draws W m" "fw_params m = fw_params me" "fw_acc m = []"
    using assms(1) by (auto simp: m_def fw_inv_def fw_pending_def)
  obtain q k where k: "fw_drain_pending m = (q, k)"
    by fastforce
  have acc: "fw_acc k = []"
    using k inv(3) fw_drain_spec [of m q k] by (auto simp: fw_drain_pending_def split: if_splits)
  have "fw_inv draws W k" "fw_params k = fw_params me" "q = Ready (Inr ()) \<longrightarrow> fw_out k = []"
    using fw_drain_pending_inv [OF inv(1) k] inv(2) by auto
  moreover have "(r, me') = (case (q, k) of
      (Ready (Inr _), me) \<Rightarrow>
        (Ready (Inr ()), me\<lparr>fw_inner := (fw_inner me)\<lparr>in_flushes := Suc (in_flushes (fw_inner me))\<rparr>\<rparr>)
    | other \<Rightarrow> other)"
    using assms(2) by (simp add: fw_poll_flush_def k flip: m_def)
  ultimately show ?thesis
    using acc by (auto simp: fw_inv_def fw_pending_def split: Poll.splits sum.splits)
qed

lemma fw_run_inv:
  "\<lbrakk>fw_run draws ops W me = Some (W', me'); fw_inv draws W me\<rbrakk> \<Longrightarrow>
   fw_inv draws W' me' \<and> fw_params me' = fw_params me"
proof (induction draws ops W me rule: fw_run.induct)
  case (2 draws buf ops W me)
  obtain r k where k: "fw_poll_write draws buf me = (r, k)"
    by fastforce
  with "2.prems"(1) have ok: "\<nexists>e. r = Ready (Inl e)"
    by auto
  note fw_poll_write_inv [OF "2.prems"(2) k ok]
  with k ok "2.prems"(1) "2.IH" show ?case
    by (auto split: Poll.splits sum.splits)
next
  case (3 draws ops W me)
  obtain r k where k: "fw_poll_flush me = (r, k)"
    by fastforce
  with fw_poll_flush_inv [OF "3.prems"(2) k] "3.prems"(1) "3.IH" show ?case
    by (auto split: Poll.splits sum.splits)
qed simp

section \<open>Properties\<close>

text \<open>
  C10.  Fragmenting a ClientHello is transparent to its destination and effective against
  a reader of single records: the output is a sequence of handshake records of the same
  version whose payloads, joined, are the original payload, and no record carries more
  than the configured length.  Both writers, the pacing one and the buffered one, emit
  exactly these bytes.
\<close>

theorem fragmentation_transparent:
  assumes "is_client_hello record" and "length record \<le> 65535"
    and "range_ok (fr_len p)" and "range_ok (fr_interval_ms p)" and "tx_room s = None"
  shows "\<exists>out fs s'. fragment_clienthello_to_vec record p (\<lambda>j. draws (2 * j)) = Some out \<and>
    records (length record) (record ! 1) (record ! 2) out = Some fs \<and> concat fs = drop 5 record \<and>
    list_all (\<lambda>f. length f \<le> range_max (fr_len p)) fs \<and>
    write_fragmented record p draws s = (Inr (), s') \<and> tx s' = tx s @ out"
  using fragment_loop_records [of p "drop 5 record" "length record" "\<lambda>j. draws (2 * j)" 0 "record ! 1" "record ! 2"]
    write_loop_emits [of p s draws 0 "record ! 1" "record ! 2" "drop 5 record"] assms
  by (fastforce simp: fragment_clienthello_to_vec_def write_fragmented_def)

theorem fragmentation_transparent_witness:
  "\<exists>out fs s'. fragment_clienthello_to_vec [0x16, 3, 1, 0, 3, 1, 7, 8] \<lparr>fr_len = (1, 2), fr_interval_ms = (0, 0)\<rparr>
      (\<lambda>j. (\<lambda>_. 0) (2 * j)) = Some out \<and>
    records (length [0x16, 3, 1, 0, 3, 1, 7, 8 :: u8]) ([0x16, 3, 1, 0, 3, 1, 7, 8] ! 1)
      ([0x16, 3, 1, 0, 3, 1, 7, 8] ! 2) out = Some fs \<and>
    concat fs = drop 5 [0x16, 3, 1, 0, 3, 1, 7, 8] \<and>
    list_all (\<lambda>f. length f \<le> range_max (fr_len \<lparr>fr_len = (1, 2), fr_interval_ms = (0, 0)\<rparr>)) fs \<and>
    write_fragmented [0x16, 3, 1, 0, 3, 1, 7, 8] \<lparr>fr_len = (1, 2), fr_interval_ms = (0, 0)\<rparr> (\<lambda>_. 0)
      \<lparr>rx = [], rx_end = None, tx = [], tx_room = None, pauses = []\<rparr> = (Inr (), s') \<and>
    tx s' = tx \<lparr>rx = [], rx_end = None, tx = [], tx_room = None, pauses = []\<rparr> @ out"
  by (rule fragmentation_transparent) (simp_all add: is_client_hello_def range_ok_def)

text \<open>
  The adapter neither loses, repeats nor reorders data: however the wrapped writer
  answers (short writes, not ready), after any sequence of writes and flushes that
  returned no error, what the wrapped writer has together with what is still held is the
  bytes accepted, with at most the first record replaced by its fragments; and a flush
  that completes leaves nothing held.
\<close>

lemma fragment_writer_conserves:
  assumes "fw_run draws ops [] (fragment_writer_new w p) = Some (W, me)" and "in_bytes w = []"
  shows "fw_emits draws p W (in_bytes (fw_inner me) @ fw_pending me @ fw_acc me) \<and>
    (\<forall>me'. fw_poll_flush me = (Ready (Inr ()), me') \<longrightarrow> fw_emits draws p W (in_bytes (fw_inner me')))"
proof -
  have "fw_inv draws [] (fragment_writer_new w p)"
    using assms(2) by (simp add: fw_inv_def fragment_writer_new_def)
  then have inv: "fw_inv draws W me" and p: "fw_params me = p"
    using fw_run_inv [OF assms(1)] by (simp_all add: fragment_writer_new_def)
  have fl: "fw_emits draws p W (in_bytes (fw_inner me'))"
    if "fw_poll_flush me = (Ready (Inr ()), me')" for me'
    using fw_poll_flush_inv [OF inv that] p by (auto simp: fw_inv_def split: if_splits)
  show ?thesis
    using inv p fl by (auto simp: fw_inv_def fw_pending_def split: if_splits)
qed



text \<open>
  C12.  \<open>read_first_record\<close> on a stream that ends normally always returns; what it returns
  and what is left unread are the input, and the record is the first one exactly when the
  input holds it whole, else everything.
\<close>

theorem first_record_exact:
  assumes "rx_end s = None" and "pre @ concat (rx s) = all"
  shows "\<exists>rec extra s'. read_first_record pre s = (Inr (rec, extra), s') \<and>
    rec @ extra @ concat (rx s') = all \<and>
    rec = (if 5 \<le> length all \<and> record_len all \<le> length all then take (record_len all) all else all)"
  using read_first_record_total [OF assms(1), of pre] read_first_record_spec [OF _ assms(2)]
  by (metis prod.exhaust)

theorem first_record_exact_witness:
  "\<exists>rec extra s'. read_first_record [0x16, 3] \<lparr>rx = [[1, 0], [1, 9, 5]], rx_end = None, tx = [], tx_room = None\<rparr> =
      (Inr (rec, extra), s') \<and>
    rec @ extra @ concat (rx s') = [0x16, 3, 1, 0, 1, 9, 5] \<and>
    rec = (if 5 \<le> length [0x16, 3, 1, 0, 1, 9, 5 :: u8] \<and>
              record_len [0x16, 3, 1, 0, 1, 9, 5] \<le> length [0x16, 3, 1, 0, 1, 9, 5 :: u8]
           then take (record_len [0x16, 3, 1, 0, 1, 9, 5]) [0x16, 3, 1, 0, 1, 9, 5]
           else [0x16, 3, 1, 0, 1, 9, 5])"
  by (rule first_record_exact) simp_all

end
