(* ===== verification/User_Store.thy ===== *)
theory User_Store
  imports Core_Types
begin

text \<open>
  \<^verbatim>\<open>donut-server/src/users.rs\<close>: the durable user store.  A file system is what a reader
  sees now together with the images a path may have after a power loss; \<open>persist\<close> is the
  write-temporary, sync, rename, sync-directory sequence of the source, with an outcome
  for each call (\<open>ok\<close>).  The JSON encoder and decoder of \<^verbatim>\<open>serde_json\<close> are arguments
  (\<open>enc\<close>, \<open>dec\<close>), as are the clock and the fresh identifier of \<^verbatim>\<open>Uuid::new_v4\<close>.
\<close>

section \<open>File system\<close>

type_synonym path = rstr

datatype image = Absent | Known bytes | Garbage

record Fs =
  visible :: "path \<Rightarrow> bytes option"
  synced :: "path \<Rightarrow> bool"
  crash :: "path \<Rightarrow> image list"

datatype FsOp = FCreate | FWrite | FSync | FRename | FOpenDir | FSyncDir

definition fs_create :: "path \<Rightarrow> Fs \<Rightarrow> Fs" where
  "fs_create p fs = fs\<lparr>visible := (visible fs)(p := Some []), synced := (synced fs)(p := False),
     crash := (crash fs)(p := Garbage # crash fs p)\<rparr>"

definition fs_write :: "path \<Rightarrow> bytes \<Rightarrow> Fs \<Rightarrow> Fs" where
  "fs_write p d fs = fs\<lparr>visible := (visible fs)(p := Some d), synced := (synced fs)(p := False),
     crash := (crash fs)(p := Garbage # crash fs p)\<rparr>"

definition fs_sync :: "path \<Rightarrow> Fs \<Rightarrow> Fs" where
  "fs_sync p fs = fs\<lparr>synced := (synced fs)(p := True)\<rparr>"

definition file_image :: "path \<Rightarrow> Fs \<Rightarrow> image" where
  "file_image p fs =
    (case visible fs p of None \<Rightarrow> Absent | Some d \<Rightarrow> if synced fs p then Known d else Garbage)"

text \<open>Until the directory is synced, a renamed-over path may still show its old image.\<close>

definition fs_rename :: "path \<Rightarrow> path \<Rightarrow> Fs \<Rightarrow> Fs" where
  "fs_rename a b fs = fs\<lparr>visible := (visible fs)(b := visible fs a, a := None),
     synced := (synced fs)(b := synced fs a),
     crash := (crash fs)(b := file_image a fs # crash fs b, a := Absent # crash fs a)\<rparr>"

definition fs_sync_dir :: "Fs \<Rightarrow> Fs" where
  "fs_sync_dir fs = fs\<lparr>crash := (\<lambda>p. [file_image p fs])\<rparr>"

section \<open>The store\<close>

record UserRecord =
  ur_uuid :: UserId
  ur_name :: rstr
  ur_added :: u64

datatype UserStoreError = StoreIo | StoreParse | Duplicate UserId

record UserStore =
  us_handle :: AuthHandle
  us_path :: path
  us_records :: "UserRecord list"

definition auth_of :: "UserRecord list \<Rightarrow> UserAuth" where
  "auth_of records = \<lparr>users = map ur_uuid records\<rparr>"

definition tmp_path :: "path \<Rightarrow> path" where
  "tmp_path p = p @ str ''.tmp''"

definition persist ::
    "(UserRecord list \<Rightarrow> bytes) \<Rightarrow> (FsOp \<Rightarrow> bool) \<Rightarrow> path \<Rightarrow> UserRecord list \<Rightarrow> Fs
      \<Rightarrow> (UserStoreError + unit) \<times> Fs" where
  "persist enc ok path records fs =
    (let data = enc records; tmp = tmp_path path in
     if \<not> ok FCreate then (Inl StoreIo, fs) else
     let fs = fs_create tmp fs in
     if \<not> ok FWrite then (Inl StoreIo, fs) else
     let fs = fs_write tmp data fs in
     if \<not> ok FSync then (Inl StoreIo, fs) else
     let fs = fs_sync tmp fs in
     if \<not> ok FRename then (Inl StoreIo, fs) else
     let fs = fs_rename tmp path fs in
     (Inr (), if ok FOpenDir \<and> ok FSyncDir then fs_sync_dir fs else fs))"

definition load_or_seed ::
    "(UserRecord list \<Rightarrow> bytes) \<Rightarrow> (bytes \<Rightarrow> UserRecord list option) \<Rightarrow> (FsOp \<Rightarrow> bool) \<Rightarrow> u64
      \<Rightarrow> path \<Rightarrow> UserId list \<Rightarrow> Fs \<Rightarrow> (UserStoreError + UserStore) \<times> Fs" where
  "load_or_seed enc dec ok now path seed fs =
    (let open_with = (\<lambda>records.
       \<lparr>us_handle = handle_new (auth_of records), us_path = path, us_records = records\<rparr>) in
     case visible fs path of
       Some data \<Rightarrow>
         (case dec data of
            None \<Rightarrow> (Inl StoreParse, fs)
          | Some records \<Rightarrow> (Inr (open_with records), fs))
     | None \<Rightarrow>
         (let seeded = map (\<lambda>u. \<lparr>ur_uuid = u, ur_name = str ''seed'', ur_added = now\<rparr>) seed in
          case persist enc ok path seeded fs of
            (Inl e, fs) \<Rightarrow> (Inl e, fs)
          | (Inr _, fs) \<Rightarrow> (Inr (open_with seeded), fs)))"

definition store_list :: "UserStore \<Rightarrow> UserRecord list" where
  "store_list st = us_records st"

definition store_add ::
    "(UserRecord list \<Rightarrow> bytes) \<Rightarrow> (FsOp \<Rightarrow> bool) \<Rightarrow> u64 \<Rightarrow> UserId \<Rightarrow> rstr \<Rightarrow> UserId option
      \<Rightarrow> UserStore \<times> Fs \<Rightarrow> (UserStoreError + UserRecord) \<times> UserStore \<times> Fs" where
  "store_add enc ok now fresh name uuid = (\<lambda>(st, fs).
    let uuid = (case uuid of Some u \<Rightarrow> u | None \<Rightarrow> fresh) in
    if list_ex (\<lambda>r. ur_uuid r = uuid) (us_records st) then (Inl (Duplicate uuid), st, fs)
    else
      let record = \<lparr>ur_uuid = uuid, ur_name = name, ur_added = now\<rparr>;
          candidate = us_records st @ [record]
      in case persist enc ok (us_path st) candidate fs of
           (Inl e, fs) \<Rightarrow> (Inl e, st, fs)
         | (Inr _, fs) \<Rightarrow>
             (Inr record,
              st\<lparr>us_records := candidate, us_handle := handle_store (us_handle st) (auth_of candidate)\<rparr>,
              fs))"

definition store_remove ::
    "(UserRecord list \<Rightarrow> bytes) \<Rightarrow> (FsOp \<Rightarrow> bool) \<Rightarrow> UserId
      \<Rightarrow> UserStore \<times> Fs \<Rightarrow> (UserStoreError + bool) \<times> UserStore \<times> Fs" where
  "store_remove enc ok uuid = (\<lambda>(st, fs).
    let candidate = filter (\<lambda>r. ur_uuid r \<noteq> uuid) (us_records st) in
    if length candidate = length (us_records st) then (Inr False, st, fs)
    else case persist enc ok (us_path st) candidate fs of
           (Inl e, fs) \<Rightarrow> (Inl e, st, fs)
         | (Inr _, fs) \<Rightarrow>
             (Inr True,
              st\<lparr>us_records := candidate, us_handle := handle_store (us_handle st) (auth_of candidate)\<rparr>,
              fs))"

section \<open>Administration as a step relation\<close>

text \<open>
  Every way the store can move: an addition or a removal, with any outcome of the file
  system calls, any clock and any fresh identifier.
\<close>

inductive admin_step ::
    "(UserRecord list \<Rightarrow> bytes) \<Rightarrow> UserStore \<times> Fs \<Rightarrow> UserStore \<times> Fs \<Rightarrow> bool"
  for enc where
  add: "store_add enc ok now fresh name uuid s = (r, s') \<Longrightarrow> admin_step enc s s'"
| remove: "store_remove enc ok uuid s = (r, s') \<Longrightarrow> admin_step enc s s'"

inductive_cases admin_stepE: "admin_step enc s s'"

text \<open>
  The invariant: the snapshot the proxy reads is the set on file, and a power loss shows
  either the current records or ones that were current before, never a torn file.
\<close>

definition on_file :: "(UserRecord list \<Rightarrow> bytes) \<Rightarrow> path \<Rightarrow> UserRecord list \<Rightarrow> Fs \<Rightarrow> bool" where
  "on_file enc path records fs \<longleftrightarrow> visible fs path = Some (enc records) \<and> synced fs path \<and>
    Known (enc records) \<in> set (crash fs path) \<and> Garbage \<notin> set (crash fs path)"

definition store_inv :: "(UserRecord list \<Rightarrow> bytes) \<Rightarrow> UserStore \<times> Fs \<Rightarrow> bool" where
  "store_inv enc s \<longleftrightarrow> (case s of (st, fs) \<Rightarrow>
    snapshot (us_handle st) = auth_of (us_records st) \<and> on_file enc (us_path st) (us_records st) fs)"

section \<open>Lemmas\<close>

lemmas fs_defs = fs_create_def fs_write_def fs_sync_def fs_rename_def fs_sync_dir_def file_image_def

lemma tmp_path_neq [simp]: "tmp_path p \<noteq> p" "p \<noteq> tmp_path p"
  by (simp_all add: tmp_path_def)

lemma persist_ok:
  assumes "persist enc ok path records fs = (Inr (), fs')" and "Garbage \<notin> set (crash fs path)"
  shows "on_file enc path records fs' \<and>
    (ok FOpenDir \<and> ok FSyncDir \<longrightarrow> crash fs' path = [Known (enc records)])"
  using assms
  by (auto simp: persist_def Let_def fs_defs on_file_def split: if_splits)

lemma persist_err:
  assumes "persist enc ok path records fs = (Inl e, fs')"
  shows "e = StoreIo \<and> visible fs' path = visible fs path \<and> synced fs' path = synced fs path \<and>
    crash fs' path = crash fs path"
  using assms by (auto simp: persist_def Let_def fs_defs split: if_splits)

lemma persist_crash:
  assumes "persist enc ok path records fs = (r, fs')"
  shows "set (crash fs' path) \<subseteq> insert (Known (enc records)) (set (crash fs path))"
  using assms by (auto simp: persist_def Let_def fs_defs split: if_splits)

lemma persist_cases:
  "persist enc ok path records fs = (r, fs') \<Longrightarrow> r = Inr () \<or> r = Inl StoreIo"
  by (auto simp: persist_def Let_def split: if_splits)

lemma store_add_inv:
  assumes "store_inv enc s" and "store_add enc ok now fresh name uuid s = (r, s')"
  shows "store_inv enc s'"
proof -
  obtain st fs st' fs' where s: "s = (st, fs)" "s' = (st', fs')"
    by fastforce
  show ?thesis
    using assms persist_ok [of enc ok "us_path st" _ fs fs'] persist_err [of enc ok "us_path st" _ fs _ fs']
    unfolding s
    by (auto simp: store_add_def store_inv_def on_file_def handle_store_def Let_def
        split: if_splits prod.splits sum.splits option.splits)
qed

lemma store_remove_inv:
  assumes "store_inv enc s" and "store_remove enc ok uuid s = (r, s')"
  shows "store_inv enc s'"
proof -
  obtain st fs st' fs' where s: "s = (st, fs)" "s' = (st', fs')"
    by fastforce
  show ?thesis
    using assms persist_ok [of enc ok "us_path st" _ fs fs'] persist_err [of enc ok "us_path st" _ fs _ fs']
    unfolding s
    by (auto simp: store_remove_def store_inv_def on_file_def handle_store_def Let_def
        split: if_splits prod.splits sum.splits)
qed

lemma admin_step_inv: "admin_step enc s s' \<Longrightarrow> store_inv enc s \<Longrightarrow> store_inv enc s'"
  by (erule admin_stepE) (blast dest: store_add_inv store_remove_inv)+

lemma admin_steps_inv: "(admin_step enc)\<^sup>*\<^sup>* s s' \<Longrightarrow> store_inv enc s \<Longrightarrow> store_inv enc s'"
  by (induction rule: rtranclp_induct) (auto dest: admin_step_inv)

lemma load_or_seed_inv:
  assumes "load_or_seed enc dec ok now path seed fs = (Inr st, fs')"
    and "visible fs path = None \<or> (\<exists>records. on_file enc path records fs)"
    and "visible fs path = None \<Longrightarrow> Garbage \<notin> set (crash fs path)"
    and "\<And>records. dec (enc records) = Some records"
  shows "store_inv enc (st, fs')"
  using assms persist_ok [of enc ok path _ fs fs']
  by (auto simp: load_or_seed_def store_inv_def handle_new_def Let_def on_file_def
      split: option.splits prod.splits sum.splits)

lemma auth_of_iff: "handle_is_authorized \<lparr>snapshot = auth_of rs\<rparr> u \<longleftrightarrow> u \<in> ur_uuid ` set rs"
  by (simp add: handle_is_authorized_def is_authorized_iff auth_of_def)

lemma store_auth:
  "store_inv enc (st, fs) \<Longrightarrow>
   handle_is_authorized (us_handle st) u \<longleftrightarrow> u \<in> ur_uuid ` set (us_records st)"
  using auth_of_iff [of "us_records st" u] by (simp add: store_inv_def handle_is_authorized_def)

section \<open>Properties\<close>

text \<open>
  C13.  The proxy's credential check and the file agree at all times: after loading and
  any sequence of additions and removals, with any outcome of the file system calls, a
  user is authorised iff the file on disk lists it, and after a power loss the file is
  one that was completely written, never a torn one.
\<close>

theorem user_store_consistent:
  assumes "load_or_seed enc dec ok now path seed fs = (Inr st, fs0)"
    and "visible fs path = None \<and> Garbage \<notin> set (crash fs path) \<or> (\<exists>records. on_file enc path records fs)"
    and "\<And>records. dec (enc records) = Some records"
    and "(admin_step enc)\<^sup>*\<^sup>* (st, fs0) (st', fs')"
  shows "(\<exists>data records. visible fs' (us_path st') = Some data \<and> dec data = Some records \<and>
      (\<forall>u. handle_is_authorized (us_handle st') u \<longleftrightarrow> u \<in> ur_uuid ` set records)) \<and>
    Garbage \<notin> set (crash fs' (us_path st'))"
proof -
  have "store_inv enc (st, fs0)"
    using load_or_seed_inv [OF assms(1) _ _ assms(3)] assms(2) by (auto simp: on_file_def)
  then have "store_inv enc (st', fs')"
    by (rule admin_steps_inv [OF assms(4)])
  with store_auth [OF this] assms(3) show ?thesis
    by (auto simp: store_inv_def on_file_def)
qed

text \<open>A concrete encoding of record lists, to show that the hypotheses can hold.\<close>

fun sample_enc :: "UserRecord list \<Rightarrow> bytes" where
  "sample_enc [] = [0]"
| "sample_enc (r # rs) = 1 # user_as_bytes (ur_uuid r) @ be_bytes 8 (unat (ur_added r)) @
    concat (map (\<lambda>b. [1, b]) (ur_name r)) @ 0 # sample_enc rs"

fun sample_name :: "bytes \<Rightarrow> rstr \<times> bytes" where
  "sample_name (t # r) = (if t = 0 then ([], r) else
     case r of b # r' \<Rightarrow> (let (n, x) = sample_name r' in (b # n, x)) | [] \<Rightarrow> ([], []))"
| "sample_name [] = ([], [])"

lemma sample_name_length: "length (snd (sample_name bs)) \<le> length bs"
  by (induction bs rule: sample_name.induct) (auto split: list.splits prod.splits)

function sample_dec :: "bytes \<Rightarrow> UserRecord list option" where
  "sample_dec bs =
    (case bs of
       [] \<Rightarrow> None
     | t # r \<Rightarrow>
         if t = 0 then Some []
         else let (n, x) = sample_name (drop 24 r) in
           map_option (\<lambda>rs. \<lparr>ur_uuid = user_from_bytes (take 16 r), ur_name = n,
             ur_added = of_nat (be_nat (take 8 (drop 16 r)))\<rparr> # rs) (sample_dec x))"
  by pat_completeness auto
termination
proof (relation "measure length")
  show "\<And>bs t r p n x. bs = t # r \<Longrightarrow> t \<noteq> 0 \<Longrightarrow> p = sample_name (drop 24 r) \<Longrightarrow> (n, x) = p \<Longrightarrow>
      (x, bs) \<in> measure length"
    using sample_name_length by (metis add_Suc_shift diff_le_self in_measure le_imp_less_Suc le_trans
        length_Cons length_drop snd_conv)
qed simp

declare sample_dec.simps [simp del]

lemma sample_name_enc: "sample_name (concat (map (\<lambda>b. [1, b]) n) @ 0 # x) = (n, x)"
  by (induction n) auto

lemma sample_dec_enc: "sample_dec (sample_enc rs) = Some rs"
proof (induction rs)
  case (Cons r rs)
  have "take 16 (user_as_bytes u @ a @ b) = user_as_bytes u"
    "drop 16 (user_as_bytes u @ a @ b) = a @ b" for u a b
    by simp_all
  moreover have "be_nat (be_bytes 8 (unat (ur_added r))) = unat (ur_added r)"
    by (rule be_nat_be_bytes) (rule unat_be_bytes(2))
  ultimately show ?case
    using Cons by (simp add: sample_dec.simps [of "_ # _"] sample_name_enc)
qed (simp add: sample_dec.simps)

theorem user_store_consistent_witness:
  "\<exists>(st' :: UserStore) (fs' :: Fs). us_records st' = [\<lparr>ur_uuid = 7, ur_name = str ''seed'', ur_added = 1\<rparr>] \<and>
    (\<exists>data records. visible fs' (us_path st') = Some data \<and> sample_dec data = Some records \<and>
      (\<forall>u. handle_is_authorized (us_handle st') u \<longleftrightarrow> u \<in> ur_uuid ` set records)) \<and>
    Garbage \<notin> set (crash fs' (us_path st'))"
proof -
  let ?fs = "\<lparr>visible = \<lambda>_. None, synced = \<lambda>_. True, crash = \<lambda>_. [Absent]\<rparr>"
  obtain st fs0 where l: "load_or_seed sample_enc sample_dec (\<lambda>_. True) 1 [117] [7] ?fs = (Inr st, fs0)"
      and r: "us_records st = [\<lparr>ur_uuid = 7, ur_name = str ''seed'', ur_added = 1\<rparr>]"
    by (simp add: load_or_seed_def persist_def Let_def)
  have "(\<exists>data records. visible fs0 (us_path st) = Some data \<and> sample_dec data = Some records \<and>
      (\<forall>u. handle_is_authorized (us_handle st) u \<longleftrightarrow> u \<in> ur_uuid ` set records)) \<and>
    Garbage \<notin> set (crash fs0 (us_path st))"
    by (rule user_store_consistent [OF l _ sample_dec_enc rtranclp.rtrancl_refl]) simp
  with r show ?thesis
    by blast
qed

text \<open>
  What an edit does: an added user is authorised as soon as the call returns and
  everyone else keeps their answer; a duplicate is refused and changes nothing; an edit
  that fails leaves the snapshot, the records and the file untouched; a removed user is
  no longer authorised, also when it was listed twice.
\<close>

lemma user_edits:
  assumes "store_inv enc (st, fs)"
  shows "(case store_add enc ok now fresh name uuid (st, fs) of
      (Inr r, st', fs') \<Rightarrow> (\<forall>u. handle_is_authorized (us_handle st') u \<longleftrightarrow>
          u = ur_uuid r \<or> handle_is_authorized (us_handle st) u) \<and>
        \<not> handle_is_authorized (us_handle st) (ur_uuid r)
    | (Inl e, st', fs') \<Rightarrow> st' = st \<and> visible fs' (us_path st) = visible fs (us_path st) \<and>
        crash fs' (us_path st) = crash fs (us_path st)) \<and>
   (case store_remove enc ok u0 (st, fs) of
      (Inr b, st', fs') \<Rightarrow> b = handle_is_authorized (us_handle st) u0 \<and>
        (\<forall>u. handle_is_authorized (us_handle st') u \<longleftrightarrow>
          u \<noteq> u0 \<and> handle_is_authorized (us_handle st) u)
    | (Inl e, st', fs') \<Rightarrow> st' = st \<and> visible fs' (us_path st) = visible fs (us_path st) \<and>
        crash fs' (us_path st) = crash fs (us_path st))"
  (is "?add \<and> ?remove")
proof
  note auth = store_auth [OF assms]
  obtain r st' fs' where a: "store_add enc ok now fresh name uuid (st, fs) = (r, st', fs')"
    by (metis prod_cases3)
  note auth' = store_auth [OF store_add_inv [OF assms a]]
  show ?add
    using a auth auth' persist_err
    by (auto simp: store_add_def list_ex_iff Let_def image_iff
        split: if_splits prod.splits sum.splits option.splits)
  obtain q st'' fs'' where d: "store_remove enc ok u0 (st, fs) = (q, st'', fs'')"
    by (metis prod_cases3)
  note auth'' = store_auth [OF store_remove_inv [OF assms d]]
  have len: "length (filter P xs) = length xs \<longleftrightarrow> (\<forall>x \<in> set xs. P x)" for P and xs :: "UserRecord list"
    by (metis filter_True length_filter_less less_irrefl)
  show ?remove
    using d auth auth'' persist_err
    by (auto simp: store_remove_def len Let_def split: if_splits prod.splits sum.splits)
qed

text \<open>
  C14.  An accepted edit survives a power loss when the directory could be synced, and is
  not certain to otherwise: \<^verbatim>\<open>persist\<close> ignores a failure to open or sync the directory, and
  then the call still succeeds, the user is authorised, and the previous file may come
  back.
\<close>

theorem edit_durability:
  assumes "store_inv enc (st, fs)" and "store_add enc ok now fresh name uuid (st, fs) = (Inr r, st', fs')"
  shows "(ok FOpenDir \<and> ok FSyncDir \<longrightarrow> crash fs' (us_path st') = [Known (enc (us_records st'))]) \<and>
    (\<not> (ok FOpenDir \<and> ok FSyncDir) \<longrightarrow> Known (enc (us_records st)) \<in> set (crash fs' (us_path st')) \<and>
      handle_is_authorized (us_handle st') (ur_uuid r))"
proof -
  obtain p where p: "persist enc ok (us_path st) (us_records st @ [r]) fs = (Inr (), fs')"
      "st' = st\<lparr>us_records := us_records st @ [r], us_handle := handle_store (us_handle st) (auth_of (us_records st @ [r]))\<rparr>"
    using assms(2)
    by (auto simp: store_add_def Let_def split: if_splits prod.splits sum.splits option.splits)
  have k: "Known (enc (us_records st)) \<in> set (crash fs (us_path st))" "Garbage \<notin> set (crash fs (us_path st))"
    using assms(1) by (auto simp: store_inv_def on_file_def)
  have "set (crash fs (us_path st)) \<subseteq> set (crash fs' (us_path st))" if "\<not> (ok FOpenDir \<and> ok FSyncDir)"
    using p(1) that by (auto simp: persist_def Let_def fs_defs split: if_splits)
  with persist_ok [OF p(1) k(2)] k(1) store_auth [OF store_add_inv [OF assms]] show ?thesis
    by (auto simp: p(2))
qed

theorem edit_durability_witness:
  "\<exists>(st :: UserStore) fs ok r (st' :: UserStore) fs'.
    store_add sample_enc ok 5 9 [] None (st, fs) = (Inr r, st', fs') \<and> \<not> ok FOpenDir \<and>
    Known (sample_enc (us_records st)) \<in> set (crash fs' (us_path st')) \<and>
    handle_is_authorized (us_handle st') (ur_uuid r)"
proof -
  let ?fs = "\<lparr>visible = \<lambda>_. Some [0], synced = \<lambda>_. True, crash = \<lambda>_. [Known [0]]\<rparr>"
  let ?st = "\<lparr>us_handle = handle_new (auth_of []), us_path = [117], us_records = []\<rparr>"
  let ?ok = "\<lambda>f. f \<noteq> FOpenDir"
  have inv: "store_inv sample_enc (?st, ?fs)"
    by (simp add: store_inv_def on_file_def handle_new_def)
  obtain r st' fs' where "store_add sample_enc ?ok 5 9 [] None (?st, ?fs) = (Inr r, st', fs')"
    by (simp add: store_add_def persist_def Let_def)
  with edit_durability [OF inv this] show ?thesis
    by (intro exI [of _ ?st] exI [of _ ?fs] exI [of _ ?ok] exI) auto
qed

end
