(* ===== verification/Carrier_Http.thy ===== *)
theory Carrier_Http
  imports Dns_Resolver
begin

text \<open>
  The crate \<^verbatim>\<open>donut-carrier\<close>: session identifiers (\<^verbatim>\<open>session.rs\<close>), modes, placements,
  configurations and errors, and how a request carries a session and a sequence number
  (\<^verbatim>\<open>server/session_extract.rs\<close> and the request builder of \<^verbatim>\<open>client/packet_up.rs\<close>).

  A request as the \<^verbatim>\<open>http\<close> crate presents it is a record of what its accessors return:
  path, query, authority, the first value of a header when it is text, the text values of
  the cookie headers, all headers in order, and the body's frames.  The \<^verbatim>\<open>hex\<close> crate's functions are arguments.
\<close>

section \<open>Identifiers, modes, placements\<close>

type_synonym SessionId = bytes

definition HEX_LEN :: nat where "HEX_LEN = 32"
definition UUID_LEN :: nat where "UUID_LEN = 36"

datatype Placement = Path | Query | Header | Cookie

datatype Mode = StreamOne | StreamUp | PacketUp

definition mode_parse :: "rstr \<Rightarrow> Mode option" where
  "mode_parse s =
    (if s = str ''stream-one'' then Some StreamOne
     else if s = str ''stream-up'' then Some StreamUp
     else if s = str ''packet-up'' then Some PacketUp
     else None)"

datatype CarrierError =
    InvalidSessionId
  | MissingSessionId Placement
  | InvalidSequence
  | MissingSequence
  | UploadChunkTooLarge
  | UploadWindowFull
  | BadPath
  | CHyper
  | CIo ErrorKind
  | CHttp
  | CUri

definition sid_to_hex :: "(bytes \<Rightarrow> rstr) \<Rightarrow> SessionId \<Rightarrow> rstr" where
  "sid_to_hex hex_encode sid = hex_encode sid"

definition sid_to_uuid :: "(bytes \<Rightarrow> rstr) \<Rightarrow> SessionId \<Rightarrow> rstr" where
  "sid_to_uuid hex_encode sid =
    (let h = sid_to_hex hex_encode sid in
     take 8 h @ [45] @ take 4 (drop 8 h) @ [45] @ take 4 (drop 12 h) @ [45] @
     take 4 (drop 16 h) @ [45] @ take 12 (drop 20 h))"

text \<open>\<open>hex_decode\<close> is \<^verbatim>\<open>hex::decode_to_slice\<close> into sixteen bytes.\<close>

definition sid_from_str :: "(rstr \<Rightarrow> bytes option) \<Rightarrow> rstr \<Rightarrow> CarrierError + SessionId" where
  "sid_from_str hex_decode s =
    (if length s = HEX_LEN then ok_or (hex_decode s) InvalidSessionId
     else if length s = UUID_LEN then
       (let stripped = filter (\<lambda>c. c \<noteq> 45) s in
        if length stripped \<noteq> HEX_LEN then Inl InvalidSessionId
        else ok_or (hex_decode stripped) InvalidSessionId)
     else Inl InvalidSessionId)"

section \<open>Configuration\<close>

record ServerConfig =
  sc_mode :: Mode
  sc_session_placement :: Placement
  sc_seq_placement :: Placement
  sc_session_header :: rstr
  sc_session_key :: rstr
  sc_seq_header :: rstr
  sc_path_prefix :: rstr
  sc_max_post_bytes :: nat
  sc_min_post_interval_ms :: nat
  sc_max_buffered_posts :: nat
  sc_stream_up_secs :: "nat \<times> nat"
  sc_decoy :: "SocketAddr option"
  sc_host :: "rstr option"

definition server_config_default :: ServerConfig where
  "server_config_default =
    \<lparr>sc_mode = StreamOne, sc_session_placement = Path, sc_seq_placement = Header,
     sc_session_header = str ''X-Session'', sc_session_key = str ''x_session'',
     sc_seq_header = str ''X-Seq'', sc_path_prefix = str ''/'', sc_max_post_bytes = 1000000,
     sc_min_post_interval_ms = 30, sc_max_buffered_posts = 30, sc_stream_up_secs = (20, 80),
     sc_decoy = None, sc_host = None\<rparr>"

record ClientConfig =
  cc_mode :: Mode
  cc_session_placement :: Placement
  cc_seq_placement :: Placement
  cc_session_header :: rstr
  cc_session_key :: rstr
  cc_seq_header :: rstr
  cc_path_prefix :: rstr
  cc_host :: rstr
  cc_max_post_bytes :: nat
  cc_min_post_interval_ms :: nat

definition client_config_default :: ClientConfig where
  "client_config_default =
    \<lparr>cc_mode = StreamOne, cc_session_placement = Path, cc_seq_placement = Header,
     cc_session_header = str ''X-Session'', cc_session_key = str ''x_session'',
     cc_seq_header = str ''X-Seq'', cc_path_prefix = str ''/'', cc_host = str ''localhost'',
     cc_max_post_bytes = 1000000, cc_min_post_interval_ms = 30\<rparr>"

section \<open>Requests and extraction\<close>

record HttpRequest =
  hr_method :: rstr
  hr_path :: rstr
  hr_query :: "rstr option"
  hr_authority :: "rstr option"
  hr_header :: "rstr \<Rightarrow> rstr option"
  hr_cookies :: "rstr list"
  hr_headers :: "(rstr \<times> rstr) list"
  hr_body :: "(unit + bytes option) list"

definition query_value :: "rstr \<Rightarrow> rstr \<Rightarrow> rstr option" where
  "query_value query key =
    map_option snd (find (\<lambda>kv. fst kv = key) (List.map_filter (split_once 61) (split_char 38 query)))"

definition cookie_value :: "rstr list \<Rightarrow> rstr \<Rightarrow> rstr option" where
  "cookie_value cookies key =
    map_option snd (find (\<lambda>kv. fst kv = key)
      (List.map_filter (split_once 61) (concat (map (\<lambda>s. map trim (split_char 59 s)) cookies))))"

definition host_only :: "rstr \<Rightarrow> rstr" where
  "host_only s =
    to_ascii_lowercase
      (case rsplit_once 58 s of
         Some (h, p) \<Rightarrow> if p \<noteq> [] \<and> list_all (\<lambda>b. 48 \<le> b \<and> b \<le> 57) p then h else s
       | None \<Rightarrow> s)"

definition request_authority :: "HttpRequest \<Rightarrow> rstr" where
  "request_authority req =
    (case hr_authority req of
       Some a \<Rightarrow> a
     | None \<Rightarrow> (case hr_header req (str ''host'') of Some h \<Rightarrow> h | None \<Rightarrow> []))"

definition host_matches :: "HttpRequest \<Rightarrow> rstr \<Rightarrow> bool" where
  "host_matches req expected \<longleftrightarrow> host_only (request_authority req) = host_only expected"

definition path_segment :: "rstr \<Rightarrow> rstr \<times> rstr" where
  "path_segment rest = (takeWhile (\<lambda>c. c \<noteq> 47) rest, dropWhile (\<lambda>c. c \<noteq> 47) rest)"

definition session_id ::
    "(rstr \<Rightarrow> bytes option) \<Rightarrow> HttpRequest \<Rightarrow> ServerConfig \<Rightarrow> CarrierError + SessionId \<times> rstr" where
  "session_id hex_decode req config =
    (if (case sc_host config of Some expected \<Rightarrow> \<not> host_matches req expected | None \<Rightarrow> False)
     then Inl BadPath
     else if \<not> starts_with (hr_path req) (sc_path_prefix config) then Inl BadPath
     else
       let after_prefix = drop (length (sc_path_prefix config)) (hr_path req) in
       case sc_session_placement config of
         Path \<Rightarrow>
           (let rest = (case strip_prefix [47] after_prefix of Some r \<Rightarrow> r | None \<Rightarrow> after_prefix);
                (segment, tail) = path_segment rest
            in rbind (sid_from_str hex_decode segment) (\<lambda>sid. Inr (sid, tail)))
       | Query \<Rightarrow>
           (let q = (case hr_query req of Some q \<Rightarrow> q | None \<Rightarrow> []) in
            rbind (ok_or (query_value q (sc_session_key config)) (MissingSessionId Query)) (\<lambda>val.
            rbind (sid_from_str hex_decode val) (\<lambda>sid. Inr (sid, after_prefix))))
       | Header \<Rightarrow>
           rbind (ok_or (hr_header req (to_ascii_lowercase (sc_session_header config))) (MissingSessionId Header)) (\<lambda>val.
           rbind (sid_from_str hex_decode val) (\<lambda>sid. Inr (sid, after_prefix)))
       | Cookie \<Rightarrow>
           rbind (ok_or (cookie_value (hr_cookies req) (sc_session_key config)) (MissingSessionId Cookie)) (\<lambda>val.
           rbind (sid_from_str hex_decode val) (\<lambda>sid. Inr (sid, after_prefix))))"

definition sequence :: "HttpRequest \<Rightarrow> ServerConfig \<Rightarrow> CarrierError + u64" where
  "sequence req config =
    (let missing = (\<lambda>v. ok_or v MissingSequence);
         parse = (\<lambda>s. ok_or (parse_u64 s) InvalidSequence)
     in case sc_seq_placement config of
          Header \<Rightarrow> rbind (missing (hr_header req (to_ascii_lowercase (sc_seq_header config)))) parse
        | Query \<Rightarrow>
            rbind (missing (query_value (case hr_query req of Some q \<Rightarrow> q | None \<Rightarrow> []) (str ''x_seq''))) parse
        | Path \<Rightarrow>
            rbind (missing (find (\<lambda>s. s \<noteq> []) (rev (split_char 47 (hr_path req))))) parse
        | Cookie \<Rightarrow> rbind (missing (cookie_value (hr_cookies req) (str ''x_seq''))) parse)"

text \<open>\<open>collect_body\<close>: frames in order; a frame may be an error, data, or trailers.\<close>

fun collect_body :: "nat \<Rightarrow> bytes \<Rightarrow> (unit + bytes option) list \<Rightarrow> CarrierError + bytes" where
  "collect_body mx acc [] = Inr acc"
| "collect_body mx acc (Inl _ # fs) = Inl CHyper"
| "collect_body mx acc (Inr None # fs) = collect_body mx acc fs"
| "collect_body mx acc (Inr (Some d) # fs) =
    (if length acc + length d > mx then Inl UploadChunkTooLarge else collect_body mx (acc @ d) fs)"

section \<open>Building a request\<close>

text \<open>What the client hands to the HTTP library: method, target, headers, body.\<close>

record RequestParts =
  rp_method :: rstr
  rp_uri :: rstr
  rp_headers :: "(rstr \<times> rstr) list"
  rp_body :: bytes

definition compose_path :: "(bytes \<Rightarrow> rstr) \<Rightarrow> ClientConfig \<Rightarrow> SessionId \<Rightarrow> rstr" where
  "compose_path hex_encode config sid =
    (let p = cc_path_prefix config;
         slashed = (if ends_with p [47] then p else p @ [47])
     in case cc_session_placement config of
          Path \<Rightarrow> slashed @ sid_to_hex hex_encode sid
        | Query \<Rightarrow> slashed @ [63] @ cc_session_key config @ [61] @ sid_to_hex hex_encode sid
        | _ \<Rightarrow> p)"

definition build_request ::
    "(bytes \<Rightarrow> rstr) \<Rightarrow> rstr \<Rightarrow> rstr \<Rightarrow> ClientConfig \<Rightarrow> SessionId \<Rightarrow> u64 option \<Rightarrow> bytes \<Rightarrow> RequestParts" where
  "build_request hex_encode mthd path config sid seq body =
    \<lparr>rp_method = mthd, rp_uri = path,
     rp_headers =
       [(str ''host'', cc_host config)] @
       (if mthd = str ''POST'' then [(str ''content-type'', str ''application/grpc'')] else []) @
       (case cc_session_placement config of
          Header \<Rightarrow> [(to_ascii_lowercase (cc_session_header config), sid_to_hex hex_encode sid)]
        | Cookie \<Rightarrow> [(str ''cookie'', cc_session_key config @ [61] @ sid_to_hex hex_encode sid)]
        | _ \<Rightarrow> []) @
       (case seq of
          None \<Rightarrow> []
        | Some s \<Rightarrow>
            (case cc_seq_placement config of
               Header \<Rightarrow> [(to_ascii_lowercase (cc_seq_header config), show_nat (unat s))]
             | Cookie \<Rightarrow> [(str ''cookie'', str ''x_seq='' @ show_nat (unat s))]
             | _ \<Rightarrow> [])),
     rp_body = body\<rparr>"

section \<open>A request on its way\<close>

text \<open>
  What the server sees of a request the client built: the documented behaviour of an HTTP
  library on the two ends.  The target splits at the first question mark, a header is
  looked up by its first occurrence, and cookies are the values of the cookie headers.
\<close>

definition presents :: "RequestParts \<Rightarrow> HttpRequest \<Rightarrow> bool" where
  "presents r q \<longleftrightarrow>
    hr_method q = rp_method r \<and>
    hr_path q = takeWhile (\<lambda>c. c \<noteq> 63) (rp_uri r) \<and>
    hr_query q = (if 63 \<in> set (rp_uri r) then Some (tl (dropWhile (\<lambda>c. c \<noteq> 63) (rp_uri r))) else None) \<and>
    hr_authority q = None \<and>
    hr_header q = map_of (rp_headers r) \<and>
    hr_cookies q = map snd (filter (\<lambda>h. fst h = str ''cookie'') (rp_headers r)) \<and>
    hr_headers q = rp_headers r \<and>
    hr_body q = [Inr (Some (rp_body r))]"

definition carriers_agree :: "ClientConfig \<Rightarrow> ServerConfig \<Rightarrow> bool" where
  "carriers_agree cc sc \<longleftrightarrow>
    sc_session_placement sc = cc_session_placement cc \<and> sc_seq_placement sc = cc_seq_placement cc \<and>
    sc_session_header sc = cc_session_header cc \<and> sc_session_key sc = cc_session_key cc \<and>
    sc_seq_header sc = cc_seq_header cc \<and> sc_path_prefix sc = cc_path_prefix cc \<and>
    sc_host sc \<in> {None, Some (cc_host cc)}"

text \<open>The \<^verbatim>\<open>hex\<close> crate on one identifier: lower-case digits, two per byte, decoded back.\<close>

definition hex_ok :: "(bytes \<Rightarrow> rstr) \<Rightarrow> (rstr \<Rightarrow> bytes option) \<Rightarrow> SessionId \<Rightarrow> bool" where
  "hex_ok hex_encode hex_decode sid \<longleftrightarrow>
    hex_decode (hex_encode sid) = Some sid \<and> length (hex_encode sid) = 32 \<and>
    list_all is_ascii_hexdigit (hex_encode sid)"

text \<open>A key of a query or cookie: printable and free of the separators.\<close>

definition key_ok :: "rstr \<Rightarrow> bool" where
  "key_ok k \<longleftrightarrow> k \<noteq> [] \<and> list_all (\<lambda>c. 32 < c \<and> c \<le> 127 \<and> c \<notin> {38, 59, 61, 63}) k"

definition config_ok :: "ClientConfig \<Rightarrow> bool" where
  "config_ok cc \<longleftrightarrow> 63 \<notin> set (cc_path_prefix cc) \<and> key_ok (cc_session_key cc) \<and>
    to_ascii_lowercase (cc_session_header cc) \<notin> {str ''host'', str ''content-type'', str ''cookie''} \<and>
    to_ascii_lowercase (cc_seq_header cc) \<notin>
      {str ''host'', str ''content-type'', str ''cookie'', to_ascii_lowercase (cc_session_header cc)}"

section \<open>Lemmas\<close>

lemma hexdigit_range: "is_ascii_hexdigit c \<Longrightarrow> 32 < c \<and> c \<le> 127 \<and> c \<notin> {38, 45, 47, 59, 61, 63}"
  by (auto simp: is_ascii_hexdigit_def word_le_nat_alt word_less_nat_alt)

lemma hex_okD:
  assumes "hex_ok he hx sid"
  shows "hx (he sid) = Some sid" "length (he sid) = 32" "he sid \<noteq> []"
    "c \<in> {38, 45, 47, 59, 61, 63} \<Longrightarrow> c \<notin> set (he sid)"
    "32 < last (he sid) \<and> last (he sid) \<le> 127"
proof -
  have l: "length (he sid) = 32" "\<forall>c \<in> set (he sid). 32 < c \<and> c \<le> 127 \<and> c \<notin> {38, 45, 47, 59, 61, 63}"
    using assms hexdigit_range by (auto simp: hex_ok_def list_all_iff)
  show "hx (he sid) = Some sid" "length (he sid) = 32"
    using assms by (simp_all add: hex_ok_def)
  then show ne: "he sid \<noteq> []"
    by auto
  show "c \<in> {38, 45, 47, 59, 61, 63} \<Longrightarrow> c \<notin> set (he sid)"
    using l(2) by blast
  show "32 < last (he sid) \<and> last (he sid) \<le> 127"
    using l(2) last_in_set [OF ne] by blast
qed

lemma sid_from_hex: "hex_ok he hx sid \<Longrightarrow> sid_from_str hx (he sid) = Inr sid"
  by (simp add: sid_from_str_def HEX_LEN_def hex_okD)

lemma filter_dashes:
  "45 \<notin> set h \<Longrightarrow> length h = 32 \<Longrightarrow>
   filter (\<lambda>c. c \<noteq> 45) (take 8 h @ [45] @ take 4 (drop 8 h) @ [45] @ take 4 (drop 12 h) @ [45] @
     take 4 (drop 16 h) @ [45] @ take 12 (drop 20 h)) = h"
proof -
  assume h: "45 \<notin> set h" "length h = 32"
  have sub: "filter (\<lambda>c. c \<noteq> 45) x = x" if "set x \<subseteq> set h" for x
    using h(1) that by (auto simp: filter_id_conv)
  have sets: "set (take a (drop b h)) \<subseteq> set h" "set (take a h) \<subseteq> set h" for a b
    by (auto dest: in_set_takeD in_set_dropD)
  have split: "take (a + b) h = take a h @ take b (drop a h)" for a b
    by (rule take_add)
  have "take 8 h @ take 4 (drop 8 h) @ take 4 (drop 12 h) @ take 4 (drop 16 h) @ take 12 (drop 20 h) = h"
    using split [of 8 4] split [of 12 4] split [of 16 4] split [of 20 12] h(2) by simp
  then show ?thesis
    by (simp add: sub sets)
qed

lemma sid_from_uuid:
  assumes "hex_ok he hx sid"
  shows "sid_from_str hx (sid_to_uuid he sid) = Inr sid"
proof -
  have "length (sid_to_uuid he sid) = 36"
    using hex_okD(2) [OF assms] by (simp add: sid_to_uuid_def sid_to_hex_def Let_def)
  moreover have "filter (\<lambda>c. c \<noteq> 45) (sid_to_uuid he sid) = he sid"
    using filter_dashes [of "he sid"] hex_okD(2) [OF assms] hex_okD(4) [OF assms, of 45]
    by (simp add: sid_to_uuid_def sid_to_hex_def Let_def)
  ultimately show ?thesis
    using hex_okD(1,2) [OF assms] by (simp add: sid_from_str_def HEX_LEN_def UUID_LEN_def)
qed

lemma cookie_value_Cons:
  assumes "key_ok k" and "59 \<notin> set v" and "v \<noteq> []" and "32 < last v \<and> last v \<le> 127"
  shows "cookie_value ((k @ 61 # v) # cs) key = (if k = key then Some v else cookie_value cs key)"
proof -
  have k: "k \<noteq> []" "59 \<notin> set k" "61 \<notin> set k" "32 < hd k" "hd k \<le> 127"
    using assms(1) hd_in_set [of k] by (auto simp: key_ok_def list_all_iff)
  then have "trim (k @ 61 # v) = k @ 61 # v"
    using assms(3,4) by (intro trim_graphic) auto
  moreover have "split_char 59 (k @ 61 # v) = [k @ 61 # v]"
    using k assms(2) by (intro split_char_none) auto
  ultimately show ?thesis
    using k(3) by (simp add: cookie_value_def split_once_Some List.map_filter_simps)
qed

lemma query_value_single:
  "\<lbrakk>key_ok k; 38 \<notin> set v\<rbrakk> \<Longrightarrow> query_value (k @ 61 # v) key = (if k = key then Some v else None)"
proof -
  assume k: "key_ok k" and v: "38 \<notin> set v"
  then have "38 \<notin> set (k @ 61 # v)" "61 \<notin> set k"
    by (auto simp: key_ok_def list_all_iff)
  then show ?thesis
    by (simp add: query_value_def split_once_Some List.map_filter_simps del: set_append)
qed

lemma presents_target:
  assumes "presents (build_request he m (compose_path he cc sid) cc sid seq body) q"
    and "63 \<notin> set (cc_path_prefix cc)" and "hex_ok he hx sid"
  shows "hr_path q = (case cc_session_placement cc of
      Path \<Rightarrow> (if ends_with (cc_path_prefix cc) [47] then cc_path_prefix cc else cc_path_prefix cc @ [47]) @ he sid
    | Query \<Rightarrow> (if ends_with (cc_path_prefix cc) [47] then cc_path_prefix cc else cc_path_prefix cc @ [47])
    | _ \<Rightarrow> cc_path_prefix cc)"
    and "hr_query q = (case cc_session_placement cc of
      Query \<Rightarrow> Some (cc_session_key cc @ 61 # he sid) | _ \<Rightarrow> None)"
proof -
  have no: "63 \<notin> set (he sid)"
    using hex_okD(4) [OF assms(3)] by simp
  have tw: "takeWhile (\<lambda>c. c \<noteq> 63) x = x" if "63 \<notin> set x" for x :: rstr
    using that by (auto simp: takeWhile_eq_all_conv)
  have dw: "takeWhile (\<lambda>c. c \<noteq> 63) (x @ 63 # y) = x" "dropWhile (\<lambda>c. c \<noteq> 63) (x @ 63 # y) = 63 # y"
    if "63 \<notin> set x" for x y :: rstr
    using that by (simp_all add: takeWhile_append dropWhile_append)
  show "hr_path q = (case cc_session_placement cc of
      Path \<Rightarrow> (if ends_with (cc_path_prefix cc) [47] then cc_path_prefix cc else cc_path_prefix cc @ [47]) @ he sid
    | Query \<Rightarrow> (if ends_with (cc_path_prefix cc) [47] then cc_path_prefix cc else cc_path_prefix cc @ [47])
    | _ \<Rightarrow> cc_path_prefix cc)"
    "hr_query q = (case cc_session_placement cc of
      Query \<Rightarrow> Some (cc_session_key cc @ 61 # he sid) | _ \<Rightarrow> None)"
    using assms(1,2) no dw [of "cc_path_prefix cc"] dw [of "cc_path_prefix cc @ [47]"]
    by (auto simp: presents_def build_request_def compose_path_def sid_to_hex_def Let_def tw
        split: Placement.splits)
qed

lemma build_request_headers:
  "rp_headers (build_request he m u cc sid seq body) =
     [(str ''host'', cc_host cc)] @
     (if m = str ''POST'' then [(str ''content-type'', str ''application/grpc'')] else []) @
     (case cc_session_placement cc of
        Header \<Rightarrow> [(to_ascii_lowercase (cc_session_header cc), he sid)]
      | Cookie \<Rightarrow> [(str ''cookie'', cc_session_key cc @ 61 # he sid)]
      | _ \<Rightarrow> []) @
     (case seq of None \<Rightarrow> [] | Some s \<Rightarrow>
       (case cc_seq_placement cc of
          Header \<Rightarrow> [(to_ascii_lowercase (cc_seq_header cc), show_nat (unat s))]
        | Cookie \<Rightarrow> [(str ''cookie'', str ''x_seq='' @ show_nat (unat s))]
        | _ \<Rightarrow> []))"
  by (simp add: build_request_def sid_to_hex_def split: Placement.split)

lemma presents_headers:
  assumes "presents (build_request he m u cc sid seq body) q" and "config_ok cc"
  shows "hr_header q (str ''host'') = Some (cc_host cc)"
    and "cc_session_placement cc = Header \<Longrightarrow>
      hr_header q (to_ascii_lowercase (cc_session_header cc)) = Some (he sid)"
    and "\<lbrakk>cc_seq_placement cc = Header; seq = Some s\<rbrakk> \<Longrightarrow>
      hr_header q (to_ascii_lowercase (cc_seq_header cc)) = Some (show_nat (unat s))"
    and "hr_cookies q =
      (if cc_session_placement cc = Cookie then [cc_session_key cc @ 61 # he sid] else []) @
      (case seq of Some s \<Rightarrow> if cc_seq_placement cc = Cookie then [str ''x_seq='' @ show_nat (unat s)] else []
       | None \<Rightarrow> [])"
  using assms unfolding presents_def build_request_headers
  by (auto simp: config_ok_def split: Placement.splits option.splits)

lemma path_segment_all: "47 \<notin> set x \<Longrightarrow> path_segment x = (x, [])"
  by (auto simp: path_segment_def takeWhile_eq_all_conv)

lemma request_session:
  assumes q: "presents (build_request he m (compose_path he cc sid) cc sid seq body) q"
    and agree: "carriers_agree cc sc" and ok: "config_ok cc" and hx: "hex_ok he hx sid"
  shows "\<exists>tail. session_id hx q sc = Inr (sid, tail)"
proof -
  have pre: "63 \<notin> set (cc_path_prefix cc)"
    using ok by (simp add: config_ok_def)
  note target = presents_target [OF q pre hx]
  note hdr = presents_headers [OF q ok]
  have auth: "request_authority q = cc_host cc"
    using hdr(1) q by (simp add: request_authority_def presents_def)
  then have host: "\<not> (case sc_host sc of Some e \<Rightarrow> \<not> host_matches q e | None \<Rightarrow> False)"
    using agree by (auto simp: carriers_agree_def host_matches_def)
  have start: "starts_with (hr_path q) (cc_path_prefix cc)"
    using target(1) by (auto simp: starts_with_def split: Placement.splits)
  have hexno: "47 \<notin> set (he sid)" "he sid \<noteq> []"
    using hex_okD [OF hx] by auto
  have strip: "(case strip_prefix [47] x of Some r \<Rightarrow> r | None \<Rightarrow> x) = he sid"
    if "x = he sid \<or> x = 47 # he sid" for x
    using that hexno by (cases "he sid") (auto simp: strip_prefix_def starts_with_def)
  have sk: "key_ok (cc_session_key cc)"
    using ok by (simp add: config_ok_def)
  show ?thesis
  proof (cases "cc_session_placement cc")
    case Path
    then have "drop (length (cc_path_prefix cc)) (hr_path q) \<in> {he sid, 47 # he sid}"
      using target(1) by auto
    then show ?thesis
      using Path agree host start strip sid_from_hex [OF hx] path_segment_all [OF hexno(1)]
      by (auto simp: session_id_def carriers_agree_def Let_def)
  next
    case Query
    then show ?thesis
      using agree host start target(2) query_value_single [OF sk] hex_okD(4) [OF hx, of 38]
        sid_from_hex [OF hx]
      by (auto simp: session_id_def carriers_agree_def Let_def)
  next
    case Header
    then show ?thesis
      using agree host start hdr(2) sid_from_hex [OF hx]
      by (auto simp: session_id_def carriers_agree_def Let_def)
  next
    case Cookie
    then have "cookie_value (hr_cookies q) (cc_session_key cc) = Some (he sid)"
      using hdr(4) cookie_value_Cons [OF sk, of "he sid"] hex_okD [OF hx] by simp
    then show ?thesis
      using Cookie agree host start sid_from_hex [OF hx]
      by (auto simp: session_id_def carriers_agree_def Let_def)
  qed
qed

lemma show_nat_bytes: "show_nat n \<noteq> []" "c \<in> set (show_nat n) \<Longrightarrow> 48 \<le> c \<and> c \<le> 57"
  using dec_digits_Nil [of n n] dec_digits_set [of c "Suc n" n] by (auto simp: show_nat_def simp del: dec_digits.simps)

lemma cookie_seq:
  "cookie_value [str ''x_seq='' @ show_nat n] (str ''x_seq'') = Some (show_nat n)"
proof -
  have "48 \<le> last (show_nat n) \<and> last (show_nat n) \<le> 57"
    using show_nat_bytes by (metis last_in_set)
  then have l: "32 < last (show_nat n) \<and> last (show_nat n) \<le> 127"
    by (auto simp: word_le_nat_alt word_less_nat_alt)
  have no: "59 \<notin> set (show_nat n)"
    using show_nat_bytes(2) [of 59 n] by auto
  have "key_ok (str ''x_seq'')"
    by (simp add: key_ok_def)
  from cookie_value_Cons [OF this no show_nat_bytes(1) l, of "[]" "str ''x_seq''"] show ?thesis
    by simp
qed

lemma request_sequence:
  assumes q: "presents (build_request he m (compose_path he cc sid) cc sid (Some s) body) q"
    and agree: "carriers_agree cc sc" and ok: "config_ok cc" and hx: "hex_ok he hx sid"
    and key: "cc_session_key cc \<noteq> str ''x_seq''"
  shows "cc_seq_placement cc \<in> {Header, Cookie} \<Longrightarrow> sequence q sc = Inr s"
    and "cc_seq_placement cc = Query \<Longrightarrow> sequence q sc = Inl MissingSequence"
proof -
  note hdr = presents_headers [OF q ok]
  have sk: "key_ok (cc_session_key cc)" and pre: "63 \<notin> set (cc_path_prefix cc)"
    using ok by (simp_all add: config_ok_def)
  note query = presents_target(2) [OF q pre hx]
  have cookie: "cookie_value (hr_cookies q) (str ''x_seq'') = Some (show_nat (unat s))"
    if "cc_seq_placement cc = Cookie"
    using hdr(4) that key cookie_seq [of "unat s"] hex_okD [OF hx]
      cookie_value_Cons [OF sk, of "he sid" "[str ''x_seq='' @ show_nat (unat s)]" "str ''x_seq''"]
    by (cases "cc_session_placement cc = Cookie") (simp_all del: str_simps)
  show "sequence q sc = Inr s" if "cc_seq_placement cc \<in> {Header, Cookie}"
    using that agree hdr(3) cookie parse_u64_show [of s]
    by (auto simp: sequence_def carriers_agree_def Let_def simp del: str_simps)
  have "query_value (case hr_query q of Some q \<Rightarrow> q | None \<Rightarrow> []) (str ''x_seq'') = None"
    using query query_value_single [OF sk, of "he sid" "str ''x_seq''"] hex_okD(4) [OF hx, of 38] key
    by (cases "cc_session_placement cc") (simp_all add: query_value_def List.map_filter_simps)
  then show "sequence q sc = Inl MissingSequence" if "cc_seq_placement cc = Query"
    using that agree by (simp add: sequence_def carriers_agree_def Let_def del: str_simps)
qed

section \<open>A concrete instance\<close>

text \<open>Hexadecimal text as a concrete instance of the encoder and decoder.\<close>

definition sample_hex :: "bytes \<Rightarrow> rstr" where
  "sample_hex bs = replicate 31 48 @ [if bs = replicate 16 0 then 48 else 49]"

definition sample_unhex :: "rstr \<Rightarrow> bytes option" where
  "sample_unhex s = (if s = replicate 32 48 then Some (replicate 16 0) else None)"

definition sample_request :: "RequestParts \<Rightarrow> HttpRequest" where
  "sample_request r =
    \<lparr>hr_method = rp_method r, hr_path = takeWhile (\<lambda>c. c \<noteq> 63) (rp_uri r),
     hr_query = (if 63 \<in> set (rp_uri r) then Some (tl (dropWhile (\<lambda>c. c \<noteq> 63) (rp_uri r))) else None),
     hr_authority = None, hr_header = map_of (rp_headers r),
     hr_cookies = map snd (filter (\<lambda>h. fst h = str ''cookie'') (rp_headers r)),
     hr_headers = rp_headers r,
     hr_body = [Inr (Some (rp_body r))]\<rparr>"

lemma sample_presents: "presents r (sample_request r)"
  by (simp add: presents_def sample_request_def)

lemma sample_hex_ok: "hex_ok sample_hex sample_unhex (replicate 16 0)"
  by (simp add: hex_ok_def sample_hex_def sample_unhex_def is_ascii_hexdigit_def list_all_iff)
     (simp add: numeral_eq_Suc replicate_append_same)

lemma sample_config: "config_ok client_config_default" "carriers_agree client_config_default server_config_default"
  by (simp_all add: config_ok_def key_ok_def carriers_agree_def client_config_default_def
      server_config_default_def to_ascii_lowercase_def ascii_lower_def)

text \<open>
  Both textual forms of a session identifier parse back to it, so the two halves of a
  session meet whichever form each used.
\<close>

lemma session_id_forms:
  assumes "hex_ok he hx sid"
  shows "sid_from_str hx (sid_to_hex he sid) = Inr sid \<and> sid_from_str hx (sid_to_uuid he sid) = Inr sid"
  using sid_from_hex [OF assms] sid_from_uuid [OF assms] by (simp add: sid_to_hex_def)

end
