(* ===== verification/Carrier_Server.thy ===== *)
theory Carrier_Server
  imports Carrier_Http "HOL-Library.AList"
begin

text \<open>
  The server side of the carrier (\<^verbatim>\<open>server/mod.rs\<close>, \<^verbatim>\<open>packet_up.rs\<close>, \<^verbatim>\<open>stream_up.rs\<close>,
  \<^verbatim>\<open>stream_one.rs\<close>): the replies, the reordering dispatcher of \<^verbatim>\<open>packet-up\<close>, the pairing
  dispatcher of \<^verbatim>\<open>stream-up\<close>, and the single-exchange handler.

  The uplink handler of \<^verbatim>\<open>packet-up\<close> runs in two parts, as in the source: a part under the
  lock that takes the session's writer, and the write that puts it back.  A pipe is known
  by which end a writer holds: the session's own, or the throw-away one left in its place,
  whose other end is already gone.  A duplicate map insertion replaces (\<^verbatim>\<open>BTreeMap\<close>).
\<close>

section \<open>Replies\<close>

datatype ReplyBody = EmptyBody | DownlinkBody | KeepaliveBody "nat \<times> nat"

record HttpReply =
  ry_status :: nat
  ry_headers :: "(rstr \<times> rstr) list"
  ry_body :: ReplyBody

text \<open>\<open>pad\<close> is the random value of \<^verbatim>\<open>x_padding\<close>.\<close>

definition empty_response :: "rstr \<Rightarrow> nat \<Rightarrow> HttpReply" where
  "empty_response pad code =
    \<lparr>ry_status = code, ry_headers = [(str ''x-padding'', pad)], ry_body = EmptyBody\<rparr>"

definition uplink_keepalive_response :: "rstr \<Rightarrow> nat \<times> nat \<Rightarrow> HttpReply" where
  "uplink_keepalive_response pad secs =
    (let lo = max (fst secs) 1; hi = max (snd secs) lo in
     \<lparr>ry_status = 200,
      ry_headers = [(str ''x-accel-buffering'', str ''no''), (str ''cache-control'', str ''no-store''),
        (str ''x-padding'', pad)],
      ry_body = KeepaliveBody (lo, hi)\<rparr>)"

definition downlink_response :: "rstr \<Rightarrow> HttpReply" where
  "downlink_response pad =
    \<lparr>ry_status = 200,
     ry_headers = [(str ''content-type'', str ''text/event-stream''), (str ''cache-control'', str ''no-store''),
       (str ''x-accel-buffering'', str ''no''), (str ''x-padding'', pad),
       (str ''access-control-allow-origin'', str ''*''),
       (str ''access-control-allow-methods'', str ''GET, POST'')],
     ry_body = DownlinkBody\<rparr>"

text \<open>
  The request \<^verbatim>\<open>proxy_to_decoy\<close> sends to the decoy, and the answer to a request that is not
  the tunnel: the decoy's answer to it, when one is configured.
\<close>

definition decoy_request :: "HttpRequest \<Rightarrow> bytes \<Rightarrow> RequestParts" where
  "decoy_request req body =
    \<lparr>rp_method = hr_method req,
     rp_uri = hr_path req @ (case hr_query req of Some q \<Rightarrow> [63] @ q | None \<Rightarrow> []),
     rp_headers =
       (str ''host'',
        case hr_authority req of
          Some a \<Rightarrow> a
        | None \<Rightarrow> (case hr_header req (str ''host'') of Some h \<Rightarrow> h | None \<Rightarrow> str ''localhost'')) #
       filter (\<lambda>h. fst h \<notin> {str ''host'', str ''connection'', str ''transfer-encoding''}) (hr_headers req),
     rp_body = body\<rparr>"

datatype Answer = Reply HttpReply | FromDecoy SocketAddr HttpRequest

definition not_tunnel :: "rstr \<Rightarrow> ServerConfig \<Rightarrow> HttpRequest \<Rightarrow> Answer" where
  "not_tunnel pad config req =
    (case sc_decoy config of
       Some decoy \<Rightarrow> FromDecoy decoy req
     | None \<Rightarrow> Reply (empty_response pad 404))"

section \<open>packet-up\<close>

datatype PipeEnd = OwnPipe | DeadPipe

record SessionState =
  ss_buffered :: "(u64 \<times> bytes) list"
  ss_next_seq :: u64
  ss_upload_wr :: PipeEnd
  ss_downlink_rd :: bool
  ss_accept_pending :: bool
  ss_accepted :: bool
  ss_delivered :: bytes

record PacketUp =
  pu_sessions :: "SessionId \<rightharpoonup> SessionState"
  pu_accept :: "SessionId list"

definition fresh_state :: SessionState where
  "fresh_state =
    \<lparr>ss_buffered = [], ss_next_seq = 0, ss_upload_wr = OwnPipe, ss_downlink_rd = True,
     ss_accept_pending = True, ss_accepted = False, ss_delivered = []\<rparr>"

definition pu_entry :: "SessionId \<Rightarrow> PacketUp \<Rightarrow> SessionState" where
  "pu_entry sid d = (case pu_sessions d sid of Some e \<Rightarrow> e | None \<Rightarrow> fresh_state)"

function pu_flush ::
    "(u64 \<times> bytes) list \<Rightarrow> u64 \<Rightarrow> bytes list \<times> (u64 \<times> bytes) list \<times> u64" where
  "pu_flush buf nxt =
    (case map_of buf nxt of
       None \<Rightarrow> ([], buf, nxt)
     | Some b \<Rightarrow>
         (let (bs, buf', nxt') = pu_flush (AList.delete nxt buf) (nxt + 1)
          in (b # bs, buf', nxt')))"
  by pat_completeness auto
termination
proof (relation "measure (\<lambda>(buf, nxt). length buf)")
  fix buf :: "(u64 \<times> bytes) list" and nxt b
  assume "map_of buf nxt = Some b"
  then have "(nxt, b) \<in> set buf"
    by (rule map_of_SomeD)
  then have "length (filter (\<lambda>(k, _). nxt \<noteq> k) buf) < length buf"
    by (intro length_filter_less [of "(nxt, b)"]) auto
  then show "((AList.delete nxt buf, nxt + 1), (buf, nxt)) \<in> measure (\<lambda>(buf, nxt). length buf)"
    by (simp add: AList.delete_eq case_prod_beta')
qed simp

declare pu_flush.simps [simp del]

record UplinkTask =
  ut_sid :: SessionId
  ut_writer :: PipeEnd
  ut_chunks :: "bytes list"
  ut_accept :: bool

text \<open>The part under the lock: an early status, or the writes to drive.\<close>

definition pu_uplink_lock ::
    "nat \<Rightarrow> SessionId \<Rightarrow> u64 \<Rightarrow> bytes \<Rightarrow> PacketUp \<Rightarrow> (nat + UplinkTask) \<times> PacketUp" where
  "pu_uplink_lock max_buffered sid seq chunk d =
    (let entry = pu_entry sid d;
         put = (\<lambda>e. d\<lparr>pu_sessions := (pu_sessions d)(sid \<mapsto> e)\<rparr>)
     in if seq < ss_next_seq entry then (Inl 200, put entry)
        else if seq > ss_next_seq entry \<and> length (ss_buffered entry) \<ge> max_buffered
        then (Inl 429, put entry)
        else
          let buffered = AList.update seq chunk (ss_buffered entry);
              (to_write, buffered, next_seq) = pu_flush buffered (ss_next_seq entry);
              accept = (if \<not> ss_accepted entry \<and> \<not> ss_downlink_rd entry then False
                        else if \<not> ss_accepted entry then ss_accept_pending entry
                        else False);
              accepts = (\<not> ss_accepted entry \<and> ss_downlink_rd entry);
              entry' = entry\<lparr>ss_buffered := buffered, ss_next_seq := next_seq,
                ss_upload_wr := DeadPipe, ss_accepted := (ss_accepted entry \<or> accepts),
                ss_accept_pending := (ss_accept_pending entry \<and> \<not> accepts)\<rparr>
          in (Inr \<lparr>ut_sid = sid, ut_writer = ss_upload_wr entry, ut_chunks = to_write,
                ut_accept = accept\<rparr>, put entry'))"

text \<open>The write: a dead pipe fails at once; the writer is put back either way.\<close>

definition pu_uplink_write :: "UplinkTask \<Rightarrow> PacketUp \<Rightarrow> PacketUp" where
  "pu_uplink_write t d =
    (let written = (case ut_writer t of OwnPipe \<Rightarrow> concat (ut_chunks t) | DeadPipe \<Rightarrow> []);
         sessions = (case pu_sessions d (ut_sid t) of
             Some e \<Rightarrow> (pu_sessions d)(ut_sid t \<mapsto>
               e\<lparr>ss_upload_wr := ut_writer t, ss_delivered := ss_delivered e @ written\<rparr>)
           | None \<Rightarrow> pu_sessions d)
     in d\<lparr>pu_sessions := sessions,
          pu_accept := pu_accept d @ (if ut_accept t then [ut_sid t] else [])\<rparr>)"

definition pu_uplink :: "nat \<Rightarrow> SessionId \<Rightarrow> u64 \<Rightarrow> bytes \<Rightarrow> PacketUp \<Rightarrow> nat \<times> PacketUp" where
  "pu_uplink max_buffered sid seq chunk d =
    (case pu_uplink_lock max_buffered sid seq chunk d of
       (Inl status, d) \<Rightarrow> (status, d)
     | (Inr t, d) \<Rightarrow> (200, pu_uplink_write t d))"

definition pu_downlink :: "rstr \<Rightarrow> SessionId \<Rightarrow> PacketUp \<Rightarrow> HttpReply \<times> PacketUp" where
  "pu_downlink pad sid d =
    (let entry = pu_entry sid d;
         accept = (\<not> ss_accepted entry \<and> ss_accept_pending entry);
         entry' = entry\<lparr>ss_downlink_rd := False, ss_accepted := True,
           ss_accept_pending := (ss_accept_pending entry \<and> ss_accepted entry)\<rparr>;
         d' = d\<lparr>pu_sessions := (pu_sessions d)(sid \<mapsto> entry')\<rparr>
     in if \<not> ss_downlink_rd entry then (empty_response pad 409, d')
        else (downlink_response pad,
              d'\<lparr>pu_accept := pu_accept d @ (if accept then [sid] else [])\<rparr>))"

definition pu_handle ::
    "(rstr \<Rightarrow> bytes option) \<Rightarrow> ServerConfig \<Rightarrow> rstr \<Rightarrow> HttpRequest \<Rightarrow> PacketUp
      \<Rightarrow> (CarrierError + Answer) \<times> PacketUp" where
  "pu_handle hex_decode config pad req d =
    (if sc_mode config \<noteq> PacketUp then (Inr (Reply (empty_response pad 404)), d)
     else case session_id hex_decode req config of
       Inl _ \<Rightarrow> (Inr (not_tunnel pad config req), d)
     | Inr (sid, _) \<Rightarrow>
         if hr_method req = str ''GET'' then
           (let (reply, d) = pu_downlink pad sid d in (Inr (Reply reply), d))
         else case sequence req config of
           Inl _ \<Rightarrow> (Inr (Reply (empty_response pad 400)), d)
         | Inr seq \<Rightarrow>
             (case collect_body (sc_max_post_bytes config) [] (hr_body req) of
                Inl e \<Rightarrow> (Inl e, d)
              | Inr chunk \<Rightarrow>
                  (let (status, d) = pu_uplink (sc_max_buffered_posts config) sid seq chunk d
                   in (Inr (Reply (empty_response pad status)), d))))"

section \<open>stream-up and stream-one\<close>

text \<open>A request is known by a number; a parked half remembers which request it came from.\<close>

datatype Half = UplinkPosted nat | DownlinkRequested nat

record StreamUpTable =
  su_table :: "SessionId \<rightharpoonup> Half"
  su_accept :: "(SessionId \<times> nat \<times> nat) list"

definition su_uplink ::
    "rstr \<Rightarrow> ServerConfig \<Rightarrow> HttpRequest \<Rightarrow> nat \<Rightarrow> SessionId \<Rightarrow> StreamUpTable \<Rightarrow> HttpReply \<times> StreamUpTable" where
  "su_uplink pad config req rid sid d =
    (let keepalive = (hr_header req (str ''referer'') \<noteq> None \<and> snd (sc_stream_up_secs config) > 0);
         ok_response = (if keepalive then uplink_keepalive_response pad (sc_stream_up_secs config)
                        else empty_response pad 200)
     in case su_table d sid of
          Some (DownlinkRequested g) \<Rightarrow>
            (ok_response,
             d\<lparr>su_table := (su_table d)(sid := None), su_accept := su_accept d @ [(sid, rid, g)]\<rparr>)
        | Some (UplinkPosted p) \<Rightarrow> (empty_response pad 409, d)
        | None \<Rightarrow> (ok_response, d\<lparr>su_table := (su_table d)(sid \<mapsto> UplinkPosted rid)\<rparr>))"

definition su_downlink :: "rstr \<Rightarrow> nat \<Rightarrow> SessionId \<Rightarrow> StreamUpTable \<Rightarrow> HttpReply \<times> StreamUpTable" where
  "su_downlink pad rid sid d =
    (case su_table d sid of
       Some (UplinkPosted p) \<Rightarrow>
         (downlink_response pad,
          d\<lparr>su_table := (su_table d)(sid := None), su_accept := su_accept d @ [(sid, p, rid)]\<rparr>)
     | Some (DownlinkRequested g) \<Rightarrow> (empty_response pad 409, d)
     | None \<Rightarrow> (downlink_response pad, d\<lparr>su_table := (su_table d)(sid \<mapsto> DownlinkRequested rid)\<rparr>))"

definition su_handle ::
    "(rstr \<Rightarrow> bytes option) \<Rightarrow> ServerConfig \<Rightarrow> rstr \<Rightarrow> nat \<Rightarrow> HttpRequest \<Rightarrow> StreamUpTable
      \<Rightarrow> Answer \<times> StreamUpTable" where
  "su_handle hex_decode config pad rid req d =
    (if sc_mode config \<noteq> StreamUp then (Reply (empty_response pad 404), d)
     else case session_id hex_decode req config of
       Inl _ \<Rightarrow> (not_tunnel pad config req, d)
     | Inr (sid, _) \<Rightarrow>
         if hr_method req = str ''GET'' then map_prod Reply id (su_downlink pad rid sid d)
         else map_prod Reply id (su_uplink pad config req rid sid d))"

text \<open>
  \<^verbatim>\<open>stream-one\<close>: the accept channel holds 64 sessions and a full one is only logged.
\<close>

definition so_handle ::
    "(rstr \<Rightarrow> bytes option) \<Rightarrow> ServerConfig \<Rightarrow> rstr \<Rightarrow> HttpRequest \<Rightarrow> SessionId list \<Rightarrow> Answer \<times> SessionId list" where
  "so_handle hex_decode config pad req queue =
    (if sc_mode config \<noteq> StreamOne then (Reply (empty_response pad 404), queue)
     else case session_id hex_decode req config of
       Inl _ \<Rightarrow> (not_tunnel pad config req, queue)
     | Inr (sid, _) \<Rightarrow>
         (Reply (downlink_response pad), if length queue < 64 then queue @ [sid] else queue))"

text \<open>
  The dispatcher every connection of a server shares, built for the configured mode, and
  the service that hands it one request.  A failed request ends its connection only.
\<close>

datatype SharedDispatcher =
    DispatchStreamOne "SessionId list"
  | DispatchStreamUp StreamUpTable
  | DispatchPacketUp PacketUp

definition build_dispatcher :: "ServerConfig \<Rightarrow> SharedDispatcher" where
  "build_dispatcher config =
    (case sc_mode config of
       StreamOne \<Rightarrow> DispatchStreamOne []
     | StreamUp \<Rightarrow> DispatchStreamUp \<lparr>su_table = Map.empty, su_accept = []\<rparr>
     | PacketUp \<Rightarrow> DispatchPacketUp \<lparr>pu_sessions = Map.empty, pu_accept = []\<rparr>)"

fun serve_request ::
    "(rstr \<Rightarrow> bytes option) \<Rightarrow> ServerConfig \<Rightarrow> rstr \<Rightarrow> nat \<Rightarrow> HttpRequest \<Rightarrow> SharedDispatcher
      \<Rightarrow> (CarrierError + Answer) \<times> SharedDispatcher" where
  "serve_request hex_decode config pad rid req (DispatchStreamOne q) =
    map_prod Inr DispatchStreamOne (so_handle hex_decode config pad req q)"
| "serve_request hex_decode config pad rid req (DispatchStreamUp d) =
    map_prod Inr DispatchStreamUp (su_handle hex_decode config pad rid req d)"
| "serve_request hex_decode config pad rid req (DispatchPacketUp d) =
    map_prod id DispatchPacketUp (pu_handle hex_decode config pad req d)"

section \<open>Reordering\<close>

text \<open>
  \<open>stream_of f n\<close>: the bytes of the chunks numbered below \<open>n\<close>.  The invariant of a session
  whose chunk number \<open>s\<close> is \<open>f s\<close>: what was delivered is the stream up to the next number,
  and the buffer holds only later chunks, at most as many as allowed.
\<close>

definition stream_of :: "(u64 \<Rightarrow> bytes) \<Rightarrow> nat \<Rightarrow> bytes" where
  "stream_of f n = concat (map (\<lambda>i. f (of_nat i)) [0..<n])"

definition buffer_ok :: "(u64 \<Rightarrow> bytes) \<Rightarrow> u64 \<Rightarrow> (u64 \<times> bytes) list \<Rightarrow> bool" where
  "buffer_ok f n buf \<longleftrightarrow> distinct (map fst buf) \<and> (\<forall>(s, c) \<in> set buf. c = f s \<and> s \<noteq> - 1 \<and> n \<le> s)"

definition carrier_session_ok :: "(u64 \<Rightarrow> bytes) \<Rightarrow> nat \<Rightarrow> SessionState \<Rightarrow> bool" where
  "carrier_session_ok f mx e \<longleftrightarrow>
    ss_upload_wr e = OwnPipe \<and> ss_delivered e = stream_of f (unat (ss_next_seq e)) \<and>
    buffer_ok f (ss_next_seq e) (ss_buffered e) \<and> ss_next_seq e \<notin> fst ` set (ss_buffered e) \<and>
    length (ss_buffered e) \<le> mx"

lemma stream_of_append:
  "a \<le> b \<Longrightarrow> stream_of f a @ concat (map (\<lambda>i. f (of_nat i)) [a..<b]) = stream_of f b"
  by (metis concat_append le_add_diff_inverse map_append plus_nat.add_0 stream_of_def upt_add_eq_append zero_le)

lemma unat_succ_u64: "(n :: u64) \<noteq> - 1 \<Longrightarrow> unat (n + 1) = Suc (unat n)"
  by (metis add.commute add.inverse_inverse add_eq_0_iff unatSuc)

lemma delete_facts:
  assumes "distinct (map fst buf)" and "map_of buf k = Some b"
  shows "length (AList.delete k buf) < length buf"
    "set (AList.delete k buf) = set buf - {(k, b)}" "distinct (map fst (AList.delete k buf))"
proof -
  have kb: "(k, b) \<in> set buf"
    using assms(2) by (rule map_of_SomeD)
  then show "length (AList.delete k buf) < length buf"
    by (auto simp: AList.delete_eq intro!: length_filter_less [of "(k, b)"])
  show "set (AList.delete k buf) = set buf - {(k, b)}"
    using assms kb by (auto simp: AList.delete_eq dest: eq_key_imp_eq_value)
  show "distinct (map fst (AList.delete k buf))"
    using assms(1) by (simp add: distinct_delete)
qed

lemma pu_flush_spec:
  assumes "buffer_ok f n buf" and "pu_flush buf n = (bs, buf', n')"
  shows "n \<le> n' \<and> bs = map (\<lambda>i. f (of_nat i)) [unat n..<unat n'] \<and> buffer_ok f n' buf' \<and>
    n' \<notin> fst ` set buf' \<and> set buf' = {(s, c) \<in> set buf. n' \<le> s} \<and>
    (if bs = [] then buf' = buf else length buf' < length buf)"
  using assms
proof (induction buf n arbitrary: bs buf' n' rule: pu_flush.induct)
  case (1 buf n)
  show ?case
  proof (cases "map_of buf n")
    case None
    with "1.prems" show ?thesis
      by (subst (asm) pu_flush.simps) (force simp: map_of_eq_None_iff buffer_ok_def)
  next
    case (Some b)
    have b: "b = f n" "n \<noteq> - 1"
      using "1.prems"(1) map_of_SomeD [OF Some] by (auto simp: buffer_ok_def)
    have succ: "unat (n + 1) = Suc (unat n)"
      using b(2) by (rule unat_succ_u64)
    note del = delete_facts [OF _ Some]
    have dist: "distinct (map fst buf)"
      using "1.prems"(1) by (simp add: buffer_ok_def)
    have only: "s = n \<Longrightarrow> c = b" if "(s, c) \<in> set buf" for s c
      using that Some dist by (auto dest: map_of_is_SomeI)
    have later: "n + 1 \<le> s" if "(s, c) \<in> set buf" "s \<noteq> n" for s c
    proof -
      have "n \<le> s"
        using that(1) "1.prems"(1) by (auto simp: buffer_ok_def)
      with that(2) have "n < s"
        by auto
      then have "unat n < unat s"
        by (simp only: word_less_nat_alt)
      with succ show ?thesis
        by (simp add: word_le_nat_alt)
    qed
    obtain bs1 where r: "pu_flush (AList.delete n buf) (n + 1) = (bs1, buf', n')" "bs = b # bs1"
      using "1.prems"(2) Some by (subst (asm) pu_flush.simps) (auto split: prod.splits)
    have "n + 1 \<le> s" if "(s, c) \<in> set buf - {(n, b)}" for s c
      using that only later by blast
    then have ok: "buffer_ok f (n + 1) (AList.delete n buf)"
      using "1.prems"(1) del [OF dist] unfolding buffer_ok_def by blast
    note ih = "1.IH" [OF Some ok r(1)]
    have le: "n \<le> n'" "unat n < unat n'"
      using ih succ by (auto simp: word_le_nat_alt)
    have "[unat n..<unat n'] = unat n # [unat (n + 1)..<unat n']"
      using le(2) succ by (simp add: upt_conv_Cons)
    moreover have "{(s, c) \<in> set buf - {(n, b)}. n' \<le> s} = {(s, c) \<in> set buf. n' \<le> s}"
      using le(2) by (auto simp: word_le_nat_alt)
    ultimately show ?thesis
      using ih le r(2) b(1) del [OF dist] by (auto simp: split_beta split: if_splits)
  qed
qed

lemma buffer_ok_update:
  assumes "buffer_ok f n buf" and "n \<le> seq" and "seq \<noteq> - 1"
  shows "buffer_ok f n (AList.update seq (f seq) buf)"
    "fst ` set (AList.update seq (f seq) buf) = insert seq (fst ` set buf)"
    "length (AList.update seq (f seq) buf) \<le> Suc (length buf)"
proof -
  have dist: "distinct (map fst (AList.update seq (f seq) buf))"
    using assms(1) by (simp add: buffer_ok_def distinct_update)
  have "c = f s \<and> s \<noteq> - 1 \<and> n \<le> s" if "(s, c) \<in> set (AList.update seq (f seq) buf)" for s c
  proof -
    have "((map_of buf)(seq \<mapsto> f seq)) s = Some c"
      using that dist by (simp flip: update_conv')
    then show ?thesis
      using assms by (auto simp: buffer_ok_def split: if_splits dest: map_of_SomeD)
  qed
  with dist show "buffer_ok f n (AList.update seq (f seq) buf)"
    by (auto simp: buffer_ok_def)
  show "fst ` set (AList.update seq (f seq) buf) = insert seq (fst ` set buf)"
    by (simp add: dom_update)
  show "length (AList.update seq (f seq) buf) \<le> Suc (length buf)"
    by (induction buf) auto
qed

text \<open>A chunk is held when it was delivered or waits in the buffer.\<close>

definition held :: "SessionState \<Rightarrow> u64 \<Rightarrow> bool" where
  "held e s \<longleftrightarrow> s < ss_next_seq e \<or> s \<in> fst ` set (ss_buffered e)"

lemma pu_uplink_step:
  assumes "carrier_session_ok f mx (pu_entry sid d)" and "seq \<noteq> - 1"
    and "pu_uplink mx sid seq (f seq) d = (st, d')"
  shows "carrier_session_ok f mx (pu_entry sid d') \<and> (\<forall>s. held (pu_entry sid d) s \<longrightarrow> held (pu_entry sid d') s) \<and>
    (st = 200 \<longrightarrow> held (pu_entry sid d') seq) \<and>
    (st \<noteq> 200 \<longrightarrow> st = 429 \<and> mx \<le> length (ss_buffered (pu_entry sid d)) \<and> ss_next_seq (pu_entry sid d) < seq)"
proof -
  define e where "e = pu_entry sid d"
  let ?n = "ss_next_seq e"
  have e: "ss_upload_wr e = OwnPipe" "ss_delivered e = stream_of f (unat ?n)"
      "buffer_ok f ?n (ss_buffered e)" "?n \<notin> fst ` set (ss_buffered e)" "length (ss_buffered e) \<le> mx"
    using assms(1) by (simp_all add: carrier_session_ok_def e_def)
  consider "seq < ?n" | "\<not> seq < ?n" "?n < seq \<and> mx \<le> length (ss_buffered e)"
    | "\<not> seq < ?n" "\<not> (?n < seq \<and> mx \<le> length (ss_buffered e))"
    by blast
  then show ?thesis
  proof cases
    case 1
    then have "pu_entry sid d' = e" "st = 200"
      using assms(3) by (auto simp: pu_uplink_def pu_uplink_lock_def Let_def pu_entry_def e_def)
    with 1 assms(1) show ?thesis
      by (simp add: held_def e_def)
  next
    case 2
    then have "pu_entry sid d' = e" "st = 429"
      using assms(3) by (auto simp: pu_uplink_def pu_uplink_lock_def Let_def pu_entry_def e_def)
    with 2 assms(1) show ?thesis
      by (simp add: held_def e_def)
  next
    case 3
    then have le: "?n \<le> seq"
      by simp
    note up = buffer_ok_update [OF e(3) le assms(2)]
    let ?buf = "AList.update seq (f seq) (ss_buffered e)"
    obtain bs buf' n' where fl: "pu_flush ?buf ?n = (bs, buf', n')"
      by (metis prod_cases3)
    have sp: "?n \<le> n'" "bs = map (\<lambda>i. f (of_nat i)) [unat ?n..<unat n']" "buffer_ok f n' buf'"
        "n' \<notin> fst ` set buf'" "set buf' = {(s, c) \<in> set ?buf. n' \<le> s}"
        "if bs = [] then buf' = ?buf else length buf' < length ?buf"
      using pu_flush_spec [OF up(1) fl] by blast+
    have d': "st = 200" "ss_next_seq (pu_entry sid d') = n'" "ss_buffered (pu_entry sid d') = buf'"
        "ss_upload_wr (pu_entry sid d') = OwnPipe"
        "ss_delivered (pu_entry sid d') = ss_delivered e @ concat bs"
      using assms(3) 3 fl e(1)
      by (auto simp: pu_uplink_def pu_uplink_lock_def pu_uplink_write_def Let_def pu_entry_def [of _ d']
          e_def [symmetric])
    have len: "length buf' \<le> mx"
    proof (cases "bs = []")
      case True
      then have "buf' = ?buf" "unat n' \<le> unat ?n"
        using sp(2,6) by auto
      then have "n' = ?n"
        using sp(1) by (simp add: word_le_nat_alt word_unat_eq_iff)
      then have "?n \<noteq> seq"
        using sp(4) \<open>buf' = ?buf\<close> up(2) by simp
      with 3 le have "length (ss_buffered e) < mx"
        by auto
      with \<open>buf' = ?buf\<close> up(3) show ?thesis
        by simp
    next
      case False
      with sp(6) up(3) e(5) show ?thesis
        by simp
    qed
    have held: "held (pu_entry sid d') s" if "s < ?n \<or> s \<in> fst ` set ?buf" for s
    proof (cases "s < n'")
      case False
      with that sp(1) obtain c where "(s, c) \<in> set ?buf" "n' \<le> s"
        by fastforce
      then have "(s, c) \<in> set buf'"
        by (simp add: sp(5))
      then show ?thesis
        by (force simp: held_def d'(3))
    qed (simp add: held_def d'(2))
    have "stream_of f (unat n') = ss_delivered e @ concat bs"
      using stream_of_append [of "unat ?n" "unat n'" f] sp(1) e(2) by (simp add: sp(2) word_le_nat_alt)
    then have "carrier_session_ok f mx (pu_entry sid d')"
      using sp(3,4) d' len by (simp add: carrier_session_ok_def)
    moreover have "held (pu_entry sid d') s" if "held e s" for s
      using that up(2) by (intro held) (auto simp: held_def)
    moreover have "held (pu_entry sid d') seq"
      using up(2) by (intro held) auto
    ultimately show ?thesis
      using d'(1) by (simp add: e_def)
  qed
qed

text \<open>A run of uplink posts of one session, each handled to its end before the next.\<close>

fun pu_posts :: "nat \<Rightarrow> SessionId \<Rightarrow> (u64 \<times> bytes) list \<Rightarrow> PacketUp \<Rightarrow> nat list \<times> PacketUp" where
  "pu_posts mx sid [] d = ([], d)"
| "pu_posts mx sid ((seq, chunk) # ps) d =
    (let (st, d) = pu_uplink mx sid seq chunk d; (sts, d) = pu_posts mx sid ps d in (st # sts, d))"

lemma pu_posts_inv:
  "\<lbrakk>pu_posts mx sid ps d = (sts, d'); carrier_session_ok f mx (pu_entry sid d);
    \<forall>(s, c) \<in> set ps. c = f s \<and> s \<noteq> - 1\<rbrakk> \<Longrightarrow>
   carrier_session_ok f mx (pu_entry sid d') \<and> (\<forall>s. held (pu_entry sid d) s \<longrightarrow> held (pu_entry sid d') s) \<and>
   (\<forall>(s, st) \<in> set (zip (map fst ps) sts). st = 200 \<longrightarrow> held (pu_entry sid d') s)"
proof (induction mx sid ps d arbitrary: sts rule: pu_posts.induct)
  case (2 mx sid seq chunk ps d)
  obtain st d1 where u: "pu_uplink mx sid seq chunk d = (st, d1)"
    by fastforce
  obtain sts1 where p: "pu_posts mx sid ps d1 = (sts1, d')" "sts = st # sts1"
    using "2.prems"(1) u by (auto split: prod.splits)
  have "pu_uplink mx sid seq (f seq) d = (st, d1)" "seq \<noteq> - 1"
    using u "2.prems"(3) by auto
  note step = pu_uplink_step [OF "2.prems"(2) this(2,1)]
  from "2.IH" [OF u [symmetric] refl p(1)] step "2.prems"(3) show ?case
    by (auto simp: p(2))
qed simp

lemma held_all_next:
  assumes "carrier_session_ok f mx e" and "\<forall>s. unat s < n \<longrightarrow> held e s"
  shows "n \<le> unat (ss_next_seq e)"
proof (rule ccontr)
  assume "\<not> n \<le> unat (ss_next_seq e)"
  then have "held e (ss_next_seq e)"
    using assms(2) by simp
  with assms(1) show False
    by (simp add: held_def carrier_session_ok_def)
qed

section \<open>Pairing\<close>

text \<open>A trace of requests for \<^verbatim>\<open>stream-up\<close>: session, whether a GET, and the request's number.\<close>

type_synonym su_request = "SessionId \<times> bool \<times> nat"

fun su_run :: "rstr \<Rightarrow> ServerConfig \<Rightarrow> HttpRequest \<Rightarrow> su_request list \<Rightarrow> StreamUpTable \<Rightarrow> nat list \<times> StreamUpTable" where
  "su_run pad config req [] d = ([], d)"
| "su_run pad config req ((sid, get, rid) # ts) d =
    (let (reply, d) = (if get then su_downlink pad rid sid d else su_uplink pad config req rid sid d);
         (sts, d) = su_run pad config req ts d
     in (ry_status reply # sts, d))"

definition su_posts :: "StreamUpTable \<Rightarrow> nat list" where
  "su_posts d = map (\<lambda>(_, p, _). p) (su_accept d)"

definition su_gets :: "StreamUpTable \<Rightarrow> nat list" where
  "su_gets d = map (\<lambda>(_, _, g). g) (su_accept d)"

definition su_parked :: "StreamUpTable \<Rightarrow> SessionId \<Rightarrow> bool \<Rightarrow> nat \<Rightarrow> bool" where
  "su_parked d sid get rid \<longleftrightarrow>
    su_table d sid = Some (if get then DownlinkRequested rid else UplinkPosted rid)"

definition su_inv :: "su_request set \<Rightarrow> StreamUpTable \<Rightarrow> bool" where
  "su_inv T d \<longleftrightarrow>
    (\<forall>(sid, p, g) \<in> set (su_accept d). (sid, False, p) \<in> T \<and> (sid, True, g) \<in> T) \<and>
    distinct (su_posts d) \<and> distinct (su_gets d) \<and>
    (\<forall>sid get rid. su_parked d sid get rid \<longrightarrow> (sid, get, rid) \<in> T \<and>
       rid \<notin> set (if get then su_gets d else su_posts d))"

definition rids_unique :: "su_request set \<Rightarrow> bool" where
  "rids_unique T \<longleftrightarrow> (\<forall>x \<in> T. \<forall>y \<in> T. snd (snd x) = snd (snd y) \<longrightarrow> x = y)"

lemma empty_response_status [simp]:
  "ry_status (empty_response pad c) = c" "ry_status (downlink_response pad) = 200"
  "ry_status (uplink_keepalive_response pad secs) = 200"
  by (simp_all add: empty_response_def downlink_response_def uplink_keepalive_response_def Let_def)

lemma su_inv_accept_new:
  "\<lbrakk>su_inv T d; rid \<notin> (\<lambda>x. snd (snd x)) ` T\<rbrakk> \<Longrightarrow> rid \<notin> set (su_posts d) \<and> rid \<notin> set (su_gets d)"
  by (force simp: su_inv_def su_posts_def su_gets_def)

lemma su_invD:
  "\<lbrakk>su_inv T d; su_parked d sid get rid\<rbrakk> \<Longrightarrow>
   (sid, get, rid) \<in> T \<and> rid \<notin> set (if get then su_gets d else su_posts d)"
  unfolding su_inv_def by blast

lemma su_park_inv:
  assumes "su_inv T d" and "rid \<notin> (\<lambda>x. snd (snd x)) ` T"
  shows "su_inv (insert (sid, get, rid) T)
    (d\<lparr>su_table := (su_table d)(sid \<mapsto> (if get then DownlinkRequested rid else UplinkPosted rid))\<rparr>)"
    (is "su_inv ?T ?d")
proof -
  have lists: "su_accept ?d = su_accept d" "su_posts ?d = su_posts d" "su_gets ?d = su_gets d"
    by (simp_all add: su_posts_def su_gets_def)
  have cs: "(s, g, i) = (sid, get, rid) \<or> su_parked d s g i" if "su_parked ?d s g i" for s g i
    using that by (auto simp: su_parked_def split: if_splits)
  have "(s, g, i) \<in> ?T \<and> i \<notin> set (if g then su_gets ?d else su_posts ?d)"
    if "su_parked ?d s g i" for s g i
    using cs [OF that] su_invD [OF assms(1), of s g i] su_inv_accept_new [OF assms] by (auto simp: lists)
  moreover have "\<forall>(s, p, g) \<in> set (su_accept ?d). (s, False, p) \<in> ?T \<and> (s, True, g) \<in> ?T"
    "distinct (su_posts ?d)" "distinct (su_gets ?d)"
    using assms(1) by (auto simp: su_inv_def lists)
  ultimately show ?thesis
    unfolding su_inv_def by blast
qed

lemma su_pair_inv:
  assumes "su_inv T d" and "rids_unique T" and "rid \<notin> (\<lambda>x. snd (snd x)) ` T" and "su_parked d sid (\<not> get) r"
  shows "su_inv (insert (sid, get, rid) T)
    (d\<lparr>su_table := (su_table d)(sid := None),
       su_accept := su_accept d @ [if get then (sid, r, rid) else (sid, rid, r)]\<rparr>)" (is "su_inv ?T ?d")
proof -
  note new = su_inv_accept_new [OF assms(1,3)]
  have r: "(sid, \<not> get, r) \<in> T" "r \<notin> set (if get then su_posts d else su_gets d)"
    using su_invD [OF assms(1,4)] by (simp_all split: if_splits)
  have lists: "su_posts ?d = su_posts d @ [if get then r else rid]"
    "su_gets ?d = su_gets d @ [if get then rid else r]"
    by (simp_all add: su_posts_def su_gets_def)
  have parked: "(s, g, i) \<in> T \<and> i \<noteq> rid \<and> i \<noteq> r \<and> i \<notin> set (if g then su_gets d else su_posts d)"
    if p: "su_parked ?d s g i" for s g i
  proof -
    have d: "su_parked d s g i" "s \<noteq> sid"
      using p by (auto simp: su_parked_def split: if_splits)
    then have t: "(s, g, i) \<in> T" "i \<notin> set (if g then su_gets d else su_posts d)"
      using su_invD [OF assms(1)] by blast+
    moreover have "i \<noteq> r"
      using assms(2) t(1) r(1) d(2) unfolding rids_unique_def by (metis prod.inject snd_conv)
    moreover have "i \<noteq> rid"
      using assms(3) t(1) by force
    ultimately show ?thesis
      by blast
  qed
  have dist: "distinct (su_posts ?d)" "distinct (su_gets ?d)"
    using assms(1) new r(2) by (auto simp: lists su_inv_def split: if_splits)
  have acc: "\<forall>(s, p, g) \<in> set (su_accept ?d). (s, False, p) \<in> ?T \<and> (s, True, g) \<in> ?T"
    using assms(1) r(1) by (auto simp: su_inv_def split: if_splits)
  have "(s, g, i) \<in> ?T \<and> i \<notin> set (if g then su_gets ?d else su_posts ?d)"
    if "su_parked ?d s g i" for s g i
    using parked [OF that] by (auto simp: lists split: if_splits)
  with dist acc show ?thesis
    unfolding su_inv_def by blast
qed

lemma su_step_inv:
  assumes "su_inv T d" and "rids_unique T" and "rid \<notin> (\<lambda>x. snd (snd x)) ` T"
    and "(if get then su_downlink pad rid sid d else su_uplink pad config req rid sid d) = (reply, d')"
  shows "su_inv (insert (sid, get, rid) T) d' \<and>
    (ry_status reply = 200 \<and> su_parked d' sid get rid \<or>
     ry_status reply = 200 \<and> (\<exists>r. su_parked d sid (\<not> get) r \<and>
       su_accept d' = su_accept d @ [if get then (sid, r, rid) else (sid, rid, r)]) \<or>
     ry_status reply = 409 \<and> d' = d \<and> (\<exists>r. su_parked d sid get r))"
proof -
  consider (none) "su_table d sid = None" | (other) r where "su_parked d sid (\<not> get) r"
    | (same) r where "su_parked d sid get r"
    by (cases "su_table d sid") (auto simp: su_parked_def, metis Half.exhaust)
  then show ?thesis
  proof cases
    case none
    with assms(4) have "d' = d\<lparr>su_table := (su_table d)(sid \<mapsto>
        (if get then DownlinkRequested rid else UplinkPosted rid))\<rparr>" "ry_status reply = 200"
      by (auto simp: su_uplink_def su_downlink_def Let_def split: if_splits)
    with su_park_inv [OF assms(1,3)] show ?thesis
      by (simp add: su_parked_def)
  next
    case other
    with assms(4) have "d' = d\<lparr>su_table := (su_table d)(sid := None),
        su_accept := su_accept d @ [if get then (sid, r, rid) else (sid, rid, r)]\<rparr>" "ry_status reply = 200"
      by (auto simp: su_uplink_def su_downlink_def su_parked_def Let_def split: if_splits)
    with su_pair_inv [OF assms(1-3) other] other show ?thesis
      by auto
  next
    case same
    with assms(4) have "d' = d" "ry_status reply = 409"
      by (auto simp: su_uplink_def su_downlink_def su_parked_def Let_def split: if_splits)
    moreover have "su_inv (insert (sid, get, rid) T) d"
      using assms(1) by (auto simp: su_inv_def)
    ultimately show ?thesis
      using same by blast
  qed
qed

lemma su_run_inv:
  "\<lbrakk>su_run pad config req ts d = (sts, d'); su_inv T d; rids_unique (set ts \<union> T);
    distinct (map (\<lambda>x. snd (snd x)) ts); \<forall>x \<in> set ts. snd (snd x) \<notin> (\<lambda>x. snd (snd x)) ` T\<rbrakk> \<Longrightarrow>
   su_inv (set ts \<union> T) d'"
proof (induction pad config req ts d arbitrary: sts T rule: su_run.induct)
  case (2 pad config req sid get rid ts d)
  obtain reply d1 where st: "(if get then su_downlink pad rid sid d else su_uplink pad config req rid sid d) = (reply, d1)"
    by fastforce
  obtain sts1 where r: "su_run pad config req ts d1 = (sts1, d')"
    using "2.prems"(1) st by (auto split: prod.splits)
  have "rids_unique T" "rid \<notin> (\<lambda>x. snd (snd x)) ` T"
    using "2.prems"(3,5) by (auto simp: rids_unique_def)
  then have inv: "su_inv (insert (sid, get, rid) T) d1"
    using su_step_inv [OF "2.prems"(2) _ _ st] by blast
  have "su_inv (set ts \<union> insert (sid, get, rid) T) d'"
    using "2.prems"(3-5) by (intro "2.IH" [OF st [symmetric] refl r inv]) (auto simp: image_iff)
  then show ?case
    by simp
qed simp

definition pu_empty :: PacketUp where
  "pu_empty = \<lparr>pu_sessions = Map.empty, pu_accept = []\<rparr>"

definition su_empty :: StreamUpTable where
  "su_empty = \<lparr>su_table = Map.empty, su_accept = []\<rparr>"

lemma fresh_session_ok: "carrier_session_ok f mx (pu_entry sid pu_empty)"
  by (simp add: carrier_session_ok_def pu_entry_def pu_empty_def fresh_state_def stream_of_def buffer_ok_def)

text \<open>
  The guard that should wait for the downlink is never taken on a fresh session: the first
  post already hands the session to the accept channel.
\<close>

lemma first_post_accepts:
  assumes "pu_sessions d sid = None" and "0 < mx"
  shows "pu_accept (snd (pu_uplink mx sid seq chunk d)) = pu_accept d @ [sid]"
  using assms
  by (auto simp: pu_uplink_def pu_uplink_lock_def pu_uplink_write_def pu_entry_def fresh_state_def Let_def
      split: prod.splits)

section \<open>Properties\<close>

text \<open>
  C16.  \<^verbatim>\<open>packet-up\<close> delivers every acknowledged chunk exactly once and in order: for uplink
  posts arriving in any order, with any repetitions and any losses, each handled to its
  end before the next, the bytes delivered are the chunks 0, 1, 2, ... up to some number;
  when every chunk below \<open>n\<close> was acknowledged with 200 at least once, that number is at
  least \<open>n\<close>; and the buffer never exceeds its bound.
\<close>

theorem packet_up_in_order:
  assumes "pu_posts mx sid ps pu_empty = (sts, d)"
    and "\<forall>(s, c) \<in> set ps. c = f s \<and> s \<noteq> - 1"
    and "\<forall>s. unat s < n \<longrightarrow> (s, 200) \<in> set (zip (map fst ps) sts)"
  shows "\<exists>m. ss_delivered (pu_entry sid d) = stream_of f m \<and> n \<le> m \<and>
    length (ss_buffered (pu_entry sid d)) \<le> mx"
proof -
  note inv = pu_posts_inv [OF assms(1) fresh_session_ok assms(2)]
  then have ok: "carrier_session_ok f mx (pu_entry sid d)"
    by blast
  have "\<forall>s. unat s < n \<longrightarrow> held (pu_entry sid d) s"
    using inv assms(3) by fastforce
  from held_all_next [OF ok this] ok show ?thesis
    by (auto simp: carrier_session_ok_def)
qed

theorem packet_up_in_order_witness:
  "\<exists>m. ss_delivered (pu_entry [7] (snd (pu_posts 2 [7] [(1, [20, 21]), (0, [10])] pu_empty))) =
      stream_of (\<lambda>s. if s = 0 then [10] else [20, 21]) m \<and> 2 \<le> m \<and>
    length (ss_buffered (pu_entry [7] (snd (pu_posts 2 [7] [(1, [20, 21]), (0, [10])] pu_empty)))) \<le> 2"
proof -
  obtain sts d where r: "pu_posts 2 [7] [(1, [20, 21]), (0, [10])] pu_empty = (sts, d)"
    by fastforce
  have "sts = [200, 200]"
    using r by (simp add: pu_uplink_def pu_uplink_lock_def pu_uplink_write_def pu_entry_def pu_empty_def
        fresh_state_def Let_def pu_flush.simps)
  moreover have "s = 0 \<or> s = 1" if "unat s < 2" for s :: u64
    using that by (metis less_2_cases unat_eq_zero unat_1 word_unat_eq_iff One_nat_def)
  ultimately have "\<forall>s :: u64. unat s < 2 \<longrightarrow> (s, 200) \<in> set (zip (map fst [(1, [20, 21]), (0, [10 :: u8])]) sts)"
    by fastforce
  from packet_up_in_order [OF r _ this, of "\<lambda>s. if s = 0 then [10] else [20, 21]"] show ?thesis
    unfolding r snd_conv by simp
qed


text \<open>
  C17.  \<^verbatim>\<open>stream-up\<close> pairs requests correctly: over any sequence of requests, every session
  handed out joins one POST and one GET of that session identifier, no request is used in
  two sessions, and a parked half is a request of its session not used yet.
\<close>

theorem stream_up_pairs:
  assumes "su_run pad config req ts su_empty = (sts, d)" and "distinct (map (\<lambda>x. snd (snd x)) ts)"
  shows "(\<forall>(sid, p, g) \<in> set (su_accept d). (sid, False, p) \<in> set ts \<and> (sid, True, g) \<in> set ts) \<and>
    distinct (su_posts d) \<and> distinct (su_gets d) \<and>
    (\<forall>sid get rid. su_parked d sid get rid \<longrightarrow> (sid, get, rid) \<in> set ts \<and>
       rid \<notin> set (if get then su_gets d else su_posts d))"
proof -
  have "rids_unique (set ts \<union> {})"
    using assms(2) by (auto simp: rids_unique_def distinct_map dest: inj_onD)
  moreover have "su_inv {} su_empty"
    by (simp add: su_inv_def su_empty_def su_posts_def su_gets_def su_parked_def)
  ultimately have "su_inv (set ts \<union> {}) d"
    by (intro su_run_inv [OF assms(1) _ _ assms(2)]) simp_all
  then show ?thesis
    unfolding su_inv_def Un_empty_right .
qed

theorem stream_up_pairs_witness:
  "\<exists>req d. su_run [] server_config_default req [([7], False, 0), ([8], True, 1), ([7], True, 2)] su_empty =
      ([200, 200, 200], d) \<and> su_accept d = [([7], 0, 2)] \<and> distinct (su_posts d) \<and>
    su_parked d [8] True 1 \<and> 1 \<notin> set (su_gets d)"
proof -
  let ?req = "\<lparr>hr_method = [], hr_path = [], hr_query = None, hr_authority = None, hr_header = Map.empty,
    hr_cookies = [], hr_headers = [], hr_body = []\<rparr>"
  let ?ts = "[([7], False, 0), ([8], True, 1), ([7], True, 2)] :: su_request list"
  obtain d where r: "su_run [] server_config_default ?req ?ts su_empty = ([200, 200, 200], d)"
      "su_accept d = [([7], 0, 2)]" "su_parked d [8] True 1"
    by (simp add: su_uplink_def su_downlink_def su_empty_def su_parked_def Let_def)
  have "distinct (map (\<lambda>x. snd (snd x)) ?ts)"
    by simp
  note pairs = stream_up_pairs [OF r(1) this]
  have "distinct (su_posts d)"
    using pairs by (elim conjE)
  moreover have "1 \<notin> set (if True then su_gets d else su_posts d)"
    using pairs r(3) by (elim conjE) blast
  ultimately have "distinct (su_posts d)" "1 \<notin> set (su_gets d)"
    by simp_all
  with r show ?thesis
    by blast
qed

end
