(* ===== verification/Carrier_Client.thy ===== *)
theory Carrier_Client
  imports Carrier_Server Async_Io
begin

text \<open>
  The client side of the carrier (\<^verbatim>\<open>client/\<close>): how each mode builds its requests, opens its
  connections and feeds its uplink.  The HTTP library and the connector are parameters over
  a world they may change: building a request can fail, opening a connection can fail, and
  sending a request yields the status of the reply.  A task the client starts and does not
  wait for is run for its effect and its outcome dropped, as in the source.

  The properties put client and server together: the uplink of a \<^verbatim>\<open>packet-up\<close> client runs
  against the server's own request handler.
\<close>

section \<open>Connections\<close>

definition PIPE_CAPACITY :: nat where "PIPE_CAPACITY = 64 * 1024"

record 'w HttpClient =
  hc_build :: "RequestParts \<Rightarrow> CarrierError + RequestParts"
  hc_connect :: "('w, CarrierError, unit) act"
  hc_handshake :: "('w, CarrierError, unit) act"
  hc_send :: "RequestParts \<Rightarrow> ('w, CarrierError, nat) act"

definition open_connection :: "'w HttpClient \<Rightarrow> ('w, CarrierError, unit) act" where
  "open_connection hc = abind (hc_connect hc) (\<lambda>_. hc_handshake hc)"

definition spawn_send :: "'w HttpClient \<Rightarrow> RequestParts \<Rightarrow> ('w, CarrierError, unit) act" where
  "spawn_send hc r = abind (aok (hc_send hc r)) (\<lambda>_. aret ())"

definition is_success :: "nat \<Rightarrow> bool" where
  "is_success status \<longleftrightarrow> 200 \<le> status \<and> status < 300"

text \<open>The downlink request: its reply must be a success, or the dial fails.\<close>

definition await_downlink :: "'w HttpClient \<Rightarrow> RequestParts \<Rightarrow> ('w, CarrierError, unit) act" where
  "await_downlink hc r =
    abind (open_connection hc) (\<lambda>_.
    abind (hc_send hc r) (\<lambda>status.
    if is_success status then aret () else afail (CIo ConnectionRefused)))"

section \<open>stream-one\<close>

definition so_compose_path :: "(bytes \<Rightarrow> rstr) \<Rightarrow> ClientConfig \<Rightarrow> SessionId \<Rightarrow> rstr" where
  "so_compose_path hex_encode config sid =
    (let p = cc_path_prefix config;
         slashed = (if ends_with p [47] then p else p @ [47])
     in case cc_session_placement config of
          Path \<Rightarrow> slashed @ sid_to_hex hex_encode sid
        | Query \<Rightarrow> slashed @ [63] @ cc_session_key config @ [61] @ sid_to_hex hex_encode sid
        | _ \<Rightarrow> p)"

definition so_build_request :: "(bytes \<Rightarrow> rstr) \<Rightarrow> ClientConfig \<Rightarrow> SessionId \<Rightarrow> bytes \<Rightarrow> RequestParts" where
  "so_build_request hex_encode config sid body =
    \<lparr>rp_method = str ''POST'', rp_uri = so_compose_path hex_encode config sid,
     rp_headers =
       [(str ''host'', cc_host config), (str ''content-type'', str ''application/grpc'')] @
       (case cc_session_placement config of
          Header \<Rightarrow> [(to_ascii_lowercase (cc_session_header config), sid_to_hex hex_encode sid)]
        | Cookie \<Rightarrow> [(str ''cookie'', cc_session_key config @ [61] @ sid_to_hex hex_encode sid)]
        | _ \<Rightarrow> []),
     rp_body = body\<rparr>"

text \<open>\<open>body\<close> is what the user will write over the life of the stream.\<close>

definition so_dial_over_io ::
    "'w HttpClient \<Rightarrow> (bytes \<Rightarrow> rstr) \<Rightarrow> ClientConfig \<Rightarrow> SessionId \<Rightarrow> bytes \<Rightarrow> ('w, CarrierError, unit) act" where
  "so_dial_over_io hc hex_encode config sid body =
    abind (hc_handshake hc) (\<lambda>_.
    abind (alift (hc_build hc (so_build_request hex_encode config sid body))) (spawn_send hc))"

section \<open>stream-up\<close>

definition su_compose_path :: "(bytes \<Rightarrow> rstr) \<Rightarrow> ClientConfig \<Rightarrow> SessionId \<Rightarrow> bool \<Rightarrow> rstr" where
  "su_compose_path hex_encode config sid downlink =
    (let p = cc_path_prefix config;
         slashed = (if ends_with p [47] then p else p @ [47])
     in case cc_session_placement config of
          Path \<Rightarrow> slashed @ sid_to_hex hex_encode sid
        | Query \<Rightarrow> slashed @ [63] @ cc_session_key config @ [61] @ sid_to_hex hex_encode sid
        | _ \<Rightarrow> p)"

definition su_build_request ::
    "(bytes \<Rightarrow> rstr) \<Rightarrow> rstr \<Rightarrow> rstr \<Rightarrow> ClientConfig \<Rightarrow> SessionId \<Rightarrow> bytes \<Rightarrow> RequestParts" where
  "su_build_request hex_encode mthd path config sid body =
    \<lparr>rp_method = mthd, rp_uri = path,
     rp_headers =
       [(str ''host'', cc_host config)] @
       (if mthd = str ''POST'' then [(str ''content-type'', str ''application/grpc'')] else []) @
       (case cc_session_placement config of
          Header \<Rightarrow> [(to_ascii_lowercase (cc_session_header config), sid_to_hex hex_encode sid)]
        | Cookie \<Rightarrow> [(str ''cookie'', cc_session_key config @ [61] @ sid_to_hex hex_encode sid)]
        | _ \<Rightarrow> []),
     rp_body = body\<rparr>"

definition su_dial ::
    "'w HttpClient \<Rightarrow> (bytes \<Rightarrow> rstr) \<Rightarrow> ClientConfig \<Rightarrow> SessionId \<Rightarrow> bytes \<Rightarrow> ('w, CarrierError, unit) act" where
  "su_dial hc hex_encode config sid body =
    abind (alift (hc_build hc (su_build_request hex_encode (str ''POST'')
        (su_compose_path hex_encode config sid False) config sid body))) (\<lambda>upload_req.
    abind (open_connection hc) (\<lambda>_.
    abind (spawn_send hc upload_req) (\<lambda>_.
    abind (alift (hc_build hc (su_build_request hex_encode (str ''GET'')
        (su_compose_path hex_encode config sid True) config sid []))) (\<lambda>download_req.
    await_downlink hc download_req))))"

section \<open>packet-up\<close>

definition max_chunk :: "ClientConfig \<Rightarrow> nat" where
  "max_chunk config = min (max (cc_max_post_bytes config) 4096) (max PIPE_CAPACITY 4096)"

definition post_chunk ::
    "'w HttpClient \<Rightarrow> (bytes \<Rightarrow> rstr) \<Rightarrow> ClientConfig \<Rightarrow> SessionId \<Rightarrow> u64 \<Rightarrow> bytes \<Rightarrow> ('w, CarrierError, unit) act" where
  "post_chunk hc hex_encode config sid seq chunk =
    abind (alift (hc_build hc (build_request hex_encode (str ''POST'') (compose_path hex_encode config sid)
        config sid (Some seq) chunk))) (\<lambda>req.
    abind (open_connection hc) (\<lambda>_.
    abind (hc_send hc req) (\<lambda>_. aret ())))"

text \<open>
  The uplink task: read what the user wrote, post it under the next number, stop at the end
  of the stream or at the first post that fails.
\<close>

function uplink_loop ::
    "'w HttpClient \<Rightarrow> (bytes \<Rightarrow> rstr) \<Rightarrow> ClientConfig \<Rightarrow> SessionId \<Rightarrow> u64 \<Rightarrow> TcpStream \<Rightarrow> 'w \<Rightarrow> 'w" where
  "uplink_loop hc hex_encode config sid seq rd w =
    (case read_some (max_chunk config) rd of
       (Inl _, _) \<Rightarrow> w
     | (Inr [], _) \<Rightarrow> w
     | (Inr (b # bs), rd') \<Rightarrow>
         (case post_chunk hc hex_encode config sid seq (b # bs) w of
            (Inl _, w') \<Rightarrow> w'
          | (Inr _, w') \<Rightarrow> uplink_loop hc hex_encode config sid (seq + 1) rd' w'))"
  by pat_completeness auto
termination
  by (relation "measure (\<lambda>(hc, he, cc, sid, seq, rd, w). length (concat (rx rd)))")
     (auto dest: read_some_shorter [OF sym])

declare uplink_loop.simps [simp del]

text \<open>The dial itself: the uplink task runs beside it.\<close>

definition pu_dial ::
    "'w HttpClient \<Rightarrow> (bytes \<Rightarrow> rstr) \<Rightarrow> ClientConfig \<Rightarrow> SessionId \<Rightarrow> ('w, CarrierError, unit) act" where
  "pu_dial hc hex_encode config sid =
    abind (alift (hc_build hc (build_request hex_encode (str ''GET'') (compose_path hex_encode config sid)
        config sid None []))) (await_downlink hc)"

section \<open>Dialling\<close>

definition dial_with ::
    "'w HttpClient \<Rightarrow> (bytes \<Rightarrow> rstr) \<Rightarrow> ClientConfig \<Rightarrow> SessionId \<Rightarrow> bytes \<Rightarrow> ('w, CarrierError, unit) act" where
  "dial_with hc hex_encode config sid body =
    (case cc_mode config of
       StreamOne \<Rightarrow> abind (hc_connect hc) (\<lambda>_. so_dial_over_io hc hex_encode config sid body)
     | StreamUp \<Rightarrow> su_dial hc hex_encode config sid body
     | PacketUp \<Rightarrow> pu_dial hc hex_encode config sid)"

definition dial_over_stream ::
    "'w HttpClient \<Rightarrow> (bytes \<Rightarrow> rstr) \<Rightarrow> ClientConfig \<Rightarrow> SessionId \<Rightarrow> bytes \<Rightarrow> ('w, CarrierError, unit) act" where
  "dial_over_stream hc hex_encode config sid body =
    (case cc_mode config of
       StreamOne \<Rightarrow> so_dial_over_io hc hex_encode config sid body
     | _ \<Rightarrow> afail (CIo Unsupported))"

section \<open>Client and server together\<close>

text \<open>
  A connection that works, to a server of the given configuration: \<open>pres\<close> is how the HTTP
  library presents a request, and a request the handler fails on is an error of the send.
\<close>

definition to_server ::
    "(RequestParts \<Rightarrow> HttpRequest) \<Rightarrow> (rstr \<Rightarrow> bytes option) \<Rightarrow> ServerConfig \<Rightarrow> rstr \<Rightarrow> PacketUp HttpClient" where
  "to_server pres hex_decode sc pad =
    \<lparr>hc_build = Inr, hc_connect = aret (), hc_handshake = aret (),
     hc_send = (\<lambda>r d.
       case pu_handle hex_decode sc pad (pres r) d of
         (Inl e, d) \<Rightarrow> (Inl CHyper, d)
       | (Inr (Reply y), d) \<Rightarrow> (Inr (ry_status y), d)
       | (Inr (FromDecoy _ _), d) \<Rightarrow> (Inr 404, d))\<rparr>"

lemma compose_paths_agree:
  "so_compose_path he cc sid = compose_path he cc sid" "su_compose_path he cc sid b = compose_path he cc sid"
  by (simp_all add: so_compose_path_def su_compose_path_def compose_path_def)

lemma build_requests_agree:
  "su_build_request he m p cc sid body = build_request he m p cc sid None body"
  "so_build_request he cc sid body = build_request he (str ''POST'') (compose_path he cc sid) cc sid None body"
  by (simp_all add: su_build_request_def so_build_request_def build_request_def compose_paths_agree
      split: Placement.split)

text \<open>A session that has everything up to a number, and nothing buffered.\<close>

definition caught_up :: "u64 \<Rightarrow> bytes \<Rightarrow> SessionState \<Rightarrow> bool" where
  "caught_up n bs e \<longleftrightarrow>
    ss_next_seq e = n \<and> ss_buffered e = [] \<and> ss_upload_wr e = OwnPipe \<and> ss_delivered e = bs"

lemma pu_uplink_next:
  assumes "caught_up n bs (pu_entry sid d)"
  shows "fst (pu_uplink mx sid n c d) = 200 \<and>
    caught_up (n + 1) (bs @ c) (pu_entry sid (snd (pu_uplink mx sid n c d)))"
proof -
  have "n + 1 \<noteq> n"
    by simp
  then show ?thesis
    using assms
    by (simp add: caught_up_def pu_uplink_def pu_uplink_lock_def pu_uplink_write_def pu_entry_def Let_def
        pu_flush.simps [of "[(n, c)]"] pu_flush.simps [of "[]"])
qed

lemma post_chunk_to_server:
  assumes pres: "\<And>r. presents r (pres r)"
    and cfg: "carriers_agree cc sc" "config_ok cc" "hex_ok he hx sid" "cc_session_key cc \<noteq> str ''x_seq''"
    and sc: "sc_mode sc = PacketUp" "length c \<le> sc_max_post_bytes sc"
  shows "cc_seq_placement cc \<in> {Header, Cookie} \<Longrightarrow>
      post_chunk (to_server pres hx sc pad) he cc sid n c d =
        (Inr (), snd (pu_uplink (sc_max_buffered_posts sc) sid n c d))"
    and "cc_seq_placement cc = Query \<Longrightarrow> post_chunk (to_server pres hx sc pad) he cc sid n c d = (Inr (), d)"
proof -
  let ?r = "build_request he (str ''POST'') (compose_path he cc sid) cc sid (Some n) c"
  note p = pres [of ?r]
  obtain tail where id: "session_id hx (pres ?r) sc = Inr (sid, tail)"
    using request_session [OF p cfg(1-3)] by blast
  have m: "hr_method (pres ?r) \<noteq> str ''GET''" "hr_body (pres ?r) = [Inr (Some c)]"
    using p by (simp_all add: presents_def build_request_def)
  have len: "\<not> sc_max_post_bytes sc < length c"
    using sc(2) by simp
  note run = id m sc(1) len post_chunk_def abind_def open_connection_def to_server_def pu_handle_def
  show "post_chunk (to_server pres hx sc pad) he cc sid n c d =
      (Inr (), snd (pu_uplink (sc_max_buffered_posts sc) sid n c d))"
    if "cc_seq_placement cc \<in> {Header, Cookie}"
    using request_sequence(1) [OF p cfg that]
    by (simp add: run split: prod.split del: str_simps)
  show "post_chunk (to_server pres hx sc pad) he cc sid n c d = (Inr (), d)"
    if "cc_seq_placement cc = Query"
    using request_sequence(2) [OF p cfg that]
    by (simp add: run del: str_simps)
qed

lemma max_chunk_pos: "0 < max_chunk cc"
  by (simp add: max_chunk_def max_def)

lemma read_some_rest:
  assumes "rx_end rd = None" and "0 < n"
  obtains "concat (rx rd) = []" "fst (read_some n rd) = Inr []"
  | b bs rd' where "read_some n rd = (Inr (b # bs), rd')" "concat (rx rd) = (b # bs) @ concat (rx rd')"
      "rx_end rd' = None" "length (b # bs) \<le> n"
proof -
  obtain bs rd' where r: "read_some n rd = (Inr bs, rd')" "rx_end rd' = None"
    using read_some_eof [OF assms(1)] by blast
  show thesis
  proof (cases bs)
    case Nil
    then show thesis
      using r read_some_Inr [OF r(1)] assms that(1) by auto
  next
    case (Cons b bs')
    then show thesis
      using r read_some_Inr [OF r(1)] assms that(2) by auto
  qed
qed

text \<open>The uplink against the server: all of the stream arrives, or none of it.\<close>

lemma uplink_delivers:
  assumes pres: "\<And>r. presents r (pres r)"
    and cfg: "carriers_agree cc sc" "config_ok cc" "hex_ok he hx sid" "cc_session_key cc \<noteq> str ''x_seq''"
    and sc: "sc_mode sc = PacketUp" "max_chunk cc \<le> sc_max_post_bytes sc"
  shows "\<lbrakk>cc_seq_placement cc \<in> {Header, Cookie}; rx_end rd = None; caught_up seq bs (pu_entry sid d)\<rbrakk> \<Longrightarrow>
    ss_delivered (pu_entry sid (uplink_loop (to_server pres hx sc pad) he cc sid seq rd d)) = bs @ concat (rx rd)"
proof (induction "length (concat (rx rd))" arbitrary: rd seq bs d rule: less_induct)
  case less
  show ?case
  proof (rule read_some_rest [OF less.prems(2) max_chunk_pos [of cc]])
    assume "concat (rx rd) = []" "fst (read_some (max_chunk cc) rd) = Inr []"
    then show ?thesis
      using less.prems(3) by (subst uplink_loop.simps) (auto simp: caught_up_def split: prod.split)
  next
    fix b c rd'
    assume r: "read_some (max_chunk cc) rd = (Inr (b # c), rd')" "concat (rx rd) = (b # c) @ concat (rx rd')"
      "rx_end rd' = None" "length (b # c) \<le> max_chunk cc"
    have "length (b # c) \<le> sc_max_post_bytes sc"
      using r(4) sc(2) by simp
    note post = post_chunk_to_server(1) [OF pres cfg sc(1) this less.prems(1)]
    have "length (concat (rx rd')) < length (concat (rx rd))"
      using r(2) by simp
    from less.hyps [OF this less.prems(1) r(3) conjunct2 [OF pu_uplink_next [OF less.prems(3)]]] show ?thesis
      by (subst uplink_loop.simps) (simp add: r(1,2) post)
  qed
qed

lemma uplink_query_lost:
  assumes pres: "\<And>r. presents r (pres r)"
    and cfg: "carriers_agree cc sc" "config_ok cc" "hex_ok he hx sid" "cc_session_key cc \<noteq> str ''x_seq''"
    and sc: "sc_mode sc = PacketUp" "max_chunk cc \<le> sc_max_post_bytes sc"
  shows "\<lbrakk>cc_seq_placement cc = Query; rx_end rd = None\<rbrakk> \<Longrightarrow>
    uplink_loop (to_server pres hx sc pad) he cc sid seq rd d = d"
proof (induction "length (concat (rx rd))" arbitrary: rd seq rule: less_induct)
  case less
  show ?case
  proof (rule read_some_rest [OF less.prems(2) max_chunk_pos [of cc]])
    assume "concat (rx rd) = []" "fst (read_some (max_chunk cc) rd) = Inr []"
    then show ?thesis
      by (subst uplink_loop.simps) (auto split: prod.split)
  next
    fix b c rd'
    assume r: "read_some (max_chunk cc) rd = (Inr (b # c), rd')" "concat (rx rd) = (b # c) @ concat (rx rd')"
      "rx_end rd' = None" "length (b # c) \<le> max_chunk cc"
    have "length (b # c) \<le> sc_max_post_bytes sc"
      using r(4) sc(2) by simp
    note post = post_chunk_to_server(2) [OF pres cfg sc(1) this less.prems(1)]
    have "length (concat (rx rd')) < length (concat (rx rd))"
      using r(2) by simp
    from less.hyps [OF this less.prems(1) r(3)] show ?thesis
      by (subst uplink_loop.simps) (simp add: r(1) post)
  qed
qed

section \<open>Properties\<close>

text \<open>
  C15.  What a \<^verbatim>\<open>packet-up\<close> client writes is what the server's session receives: whatever
  sizes the writes are read in, the client's uplink task run against the server's request
  handler delivers exactly the bytes written, in order, for every placement of the session
  identifier and with the sequence number in a header or a cookie.
\<close>

theorem packet_up_end_to_end:
  assumes "\<And>r. presents r (pres r)" and "carriers_agree cc sc" and "config_ok cc" and "hex_ok he hx sid"
    and "cc_session_key cc \<noteq> str ''x_seq''" and "cc_seq_placement cc \<in> {Header, Cookie}"
    and "sc_mode sc = PacketUp" and "max_chunk cc \<le> sc_max_post_bytes sc" and "rx_end rd = None"
  shows "ss_delivered (pu_entry sid (uplink_loop (to_server pres hx sc pad) he cc sid 0 rd pu_empty)) = concat (rx rd)"
proof -
  have "caught_up 0 [] (pu_entry sid pu_empty)"
    by (simp add: caught_up_def pu_entry_def pu_empty_def fresh_state_def)
  from uplink_delivers [OF assms(1-5,7,8,6,9) this] show ?thesis
    by simp
qed

lemma sample_packet_up:
  "sc_mode (server_config_default\<lparr>sc_mode := PacketUp\<rparr>) = PacketUp"
  "max_chunk client_config_default \<le> sc_max_post_bytes (server_config_default\<lparr>sc_mode := PacketUp, sc_seq_placement := p\<rparr>)"
  "carriers_agree (client_config_default\<lparr>cc_seq_placement := p\<rparr>)
    (server_config_default\<lparr>sc_mode := PacketUp, sc_seq_placement := p\<rparr>)"
  "config_ok (client_config_default\<lparr>cc_seq_placement := p\<rparr>)"
  "cc_session_key (client_config_default\<lparr>cc_seq_placement := p\<rparr>) \<noteq> str ''x_seq''"
  using sample_config
  by (simp_all add: server_config_default_def client_config_default_def max_chunk_def PIPE_CAPACITY_def
      carriers_agree_def config_ok_def)

theorem packet_up_end_to_end_witness:
  "ss_delivered (pu_entry (replicate 16 0)
     (uplink_loop (to_server sample_request sample_unhex
         (server_config_default\<lparr>sc_mode := PacketUp, sc_seq_placement := Cookie\<rparr>) [])
       sample_hex (client_config_default\<lparr>cc_seq_placement := Cookie\<rparr>) (replicate 16 0) 0
       \<lparr>rx = [[1, 2], [3]], rx_end = None, tx = [], tx_room = None\<rparr> pu_empty)) = [1, 2, 3]"
  using packet_up_end_to_end [OF sample_presents sample_packet_up(3,4) sample_hex_ok sample_packet_up(5), of
      Cookie "\<lparr>rx = [[1, 2], [3]], rx_end = None, tx = [], tx_room = None\<rparr>" "[]"]
    sample_packet_up(2)
  by (simp add: max_chunk_def)

text \<open>
  C19.  With the sequence number placed in the query the same client loses everything it
  sends without noticing: the number is never put on the request, every post is answered
  with an error status the client does not look at, and the server's state never changes.
\<close>

theorem query_sequence_lost:
  assumes "\<And>r. presents r (pres r)" and "carriers_agree cc sc" and "config_ok cc" and "hex_ok he hx sid"
    and "cc_session_key cc \<noteq> str ''x_seq''" and "cc_seq_placement cc = Query"
    and "sc_mode sc = PacketUp" and "max_chunk cc \<le> sc_max_post_bytes sc" and "rx_end rd = None"
  shows "uplink_loop (to_server pres hx sc pad) he cc sid seq rd d = d"
  by (rule uplink_query_lost [OF assms(1-5,7,8,6,9)])

theorem query_sequence_lost_witness:
  "uplink_loop (to_server sample_request sample_unhex
       (server_config_default\<lparr>sc_mode := PacketUp, sc_seq_placement := Query\<rparr>) [])
     sample_hex (client_config_default\<lparr>cc_seq_placement := Query\<rparr>) (replicate 16 0) 0
     \<lparr>rx = [[1, 2], [3]], rx_end = None, tx = [], tx_room = None\<rparr> pu_empty = pu_empty"
  using sample_packet_up(2)
  by (intro query_sequence_lost [OF sample_presents sample_packet_up(3,4) sample_hex_ok sample_packet_up(5)])
     (simp_all add: server_config_default_def max_chunk_def)

end
