(* ===== verification/Veil_Handshake.thy ===== *)
theory Veil_Handshake
  imports Std_Text "HOL-Library.Multiset"
begin

text \<open>
  The veiled handshake (crate \<^verbatim>\<open>donut-veil\<close>): reading the fields of a serialised
  ClientHello (\<^verbatim>\<open>parse.rs\<close>), the sealed session identifier (\<^verbatim>\<open>auth.rs\<close>), the server's
  verdict (\<^verbatim>\<open>server.rs\<close>), the client's mutator (\<^verbatim>\<open>client.rs\<close>) with its fingerprint
  shuffling (\<^verbatim>\<open>fingerprint.rs\<close>), the server's proof and its per-connection certificate.

  The cryptography is a parameter, a record of the primitives the code calls; what the
  theorems need of it (the two sides of a key exchange agree, opening undoes sealing) are
  hypotheses.  The shuffles are parameters too, and so is the clock.
\<close>

unbundle bit_operations_syntax

section \<open>Cryptographic primitives and configuration\<close>

record VeilCrypto =
  vc_public :: "bytes \<Rightarrow> bytes"
  vc_dh :: "bytes \<Rightarrow> bytes \<Rightarrow> bytes"
  vc_hkdf :: "bytes \<Rightarrow> bytes \<Rightarrow> bytes \<Rightarrow> bytes"
  vc_encrypt :: "bytes \<Rightarrow> bytes \<Rightarrow> bytes \<Rightarrow> bytes \<Rightarrow> bytes"
  vc_decrypt :: "bytes \<Rightarrow> bytes \<Rightarrow> bytes \<Rightarrow> bytes \<Rightarrow> bytes option"
  vc_hmac256 :: "bytes \<Rightarrow> bytes \<Rightarrow> bytes"
  vc_hmac512 :: "bytes \<Rightarrow> bytes \<Rightarrow> bytes"

datatype VeilError =
    BadPrivateKey | BadPublicKey | EmptyShortIds | ShortClientHello | BadSessionIdLength
  | MissingKeyShare | NoX25519Share | AuthFailed | UnknownShortId | TlsConfig rstr

datatype Fingerprint = Native | Randomized | RandomizedAlpn | RandomizedNoAlpn

definition DEFAULT_MAX_TIME_SKEW :: nat where "DEFAULT_MAX_TIME_SKEW = 120"

record VeilServerConfig =
  vs_private :: bytes
  vs_public :: bytes
  vs_short_ids :: "ShortId list"
  vs_max_time_skew :: "nat option"

definition veil_server_config_new :: "VeilCrypto \<Rightarrow> bytes \<Rightarrow> ShortId list \<Rightarrow> VeilError + VeilServerConfig" where
  "veil_server_config_new cr private_key short_ids =
    (if short_ids = [] then Inl EmptyShortIds
     else Inr \<lparr>vs_private = private_key, vs_public = vc_public cr private_key,
       vs_short_ids = short_ids, vs_max_time_skew = Some DEFAULT_MAX_TIME_SKEW\<rparr>)"

definition with_max_time_skew :: "nat option \<Rightarrow> VeilServerConfig \<Rightarrow> VeilServerConfig" where
  "with_max_time_skew skew c = c\<lparr>vs_max_time_skew := skew\<rparr>"

record VeilClientConfig =
  vk_server_pub :: bytes
  vk_short_id :: ShortId
  vk_version :: bytes
  vk_fingerprint :: Fingerprint

definition veil_client_config_new :: "bytes \<Rightarrow> ShortId \<Rightarrow> bytes \<Rightarrow> VeilClientConfig" where
  "veil_client_config_new server_public_key short_id version =
    \<lparr>vk_server_pub = server_public_key, vk_short_id = short_id, vk_version = version,
     vk_fingerprint = Native\<rparr>"

definition with_fingerprint :: "Fingerprint \<Rightarrow> VeilClientConfig \<Rightarrow> VeilClientConfig" where
  "with_fingerprint f c = c\<lparr>vk_fingerprint := f\<rparr>"

section \<open>parse.rs\<close>

definition slice_of :: "bytes \<Rightarrow> nat \<Rightarrow> nat \<Rightarrow> bytes" where
  "slice_of b i j = take (j - i) (drop i b)"

definition u16_at :: "bytes \<Rightarrow> nat \<Rightarrow> nat" where
  "u16_at b i = unat (from_be16 (b ! i) (b ! (i + 1)))"

definition SESSION_ID_LEN_OFFSET :: nat where "SESSION_ID_LEN_OFFSET = 38"
definition SESSION_ID_OFFSET :: nat where "SESSION_ID_OFFSET = 39"
definition SESSION_ID_LEN :: nat where "SESSION_ID_LEN = 32"
definition EXT_KEY_SHARE :: nat where "EXT_KEY_SHARE = 0x33"
definition NAMED_GROUP_X25519 :: nat where "NAMED_GROUP_X25519 = 0x1D"

record ClientHelloView =
  chv_random :: bytes
  chv_session_id :: bytes
  chv_x25519_pub :: bytes

definition skip_u16_prefixed :: "bytes \<Rightarrow> nat \<Rightarrow> VeilError + nat" where
  "skip_u16_prefixed b cur =
    (if cur + 2 > length b then Inl ShortClientHello
     else let e = cur + 2 + u16_at b cur in
       if e > length b then Inl ShortClientHello else Inr e)"

definition skip_u8_prefixed :: "bytes \<Rightarrow> nat \<Rightarrow> VeilError + nat" where
  "skip_u8_prefixed b cur =
    (if cur \<ge> length b then Inl ShortClientHello
     else let e = cur + 1 + unat (b ! cur) in
       if e > length b then Inl ShortClientHello else Inr e)"

function x25519_loop :: "bytes \<Rightarrow> nat \<Rightarrow> VeilError + bytes" where
  "x25519_loop l cur =
    (if cur + 4 \<le> length l then
       let group = u16_at l cur; len = u16_at l (cur + 2); cur = cur + 4; e = cur + len in
       if e > length l then Inl ShortClientHello
       else if group = NAMED_GROUP_X25519 then
         (if len \<noteq> 32 then Inl NoX25519Share else Inr (slice_of l cur e))
       else x25519_loop l e
     else Inl NoX25519Share)"
  by pat_completeness auto
termination
  by (relation "measure (\<lambda>(l, cur). length l - cur)") auto

declare x25519_loop.simps [simp del]

definition parse_x25519_in_key_share :: "bytes \<Rightarrow> VeilError + bytes" where
  "parse_x25519_in_key_share data =
    (if length data < 2 then Inl ShortClientHello
     else let list_len = u16_at data 0 in
       if 2 + list_len > length data then Inl ShortClientHello
       else x25519_loop (slice_of data 2 (2 + list_len)) 0)"

function key_share_loop :: "bytes \<Rightarrow> nat \<Rightarrow> nat \<Rightarrow> VeilError + bytes" where
  "key_share_loop b cur ext_end =
    (if cur + 4 \<le> ext_end then
       let ext_type = u16_at b cur; ext_len = u16_at b (cur + 2); cur = cur + 4; e = cur + ext_len in
       if e > ext_end then Inl ShortClientHello
       else if ext_type = EXT_KEY_SHARE then parse_x25519_in_key_share (slice_of b cur e)
       else key_share_loop b e ext_end
     else Inl MissingKeyShare)"
  by pat_completeness auto
termination
  by (relation "measure (\<lambda>(b, cur, e). e - cur)") auto

declare key_share_loop.simps [simp del]

definition find_x25519_share :: "bytes \<Rightarrow> VeilError + bytes" where
  "find_x25519_share b =
    rbind (skip_u16_prefixed b (SESSION_ID_OFFSET + SESSION_ID_LEN)) (\<lambda>cur.
    rbind (skip_u8_prefixed b cur) (\<lambda>cur.
    if cur + 2 > length b then Inl ShortClientHello
    else let ext_end = cur + 2 + u16_at b cur in
      if ext_end > length b then Inl ShortClientHello
      else key_share_loop b (cur + 2) ext_end))"

definition client_hello_parse :: "bytes \<Rightarrow> VeilError + ClientHelloView" where
  "client_hello_parse b =
    (if length b < SESSION_ID_OFFSET + SESSION_ID_LEN then Inl ShortClientHello
     else if unat (b ! SESSION_ID_LEN_OFFSET) \<noteq> SESSION_ID_LEN then Inl BadSessionIdLength
     else rbind (find_x25519_share b) (\<lambda>x25519_pub.
       Inr \<lparr>chv_random = slice_of b 6 38,
            chv_session_id = slice_of b SESSION_ID_OFFSET (SESSION_ID_OFFSET + 32),
            chv_x25519_pub = x25519_pub\<rparr>))"

section \<open>auth.rs, proof.rs, reality_cert.rs\<close>

definition HKDF_INFO :: bytes where "HKDF_INFO = str ''REALITY''"
definition PLAINTEXT_LEN :: nat where "PLAINTEXT_LEN = 16"
definition RANDOM_OFFSET :: nat where "RANDOM_OFFSET = 6"

definition derive_auth_key :: "VeilCrypto \<Rightarrow> bytes \<Rightarrow> bytes \<Rightarrow> bytes" where
  "derive_auth_key cr shared random_prefix = vc_hkdf cr random_prefix shared HKDF_INFO"

definition parse_timestamp :: "bytes \<Rightarrow> u32" where
  "parse_timestamp plaintext = of_nat (be_nat (slice_of plaintext 4 8))"

definition build_plaintext :: "bytes \<Rightarrow> u32 \<Rightarrow> ShortId \<Rightarrow> bytes" where
  "build_plaintext version unix_ts short_id =
    version @ [0] @ be_bytes 4 (unat unix_ts) @ short_id_as_bytes short_id"

definition seal :: "VeilCrypto \<Rightarrow> bytes \<Rightarrow> bytes \<Rightarrow> bytes \<Rightarrow> bytes \<Rightarrow> bytes" where
  "seal cr auth_key nonce plaintext aad = vc_encrypt cr auth_key nonce plaintext aad"

definition open_seal :: "VeilCrypto \<Rightarrow> bytes \<Rightarrow> bytes \<Rightarrow> bytes \<Rightarrow> bytes \<Rightarrow> VeilError + bytes" where
  "open_seal cr auth_key nonce sealed aad =
    rbind (ok_or (vc_decrypt cr auth_key nonce sealed aad) AuthFailed) (\<lambda>plain.
    if length plain \<noteq> PLAINTEXT_LEN then Inl AuthFailed else Inr plain)"

definition PROOF_LEN :: nat where "PROOF_LEN = 32"
definition LABEL :: bytes where "LABEL = str ''donut/reality/server-auth/v1''"

definition server_proof :: "VeilCrypto \<Rightarrow> bytes \<Rightarrow> bytes" where
  "server_proof cr auth_key = vc_hmac256 cr auth_key LABEL"

record RealityCert =
  rl_template_der :: bytes
  rl_public_key :: bytes
  rl_private_key_der :: bytes

definition build_reality_certificate :: "VeilCrypto \<Rightarrow> RealityCert \<Rightarrow> bytes \<Rightarrow> bytes" where
  "build_reality_certificate cr m auth_key =
    (let der = rl_template_der m; sig = vc_hmac512 cr auth_key (rl_public_key m); n = length der
     in take (n - 64) der @ sig)"

record CertifiedKey =
  ck_cert :: bytes
  ck_key_der :: bytes

definition reality_certified_key :: "VeilCrypto \<Rightarrow> RealityCert \<Rightarrow> bytes \<Rightarrow> CertifiedKey" where
  "reality_certified_key cr m auth_key =
    \<lparr>ck_cert = build_reality_certificate cr m auth_key, ck_key_der = rl_private_key_der m\<rparr>"

section \<open>server.rs\<close>

datatype Verdict = Tunnel bytes | Forward

definition abs_diff :: "u32 \<Rightarrow> u32 \<Rightarrow> nat" where
  "abs_diff a b = (if a < b then unat b - unat a else unat a - unat b)"

definition zero_session_id :: "bytes \<Rightarrow> bytes" where
  "zero_session_id b =
    take SESSION_ID_OFFSET b @ replicate SESSION_ID_LEN 0 @ drop (SESSION_ID_OFFSET + SESSION_ID_LEN) b"

definition decide ::
    "VeilCrypto \<Rightarrow> ShortId list \<Rightarrow> bytes \<Rightarrow> nat option \<Rightarrow> u32 \<Rightarrow> bytes \<Rightarrow> Verdict" where
  "decide cr short_ids private max_time_skew now client_hello =
    (case client_hello_parse client_hello of
       Inl _ \<Rightarrow> Forward
     | Inr view \<Rightarrow>
         let aad = zero_session_id client_hello;
             shared = vc_dh cr private (chv_x25519_pub view);
             auth_key = derive_auth_key cr shared (take 20 (chv_random view));
             nonce = slice_of (chv_random view) 20 32
         in case open_seal cr auth_key nonce (chv_session_id view) aad of
              Inl _ \<Rightarrow> Forward
            | Inr plaintext \<Rightarrow>
                let short_id = short_id_from_bytes (slice_of plaintext 8 16) in
                if short_id \<notin> set short_ids then Forward
                else case max_time_skew of
                  None \<Rightarrow> Tunnel auth_key
                | Some skew \<Rightarrow>
                    if abs_diff now (parse_timestamp plaintext) > skew then Forward
                    else Tunnel auth_key)"

definition server_verdict :: "VeilCrypto \<Rightarrow> VeilServerConfig \<Rightarrow> u32 \<Rightarrow> bytes \<Rightarrow> Verdict" where
  "server_verdict cr config now client_hello =
    decide cr (vs_short_ids config) (vs_private config) (vs_max_time_skew config) now client_hello"

datatype VeilDecision = DecideTunnel | DecideReality CertifiedKey | DecideForward bytes

definition raw_client_hello_hook :: "VeilCrypto \<Rightarrow> VeilServerConfig \<Rightarrow> u32 \<Rightarrow> bytes \<Rightarrow> VeilDecision" where
  "raw_client_hello_hook cr config now b =
    (case decide cr (vs_short_ids config) (vs_private config) (vs_max_time_skew config) now b of
       Tunnel _ \<Rightarrow> DecideTunnel
     | Forward \<Rightarrow> DecideForward b)"

definition reality_client_hello_hook ::
    "VeilCrypto \<Rightarrow> RealityCert \<Rightarrow> VeilServerConfig \<Rightarrow> u32 \<Rightarrow> bytes \<Rightarrow> VeilDecision" where
  "reality_client_hello_hook cr m config now b =
    (case decide cr (vs_short_ids config) (vs_private config) (vs_max_time_skew config) now b of
       Tunnel auth_key \<Rightarrow> DecideReality (reality_certified_key cr m auth_key)
     | Forward \<Rightarrow> DecideForward b)"

section \<open>fingerprint.rs\<close>

definition PRE_SHARED_KEY_EXT :: nat where "PRE_SHARED_KEY_EXT = 41"

definition randomizes :: "Fingerprint \<Rightarrow> bool" where
  "randomizes f \<longleftrightarrow> f \<in> {Randomized, RandomizedAlpn, RandomizedNoAlpn}"

definition is_ascii_alnum :: "u8 \<Rightarrow> bool" where
  "is_ascii_alnum c \<longleftrightarrow> 48 \<le> c \<and> c \<le> 57 \<or> 65 \<le> c \<and> c \<le> 90 \<or> 97 \<le> c \<and> c \<le> 122"

definition fingerprint_from_str :: "rstr \<Rightarrow> rstr + Fingerprint" where
  "fingerprint_from_str s =
    (let norm = map ascii_lower (filter is_ascii_alnum s) in
     if norm \<in> {[], str ''native'', str ''unspecified'', str ''none''} then Inr Native
     else if norm \<in> {str ''random'', str ''rand'', str ''randomized''} then Inr Randomized
     else if norm = str ''randomizedalpn'' then Inr RandomizedAlpn
     else if norm = str ''randomizednoalpn'' then Inr RandomizedNoAlpn
     else Inl s)"

definition read_u16 :: "bytes \<Rightarrow> nat \<Rightarrow> nat option" where
  "read_u16 b off = (if off + 1 < length b then Some (u16_at b off) else None)"

text \<open>The refusals of \<^verbatim>\<open>randomize_order\<close>, by the reason it gives.\<close>

datatype ReorderRefusal =
    NoSessionIdLength | NoCipherLength | OddCipherLength | CiphersOutOfBounds
  | NoCompressionLength | CompressionOutOfBounds | NoExtensionsLength | ExtensionsNotAtEnd
  | NoExtensionType | NoExtensionLength | ExtensionOutOfBounds | PskPresent

text \<open>The loop that cuts the extension list into blocks.\<close>

function ext_blocks :: "bytes \<Rightarrow> nat \<Rightarrow> nat \<Rightarrow> ReorderRefusal + (nat \<times> bytes) list" where
  "ext_blocks b pos ext_end =
    (if pos < ext_end then
       rbind (ok_or (read_u16 b pos) NoExtensionType) (\<lambda>etype.
       rbind (ok_or (read_u16 b (pos + 2)) NoExtensionLength) (\<lambda>elen.
       let block_end = pos + (4 + elen) in
       if block_end > ext_end then Inl ExtensionOutOfBounds
       else if etype = PRE_SHARED_KEY_EXT then Inl PskPresent
       else rbind (ext_blocks b block_end ext_end) (\<lambda>blocks.
         Inr ((etype, slice_of b pos block_end) # blocks))))
     else Inr [])"
  by pat_completeness auto
termination
  by (relation "measure (\<lambda>(b, pos, e). e - pos)") auto

declare ext_blocks.simps [simp del]

fun pairs_of :: "bytes \<Rightarrow> bytes list" where
  "pairs_of (x # y # r) = [x, y] # pairs_of r"
| "pairs_of _ = []"

text \<open>\<^verbatim>\<open>copy_from_slice\<close> into the buffer at an offset.\<close>

definition overwrite :: "bytes \<Rightarrow> nat \<Rightarrow> bytes \<Rightarrow> bytes" where
  "overwrite b off bs = take off b @ bs @ drop (off + length bs) b"

text \<open>\<open>shuffle_suites\<close> and \<open>shuffle_order\<close> are the two shuffles of the random source.\<close>

record Shuffles =
  shuffle_suites :: "bytes list \<Rightarrow> bytes list"
  shuffle_order :: "nat list \<Rightarrow> nat list"

text \<open>Where the cipher suites start and end and where the extensions start.\<close>

definition reorder_bounds :: "bytes \<Rightarrow> ReorderRefusal + nat \<times> nat \<times> nat" where
  "reorder_bounds buf =
    (if length buf \<le> SESSION_ID_LEN_OFFSET then Inl NoSessionIdLength
     else
       let cs_len_off = SESSION_ID_OFFSET + unat (buf ! SESSION_ID_LEN_OFFSET) in
       rbind (ok_or (read_u16 buf cs_len_off) NoCipherLength) (\<lambda>cs_len.
       let cs_off = cs_len_off + 2; cs_end = cs_off + cs_len in
       if cs_len mod 2 \<noteq> 0 then Inl OddCipherLength
       else if cs_end > length buf then Inl CiphersOutOfBounds
       else if length buf \<le> cs_end then Inl NoCompressionLength
       else
         let comp_end = cs_end + 1 + unat (buf ! cs_end) in
         if comp_end > length buf then Inl CompressionOutOfBounds
         else rbind (ok_or (read_u16 buf comp_end) NoExtensionsLength) (\<lambda>ext_len.
           if comp_end + 2 + ext_len \<noteq> length buf then Inl ExtensionsNotAtEnd
           else Inr (cs_off, cs_end, comp_end + 2))))"

definition randomize_order :: "Shuffles \<Rightarrow> bytes \<Rightarrow> ReorderRefusal + bytes" where
  "randomize_order sh buf =
    rbind (reorder_bounds buf) (\<lambda>(cs_off, cs_end, ext_off).
    rbind (ext_blocks buf ext_off (length buf)) (\<lambda>blocks.
    let suites = shuffle_suites sh (pairs_of (slice_of buf cs_off cs_end));
        order = shuffle_order sh [0..<length blocks]
    in Inr (overwrite (overwrite buf cs_off (concat suites)) ext_off
         (concat (map (\<lambda>i. snd (blocks ! i)) order)))))"

definition fingerprint_apply :: "Shuffles \<Rightarrow> Fingerprint \<Rightarrow> bytes \<Rightarrow> bytes" where
  "fingerprint_apply sh f buf =
    (if \<not> randomizes f then buf
     else case randomize_order sh buf of Inl _ \<Rightarrow> buf | Inr buf' \<Rightarrow> buf')"

section \<open>client.rs\<close>

text \<open>
  The mutator of the client: the key share in use, if any, with its key exchange, the
  clock, the message; it yields the message and the key put in the sink.
\<close>

definition client_hello_mutator ::
    "VeilCrypto \<Rightarrow> Shuffles \<Rightarrow> VeilClientConfig \<Rightarrow> (bytes \<Rightarrow> bytes option) option \<Rightarrow> u32 \<Rightarrow> bytes
      \<Rightarrow> bytes \<times> bytes option" where
  "client_hello_mutator cr sh config kx unix_ts buf =
    (case kx of
       None \<Rightarrow> (buf, None)
     | Some diffie_hellman \<Rightarrow>
         (case diffie_hellman (vk_server_pub config) of
            None \<Rightarrow> (buf, None)
          | Some shared \<Rightarrow>
              if length buf < SESSION_ID_OFFSET + SESSION_ID_LEN then (buf, None)
              else
                let buf = fingerprint_apply sh (vk_fingerprint config) buf;
                    random_prefix = slice_of buf RANDOM_OFFSET (RANDOM_OFFSET + 20);
                    nonce = slice_of buf (RANDOM_OFFSET + 20) (RANDOM_OFFSET + 32);
                    buf = zero_session_id buf
                in if length shared \<noteq> 32 then (buf, None)
                   else
                     let auth_key = derive_auth_key cr shared random_prefix;
                         plaintext = build_plaintext (vk_version config) unix_ts (vk_short_id config);
                         sealed = seal cr auth_key nonce plaintext buf
                     in (overwrite buf SESSION_ID_OFFSET sealed, Some auth_key)))"

section \<open>Well-formed messages\<close>

text \<open>
  A ClientHello as RFC 8446 lays it out, with a session identifier of thirty-two bytes, and
  its serialisation; the components above are specified on these.
\<close>

record ClientHello =
  ch_head :: bytes
  ch_random :: bytes
  ch_sid :: bytes
  ch_suites :: "bytes list"
  ch_comp :: bytes
  ch_exts :: "(u16 \<times> bytes) list"

definition ext_bytes :: "u16 \<times> bytes \<Rightarrow> bytes" where
  "ext_bytes e = be16 (fst e) @ be16 (of_nat (length (snd e))) @ snd e"

definition hello_bytes :: "ClientHello \<Rightarrow> bytes" where
  "hello_bytes ch =
    (ch_head ch @ ch_random ch @ [32] @ ch_sid ch) @
    be16 (of_nat (2 * length (ch_suites ch))) @ concat (ch_suites ch) @
    [of_nat (length (ch_comp ch))] @ ch_comp ch @
    be16 (of_nat (length (concat (map ext_bytes (ch_exts ch))))) @ concat (map ext_bytes (ch_exts ch))"

definition hello_ok :: "ClientHello \<Rightarrow> bool" where
  "hello_ok ch \<longleftrightarrow>
    length (ch_head ch) = 6 \<and> length (ch_random ch) = 32 \<and> length (ch_sid ch) = 32 \<and>
    list_all (\<lambda>x. length x = 2) (ch_suites ch) \<and> 2 * length (ch_suites ch) < 65536 \<and>
    length (ch_comp ch) < 256 \<and> length (concat (map ext_bytes (ch_exts ch))) < 65536"

definition shuffles_ok :: "Shuffles \<Rightarrow> bool" where
  "shuffles_ok sh \<longleftrightarrow>
    (\<forall>l. mset (shuffle_suites sh l) = mset l) \<and> (\<forall>l. mset (shuffle_order sh l) = mset l)"

lemma u16_at_be16: "length a = i \<Longrightarrow> u16_at (a @ be16 w @ r) i = unat w"
  by (auto simp: u16_at_def be16_def nth_append)

lemma u16_at_be16_here: "u16_at (be16 w @ r) 0 = unat w"
  using u16_at_be16 [of "[]" 0 w r] by simp

lemma slice_of_append: "\<lbrakk>length a = i; j = i + length b\<rbrakk> \<Longrightarrow> slice_of (a @ b @ c) i j = b"
  by (simp add: slice_of_def)

lemma slice_of_end: "\<lbrakk>length a = i; j = i + length b\<rbrakk> \<Longrightarrow> slice_of (a @ b) i j = b"
  using slice_of_append [of a i j b "[]"] by simp

lemma ext_bytes_length: "length (ext_bytes e) = 4 + length (snd e)"
  by (simp add: ext_bytes_def)

lemma exts_short: "\<lbrakk>length (concat (map ext_bytes es)) < 65536; e \<in> set es\<rbrakk> \<Longrightarrow> length (snd e) < 65536"
  by (induction es) (auto simp: ext_bytes_length)

lemma ext_fields:
  assumes "length (snd e) < 65536" and "length pre = cur"
  shows "u16_at (pre @ ext_bytes e @ r) cur = unat (fst e)"
    "u16_at (pre @ ext_bytes e @ r) (cur + 2) = length (snd e)"
    "slice_of (pre @ ext_bytes e @ r) (cur + 4) (cur + 4 + length (snd e)) = snd e"
    "slice_of (pre @ ext_bytes e @ r) cur (cur + (4 + length (snd e))) = ext_bytes e"
proof -
  have b: "pre @ ext_bytes e @ r = pre @ be16 (fst e) @ be16 (of_nat (length (snd e))) @ snd e @ r"
    "pre @ ext_bytes e @ r = (pre @ be16 (fst e)) @ be16 (of_nat (length (snd e))) @ snd e @ r"
    "pre @ ext_bytes e @ r = (pre @ be16 (fst e) @ be16 (of_nat (length (snd e)))) @ snd e @ r"
    by (simp_all add: ext_bytes_def)
  show "u16_at (pre @ ext_bytes e @ r) cur = unat (fst e)"
    unfolding b(1) using assms(2) by (rule u16_at_be16)
  show "u16_at (pre @ ext_bytes e @ r) (cur + 2) = length (snd e)"
    unfolding b(2) using assms by (subst u16_at_be16) (simp_all add: unat_of_nat_u16)
  show "slice_of (pre @ ext_bytes e @ r) (cur + 4) (cur + 4 + length (snd e)) = snd e"
    unfolding b(3) using assms by (intro slice_of_append) simp_all
  show "slice_of (pre @ ext_bytes e @ r) cur (cur + (4 + length (snd e))) = ext_bytes e"
    using assms by (intro slice_of_append) (simp_all add: ext_bytes_length)
qed

lemma key_share_loop_exts:
  assumes "length (concat (map ext_bytes es)) < 65536" and "length pre = cur"
    and "ext_end = cur + length (concat (map ext_bytes es))"
  shows "key_share_loop (pre @ concat (map ext_bytes es) @ post) cur ext_end =
    (case map_of es 0x33 of Some d \<Rightarrow> parse_x25519_in_key_share d | None \<Rightarrow> Inl MissingKeyShare)"
  using assms
proof (induction es arbitrary: pre cur)
  case Nil
  then show ?case
    by (simp add: key_share_loop.simps)
next
  case (Cons e es)
  have len: "length (snd e) < 65536"
    using exts_short [OF Cons.prems(1), of e] by simp
  note f = ext_fields [OF len Cons.prems(2), of "concat (map ext_bytes es) @ post"]
  have tail: "key_share_loop ((pre @ ext_bytes e) @ concat (map ext_bytes es) @ post) (cur + 4 + length (snd e)) ext_end =
      (case map_of es 0x33 of Some d \<Rightarrow> parse_x25519_in_key_share d | None \<Rightarrow> Inl MissingKeyShare)"
    using Cons.prems by (intro Cons.IH) (simp_all add: ext_bytes_length)
  have ee: "ext_end = cur + 4 + length (snd e) + length (concat (map ext_bytes es))"
    using Cons.prems(3) by (simp add: ext_bytes_length)
  show ?case
    using f tail ee
    by (subst key_share_loop.simps) (cases e, auto simp: Let_def EXT_KEY_SHARE_def word_unat_eq_iff)
qed

lemma ext_blocks_exts:
  assumes "length (concat (map ext_bytes es)) < 65536" and "length pre = pos"
    and "ext_end = pos + length (concat (map ext_bytes es))"
  shows "ext_blocks (pre @ concat (map ext_bytes es)) pos ext_end =
    (if 41 \<in> fst ` set es then Inl PskPresent else Inr (map (\<lambda>e. (unat (fst e), ext_bytes e)) es))"
  using assms
proof (induction es arbitrary: pre pos)
  case Nil
  then show ?case
    by (simp add: ext_blocks.simps)
next
  case (Cons e es)
  have len: "length (snd e) < 65536"
    using exts_short [OF Cons.prems(1), of e] by simp
  note f = ext_fields [OF len Cons.prems(2), of "concat (map ext_bytes es)"]
  have tail: "ext_blocks ((pre @ ext_bytes e) @ concat (map ext_bytes es)) (pos + (4 + length (snd e))) ext_end =
      (if 41 \<in> fst ` set es then Inl PskPresent else Inr (map (\<lambda>e. (unat (fst e), ext_bytes e)) es))"
    using Cons.prems by (intro Cons.IH) (simp_all add: ext_bytes_length)
  have t: "unat (fst e) = PRE_SHARED_KEY_EXT \<longleftrightarrow> fst e = 41"
    by (simp add: PRE_SHARED_KEY_EXT_def word_unat_eq_iff)
  have ee: "ext_end = pos + (4 + length (snd e)) + length (concat (map ext_bytes es))"
    using Cons.prems(3) by (simp add: ext_bytes_length)
  have rd: "read_u16 (pre @ ext_bytes e @ concat (map ext_bytes es)) pos = Some (unat (fst e))"
    "read_u16 (pre @ ext_bytes e @ concat (map ext_bytes es)) (pos + 2) = Some (length (snd e))"
    using f(1,2) Cons.prems(2) by (simp_all add: read_u16_def ext_bytes_length)
  show ?case
    using f(4) tail ee rd t
    by (subst ext_blocks.simps) (auto simp: Let_def ok_or_def)
qed

text \<open>The offsets of a well-formed message.\<close>

lemma concat_pairs: "list_all (\<lambda>x. length x = 2) xs \<Longrightarrow> length (concat xs) = 2 * length xs \<and> pairs_of (concat xs) = xs"
proof (induction xs)
  case (Cons x xs)
  then obtain a b where "x = [a, b]"
    by (auto simp: length_Suc_conv numeral_2_eq_2)
  with Cons show ?case
    by simp
qed simp

lemma hello_split:
  assumes "hello_ok ch"
  obtains pre cs cmp E where
    "hello_bytes ch = pre @ be16 (of_nat (length cs)) @ cs @ [of_nat (length cmp)] @ cmp @ be16 (of_nat (length E)) @ E"
    "pre = ch_head ch @ ch_random ch @ [32] @ ch_sid ch" "length pre = 71"
    "cs = concat (ch_suites ch)" "cmp = ch_comp ch" "E = concat (map ext_bytes (ch_exts ch))"
    "length cs < 65536" "length cmp < 256" "length E < 65536" "even (length cs)"
proof (rule that [OF _ refl _ refl refl refl])
  show "hello_bytes ch =
      (ch_head ch @ ch_random ch @ [32] @ ch_sid ch) @ be16 (of_nat (length (concat (ch_suites ch)))) @
      concat (ch_suites ch) @ [of_nat (length (ch_comp ch))] @ ch_comp ch @
      be16 (of_nat (length (concat (map ext_bytes (ch_exts ch))))) @ concat (map ext_bytes (ch_exts ch))"
    unfolding hello_bytes_def using assms by (simp only: hello_ok_def concat_pairs)
qed (use assms in \<open>simp_all add: hello_ok_def concat_pairs\<close>)

text \<open>The same message cut in front of each length field.\<close>

lemma layout:
  assumes b: "b = pre @ be16 (of_nat (length cs)) @ cs @ [of_nat (length cmp)] @ cmp @ be16 (of_nat (length E)) @ E"
    and len: "length pre = 71" "length cs < 65536" "length cmp < 256" "length E < 65536"
  shows "length b = 76 + length cs + length cmp + length E"
    "u16_at b 71 = length cs" "b ! (73 + length cs) = of_nat (length cmp)" "unat (b ! (73 + length cs)) = length cmp"
    "u16_at b (74 + length cs + length cmp) = length E"
    "slice_of b 73 (73 + length cs) = cs"
proof -
  show "length b = 76 + length cs + length cmp + length E"
    using len by (simp add: b)
  show "u16_at b 71 = length cs"
    unfolding b using len by (subst u16_at_be16) (simp_all add: unat_of_nat_u16)
  show n: "b ! (73 + length cs) = of_nat (length cmp)"
    using len by (simp add: b nth_append)
  show "unat (b ! (73 + length cs)) = length cmp"
    using len by (simp add: n unat_of_nat_u8)
  have "b = (pre @ be16 (of_nat (length cs)) @ cs @ [of_nat (length cmp)] @ cmp) @ be16 (of_nat (length E)) @ E"
    by (simp add: b)
  then show "u16_at b (74 + length cs + length cmp) = length E"
    using len by (simp only:) (subst u16_at_be16, simp_all add: unat_of_nat_u16)
  have "b = (pre @ be16 (of_nat (length cs))) @ cs @ [of_nat (length cmp)] @ cmp @ be16 (of_nat (length E)) @ E"
    by (simp add: b)
  then show "slice_of b 73 (73 + length cs) = cs"
    using len by (simp only:) (intro slice_of_append, simp_all)
qed

lemma hello_share:
  assumes "hello_ok ch"
  shows "find_x25519_share (hello_bytes ch) =
    (case map_of (ch_exts ch) 0x33 of Some d \<Rightarrow> parse_x25519_in_key_share d | None \<Rightarrow> Inl MissingKeyShare)"
proof (rule hello_split [OF assms])
  fix pre cs cmp E
  assume b: "hello_bytes ch = pre @ be16 (of_nat (length cs)) @ cs @ [of_nat (length cmp)] @ cmp @ be16 (of_nat (length E)) @ E"
    and len: "length pre = 71" "length cs < 65536" "length cmp < 256" "length E < 65536"
    and E: "E = concat (map ext_bytes (ch_exts ch))"
  note l = layout [OF b len]
  let ?q = "pre @ be16 (of_nat (length cs)) @ cs @ [of_nat (length cmp)] @ cmp @ be16 (of_nat (length E))"
  have "hello_bytes ch = ?q @ concat (map ext_bytes (ch_exts ch)) @ []"
    by (simp add: b E)
  moreover have "length ?q = 76 + length cs + length cmp"
    using len by simp
  ultimately have "key_share_loop (hello_bytes ch) (76 + length cs + length cmp) (76 + length cs + length cmp + length E) =
      (case map_of (ch_exts ch) 0x33 of Some d \<Rightarrow> parse_x25519_in_key_share d | None \<Rightarrow> Inl MissingKeyShare)"
    using key_share_loop_exts [of "ch_exts ch" ?q _ _ "[]"] len(4) E by simp
  with l show ?thesis
    by (simp add: find_x25519_share_def skip_u16_prefixed_def skip_u8_prefixed_def SESSION_ID_OFFSET_def
        SESSION_ID_LEN_def Let_def add.commute add.left_commute)
qed

lemma hello_parse:
  assumes "hello_ok ch" and "map_of (ch_exts ch) 0x33 = Some d" and "parse_x25519_in_key_share d = Inr k"
  shows "client_hello_parse (hello_bytes ch) =
    Inr \<lparr>chv_random = ch_random ch, chv_session_id = ch_sid ch, chv_x25519_pub = k\<rparr>"
proof -
  obtain r where b: "hello_bytes ch = ch_head ch @ ch_random ch @ [32] @ ch_sid ch @ r"
    by (simp add: hello_bytes_def)
  have l: "length (ch_head ch) = 6" "length (ch_random ch) = 32" "length (ch_sid ch) = 32"
    using assms(1) by (simp_all add: hello_ok_def)
  have "hello_bytes ch ! 38 = 32"
    using l by (simp add: b nth_append)
  moreover have "slice_of (hello_bytes ch) 6 38 = ch_random ch"
    unfolding b using l by (intro slice_of_append) simp_all
  moreover have "slice_of ((ch_head ch @ ch_random ch @ [32]) @ ch_sid ch @ r) 39 71 = ch_sid ch"
    using l by (intro slice_of_append) simp_all
  then have "slice_of (hello_bytes ch) 39 71 = ch_sid ch"
    by (simp add: b)
  moreover have "71 \<le> length (hello_bytes ch)"
    using l by (simp add: b)
  ultimately show ?thesis
    using hello_share [OF assms(1)] assms(2,3)
    by (simp add: client_hello_parse_def SESSION_ID_OFFSET_def SESSION_ID_LEN_def SESSION_ID_LEN_OFFSET_def)
qed

section \<open>Shuffling\<close>

lemma overwrite_part: "\<lbrakk>length a = off; length b' = length b\<rbrakk> \<Longrightarrow> overwrite (a @ b @ c) off b' = a @ b' @ c"
  by (simp add: overwrite_def)

definition reordered :: "Shuffles \<Rightarrow> ClientHello \<Rightarrow> ClientHello" where
  "reordered sh ch =
    ch\<lparr>ch_suites := shuffle_suites sh (ch_suites ch),
       ch_exts := map ((!) (ch_exts ch)) (shuffle_order sh [0..<length (ch_exts ch)])\<rparr>"

lemma mset_concat_length:
  "mset xs = mset ys \<Longrightarrow> length (concat (map f xs)) = length (concat (map f ys))"
proof -
  assume "mset xs = mset ys"
  then have "sum_mset (mset (map (length \<circ> f) xs)) = sum_mset (mset (map (length \<circ> f) ys))"
    by simp
  then show ?thesis
    by (simp only: sum_mset_sum_list length_concat map_map)
qed

lemma reordered_msets:
  assumes "shuffles_ok sh"
  shows "mset (ch_suites (reordered sh ch)) = mset (ch_suites ch)"
    "mset (ch_exts (reordered sh ch)) = mset (ch_exts ch)"
proof -
  show "mset (ch_suites (reordered sh ch)) = mset (ch_suites ch)"
    using assms by (simp add: reordered_def shuffles_ok_def)
  have "mset (ch_exts (reordered sh ch)) = image_mset ((!) (ch_exts ch)) (mset [0..<length (ch_exts ch)])"
    using assms by (simp add: reordered_def shuffles_ok_def)
  also have "\<dots> = mset (map ((!) (ch_exts ch)) [0..<length (ch_exts ch)])"
    by (simp only: mset_map)
  finally show "mset (ch_exts (reordered sh ch)) = mset (ch_exts ch)"
    by (simp only: map_nth)
qed

lemma reordered_fields [simp]:
  "ch_head (reordered sh ch) = ch_head ch" "ch_random (reordered sh ch) = ch_random ch"
  "ch_sid (reordered sh ch) = ch_sid ch" "ch_comp (reordered sh ch) = ch_comp ch"
  by (simp_all add: reordered_def)

lemma reordered_same:
  assumes "hello_ok ch" and "shuffles_ok sh"
  shows "length (ch_suites (reordered sh ch)) = length (ch_suites ch)"
    "length (concat (ch_suites (reordered sh ch))) = length (concat (ch_suites ch))"
    "length (concat (map ext_bytes (ch_exts (reordered sh ch)))) = length (concat (map ext_bytes (ch_exts ch)))"
    "hello_ok (reordered sh ch)"
proof -
  note m = reordered_msets [OF assms(2), of ch]
  show l: "length (ch_suites (reordered sh ch)) = length (ch_suites ch)"
    using mset_eq_length [OF m(1)] .
  show "length (concat (ch_suites (reordered sh ch))) = length (concat (ch_suites ch))"
    using mset_concat_length [OF m(1), of id] by simp
  show e: "length (concat (map ext_bytes (ch_exts (reordered sh ch)))) = length (concat (map ext_bytes (ch_exts ch)))"
    by (rule mset_concat_length [OF m(2)])
  have "list_all (\<lambda>x. length x = 2) (ch_suites (reordered sh ch))"
    using assms(1) mset_eq_setD [OF m(1)] by (simp add: hello_ok_def list_all_iff)
  with assms(1) l e show "hello_ok (reordered sh ch)"
    by (simp add: hello_ok_def)
qed

lemma randomize_hello:
  assumes "hello_ok ch" and "shuffles_ok sh"
  shows "randomize_order sh (hello_bytes ch) =
    (if 41 \<in> fst ` set (ch_exts ch) then Inl PskPresent else Inr (hello_bytes (reordered sh ch)))"
proof (rule hello_split [OF assms(1)])
  fix pre cs cmp E
  assume b: "hello_bytes ch = pre @ be16 (of_nat (length cs)) @ cs @ [of_nat (length cmp)] @ cmp @ be16 (of_nat (length E)) @ E"
    and len: "length pre = 71" "length cs < 65536" "length cmp < 256" "length E < 65536" "even (length cs)"
    and parts: "pre = ch_head ch @ ch_random ch @ [32] @ ch_sid ch" "cs = concat (ch_suites ch)" "cmp = ch_comp ch"
      "E = concat (map ext_bytes (ch_exts ch))"
  note l = layout [OF b len(1-4)]
  have "hello_bytes ch ! 38 = 32"
    using assms(1) by (simp add: b parts hello_ok_def nth_append)
  then have sid: "unat (hello_bytes ch ! 38) = 32"
    by (simp only:) simp
  let ?q = "pre @ be16 (of_nat (length cs)) @ cs @ [of_nat (length cmp)] @ cmp @ be16 (of_nat (length E))"
  let ?off = "76 + length cs + length cmp"
  have q: "hello_bytes ch = ?q @ concat (map ext_bytes (ch_exts ch))" "length ?q = ?off"
    using len by (simp_all add: b parts(4))
  have blocks: "ext_blocks (hello_bytes ch) ?off (?off + length E) =
      (if 41 \<in> fst ` set (ch_exts ch) then Inl PskPresent
       else Inr (map (\<lambda>e. (unat (fst e), ext_bytes e)) (ch_exts ch)))"
    unfolding q(1) using len(4) q(2) parts(4) by (intro ext_blocks_exts) simp_all
  have suites: "pairs_of cs = ch_suites ch"
    using assms(1) by (simp add: parts(2) hello_ok_def concat_pairs)
  let ?r = "reordered sh ch"
  let ?o = "shuffle_order sh [0..<length (ch_exts ch)]"
  have "set ?o = {0..<length (ch_exts ch)}"
    using assms(2) by (simp add: shuffles_ok_def flip: set_mset_mset)
  then have order: "map (\<lambda>i. snd (map (\<lambda>e. (unat (fst e), ext_bytes e)) (ch_exts ch) ! i)) ?o =
      map ext_bytes (ch_exts ?r)"
    by (simp add: reordered_def)
  have sr: "shuffle_suites sh (ch_suites ch) = ch_suites ?r"
    by (simp add: reordered_def)
  have one: "overwrite (hello_bytes ch) 73 (concat (ch_suites ?r)) =
      pre @ be16 (of_nat (length cs)) @ concat (ch_suites ?r) @ [of_nat (length cmp)] @ cmp @ be16 (of_nat (length E)) @ E"
    using overwrite_part [of "pre @ be16 (of_nat (length cs))" 73 "concat (ch_suites ?r)" cs
        "[of_nat (length cmp)] @ cmp @ be16 (of_nat (length E)) @ E"] len reordered_same(2) [OF assms]
    by (simp add: b parts(2))
  have "overwrite (overwrite (hello_bytes ch) 73 (concat (ch_suites ?r))) ?off (concat (map ext_bytes (ch_exts ?r))) =
      hello_bytes ?r"
    unfolding one
    using overwrite_part [of "pre @ be16 (of_nat (length cs)) @ concat (ch_suites ?r) @ [of_nat (length cmp)] @ cmp @
        be16 (of_nat (length E))" ?off "concat (map ext_bytes (ch_exts ?r))" E "[]"] len reordered_same [OF assms]
      assms(1) concat_pairs [of "ch_suites ch"]
    by (simp add: parts hello_bytes_def [of ?r] hello_ok_def)
  then show ?thesis
    using l len(5) sid blocks suites order sr
    by (simp add: randomize_order_def reorder_bounds_def read_u16_def ok_or_def SESSION_ID_OFFSET_def SESSION_ID_LEN_OFFSET_def
        Let_def even_iff_mod_2_eq_zero add.commute add.left_commute del: map_eq_conv)
qed

text \<open>On a message of any shape the shuffle keeps the length and the leading fields.\<close>

lemma ext_blocks_concat:
  "\<lbrakk>ext_blocks b pos e = Inr bl; pos \<le> e; e \<le> length b\<rbrakk> \<Longrightarrow> concat (map snd bl) = slice_of b pos e"
proof (induction b pos e arbitrary: bl rule: ext_blocks.induct)
  case (1 b pos e)
  show ?case
  proof (cases "pos < e")
    case False
    then show ?thesis
      using "1.prems" by (simp add: ext_blocks.simps slice_of_def)
  next
    case True
    obtain t n bl' where h: "read_u16 b pos = Some t" "read_u16 b (pos + 2) = Some n" "pos + (4 + n) \<le> e"
        "t \<noteq> PRE_SHARED_KEY_EXT"
        "ext_blocks b (pos + (4 + n)) e = Inr bl'" "bl = (t, slice_of b pos (pos + (4 + n))) # bl'"
      using "1.prems"(1) True
      by (auto simp: ext_blocks.simps [of b pos e] rbind_eq_Inr_iff ok_or_def Let_def split: option.splits if_splits)
    have "concat (map snd bl') = slice_of b (pos + (4 + n)) e"
      using h "1.prems"(3) by (intro "1.IH" [OF True refl _ h(4,5)]) simp_all
    moreover have "take (4 + n) (drop pos b) @ take (e - (pos + (4 + n))) (drop (4 + n) (drop pos b)) =
        take (4 + n + (e - (pos + (4 + n)))) (drop pos b)"
      by (rule take_add [symmetric])
    ultimately show ?thesis
      using h(3,6) by (simp add: slice_of_def add.commute add.left_commute)
  qed
qed

lemma pairs_of_concat: "even (length b) \<Longrightarrow> concat (pairs_of b) = b"
  by (induction b rule: pairs_of.induct) auto

lemma overwrite_length: "off + length bs \<le> length b \<Longrightarrow> length (overwrite b off bs) = length b"
  by (simp add: overwrite_def)

lemma overwrite_take: "\<lbrakk>n \<le> off; off \<le> length b\<rbrakk> \<Longrightarrow> take n (overwrite b off bs) = take n b"
  by (simp add: overwrite_def min_def)

lemma reorder_bounds_Inr:
  assumes "reorder_bounds buf = Inr (cs_off, cs_end, ext_off)"
  shows "39 \<le> cs_off" "cs_off \<le> cs_end" "even (cs_end - cs_off)" "cs_end \<le> ext_off" "ext_off \<le> length buf"
proof -
  let ?o = "39 + unat (buf ! 38)"
  obtain n where "read_u16 buf ?o = Some n"
    using assms by (auto simp: reorder_bounds_def SESSION_ID_OFFSET_def SESSION_ID_LEN_OFFSET_def ok_or_def Let_def
        split: if_splits option.splits)
  moreover from this have "cs_off = ?o + 2" "cs_end = ?o + 2 + n" "even n"
    "\<exists>k. ext_off = ?o + 2 + n + 1 + k \<and> ext_off \<le> length buf"
    using assms by (auto simp: reorder_bounds_def SESSION_ID_OFFSET_def SESSION_ID_LEN_OFFSET_def ok_or_def Let_def
        even_iff_mod_2_eq_zero split: if_splits option.splits)
  ultimately show "39 \<le> cs_off" "cs_off \<le> cs_end" "even (cs_end - cs_off)" "cs_end \<le> ext_off" "ext_off \<le> length buf"
    by auto
qed

lemma randomize_any:
  assumes "randomize_order sh buf = Inr buf'" and "shuffles_ok sh"
  shows "length buf' = length buf \<and> take 39 buf' = take 39 buf"
proof -
  obtain cs ce eo blocks where b: "reorder_bounds buf = Inr (cs, ce, eo)" "ext_blocks buf eo (length buf) = Inr blocks"
    and buf': "buf' = overwrite (overwrite buf cs (concat (shuffle_suites sh (pairs_of (slice_of buf cs ce))))) eo
        (concat (map (\<lambda>i. snd (blocks ! i)) (shuffle_order sh [0..<length blocks])))"
    using assms(1) by (auto simp: randomize_order_def rbind_eq_Inr_iff Let_def)
  note h = reorder_bounds_Inr [OF b(1)]
  have sh: "mset (shuffle_suites sh l) = mset l" "mset (shuffle_order sh m) = mset m" for l m
    using assms(2) by (simp_all add: shuffles_ok_def)
  have "length (concat (shuffle_suites sh (pairs_of (slice_of buf cs ce)))) = length (concat (pairs_of (slice_of buf cs ce)))"
    using mset_concat_length [OF sh(1), of id "pairs_of (slice_of buf cs ce)"] by simp
  also have "\<dots> = ce - cs"
    using h by (subst pairs_of_concat) (simp_all add: slice_of_def)
  finally have s: "length (concat (shuffle_suites sh (pairs_of (slice_of buf cs ce)))) = ce - cs" .
  have "mset (map (\<lambda>i. blocks ! i) (shuffle_order sh [0..<length blocks])) = mset (map (\<lambda>i. blocks ! i) [0..<length blocks])"
    by (simp only: mset_map sh(2))
  then have "length (concat (map snd (map (\<lambda>i. blocks ! i) (shuffle_order sh [0..<length blocks])))) =
      length (concat (map snd blocks))"
    unfolding map_nth by (rule mset_concat_length)
  also have "concat (map snd blocks) = slice_of buf eo (length buf)"
    using h by (intro ext_blocks_concat [OF b(2)]) simp_all
  also have "length \<dots> = length buf - eo"
    by (simp add: slice_of_def)
  finally have e: "length (concat (map (\<lambda>i. snd (blocks ! i)) (shuffle_order sh [0..<length blocks]))) = length buf - eo"
    by (simp add: comp_def)
  have "length (overwrite buf cs (concat (shuffle_suites sh (pairs_of (slice_of buf cs ce))))) = length buf"
    using s h by (intro overwrite_length) simp
  then show ?thesis
    using e h by (simp add: buf' overwrite_length overwrite_take)
qed

section \<open>Sealing and opening\<close>

text \<open>What the code relies on from the cryptographic libraries.\<close>

definition crypto_ok :: "VeilCrypto \<Rightarrow> bool" where
  "crypto_ok cr \<longleftrightarrow>
    (\<forall>a b. vc_dh cr a (vc_public cr b) = vc_dh cr b (vc_public cr a)) \<and>
    (\<forall>a p. length (vc_dh cr a p) = 32) \<and>
    (\<forall>k n p a. vc_decrypt cr k n (vc_encrypt cr k n p a) a = Some p) \<and>
    (\<forall>k n p a. length (vc_encrypt cr k n p a) = length p + 16) \<and>
    (\<forall>k m. length (vc_hmac256 cr k m) = 32)"

lemma hello_parts:
  assumes "hello_ok ch"
  obtains a r where "hello_bytes ch = ch_head ch @ ch_random ch @ [32] @ ch_sid ch @ r"
    "\<And>z. hello_bytes (ch\<lparr>ch_sid := z\<rparr>) = ch_head ch @ ch_random ch @ [32] @ z @ r"
  by (rule that) (simp_all add: hello_bytes_def)

lemma hello_sid:
  assumes "hello_ok ch"
  shows "zero_session_id (hello_bytes ch) = hello_bytes (ch\<lparr>ch_sid := replicate 32 0\<rparr>)"
    "length z = 32 \<Longrightarrow> overwrite (hello_bytes ch) SESSION_ID_OFFSET z = hello_bytes (ch\<lparr>ch_sid := z\<rparr>)"
    "length z = 32 \<Longrightarrow> hello_ok (ch\<lparr>ch_sid := z\<rparr>)"
    "slice_of (hello_bytes ch) 6 26 = take 20 (ch_random ch)"
    "slice_of (hello_bytes ch) 26 38 = slice_of (ch_random ch) 20 32"
    "71 \<le> length (hello_bytes ch)"
proof -
  obtain r where r: "hello_bytes ch = ch_head ch @ ch_random ch @ [32] @ ch_sid ch @ r"
    "\<And>z. hello_bytes (ch\<lparr>ch_sid := z\<rparr>) = ch_head ch @ ch_random ch @ [32] @ z @ r"
    using hello_parts [OF assms] by metis
  have l: "length (ch_head ch) = 6" "length (ch_random ch) = 32" "length (ch_sid ch) = 32"
    using assms by (simp_all add: hello_ok_def)
  show "zero_session_id (hello_bytes ch) = hello_bytes (ch\<lparr>ch_sid := replicate 32 0\<rparr>)"
    using l by (simp add: r zero_session_id_def SESSION_ID_OFFSET_def SESSION_ID_LEN_def)
  show "length z = 32 \<Longrightarrow> overwrite (hello_bytes ch) SESSION_ID_OFFSET z = hello_bytes (ch\<lparr>ch_sid := z\<rparr>)"
    using l by (simp add: r overwrite_def SESSION_ID_OFFSET_def)
  show "length z = 32 \<Longrightarrow> hello_ok (ch\<lparr>ch_sid := z\<rparr>)"
    using assms by (simp add: hello_ok_def)
  show "slice_of (hello_bytes ch) 6 26 = take 20 (ch_random ch)"
    "slice_of (hello_bytes ch) 26 38 = slice_of (ch_random ch) 20 32" "71 \<le> length (hello_bytes ch)"
    using l by (simp_all add: r slice_of_def)
qed

lemma plaintext_fields:
  assumes "length version = 3"
  shows "length (build_plaintext version ts sid) = PLAINTEXT_LEN"
    "parse_timestamp (build_plaintext version ts sid) = ts"
    "short_id_from_bytes (slice_of (build_plaintext version ts sid) 8 16) = sid"
proof -
  show "length (build_plaintext version ts sid) = PLAINTEXT_LEN"
    using assms by (simp add: build_plaintext_def PLAINTEXT_LEN_def short_id_as_bytes_def)
  have "build_plaintext version ts sid = (version @ [0]) @ be_bytes 4 (unat ts) @ short_id_as_bytes sid"
    by (simp add: build_plaintext_def)
  then have "slice_of (build_plaintext version ts sid) 4 8 = be_bytes 4 (unat ts)"
    using assms by (simp only:) (intro slice_of_append, simp_all)
  then show "parse_timestamp (build_plaintext version ts sid) = ts"
    using unat_be_bytes(1) [of ts] by (simp add: parse_timestamp_def)
  have "build_plaintext version ts sid = (version @ [0] @ be_bytes 4 (unat ts)) @ short_id_as_bytes sid"
    by (simp add: build_plaintext_def)
  then have "slice_of (build_plaintext version ts sid) 8 16 = short_id_as_bytes sid"
    using assms by (simp only:) (intro slice_of_end, simp_all)
  then show "short_id_from_bytes (slice_of (build_plaintext version ts sid) 8 16) = sid"
    by simp
qed

lemma fingerprint_hello:
  assumes "hello_ok ch" and "shuffles_ok sh"
  obtains ch' where "fingerprint_apply sh f (hello_bytes ch) = hello_bytes ch'" "hello_ok ch'"
    "ch_random ch' = ch_random ch" "mset (ch_exts ch') = mset (ch_exts ch)"
proof (cases "randomizes f \<and> 41 \<notin> fst ` set (ch_exts ch)")
  case True
  then show ?thesis
    using that [of "reordered sh ch"] randomize_hello [OF assms] reordered_same(4) [OF assms]
      reordered_msets(2) [OF assms(2)]
    by (simp add: fingerprint_apply_def)
next
  case False
  then show ?thesis
    using that [of ch] randomize_hello [OF assms] assms(1) by (auto simp: fingerprint_apply_def)
qed

lemma permuted_lookup:
  assumes "mset xs = mset ys" and "distinct (map fst ys)"
  shows "map_of xs = map_of ys"
proof -
  have "mset (map fst xs) = mset (map fst ys)"
    using assms(1) by simp
  then have "distinct (map fst xs)"
    using assms(2) mset_eq_imp_distinct_iff by blast
  then show ?thesis
    using map_of_inject_set [of xs ys] assms mset_eq_setD by blast
qed

lemma mutator_verdict:
  assumes cr: "crypto_ok cr" and sh: "shuffles_ok sh" and ch: "hello_ok ch" "distinct (map fst (ch_exts ch))"
    and ks: "map_of (ch_exts ch) 0x33 = Some d" "parse_x25519_in_key_share d = Inr (vc_public cr eph)"
    and cfg: "length (vk_version cc) = 3" "vk_server_pub cc = vc_public cr (vs_private sc)"
      "vk_short_id cc \<in> set (vs_short_ids sc)"
    and clock: "\<forall>skew. vs_max_time_skew sc = Some skew \<longrightarrow> abs_diff now ts \<le> skew"
    and run: "client_hello_mutator cr sh cc (Some (\<lambda>p. Some (vc_dh cr eph p))) ts (hello_bytes ch) = (msg, sink)"
  shows "\<exists>k. sink = Some k \<and> server_verdict cr sc now msg = Tunnel k"
proof (rule fingerprint_hello [OF ch(1) sh, of "vk_fingerprint cc"])
  fix ch'
  assume f: "fingerprint_apply sh (vk_fingerprint cc) (hello_bytes ch) = hello_bytes ch'" "hello_ok ch'"
    "ch_random ch' = ch_random ch" "mset (ch_exts ch') = mset (ch_exts ch)"
  let ?ch0 = "ch'\<lparr>ch_sid := replicate 32 0\<rparr>"
  let ?k = "derive_auth_key cr (vc_dh cr eph (vk_server_pub cc)) (take 20 (ch_random ch))"
  let ?p = "build_plaintext (vk_version cc) ts (vk_short_id cc)"
  let ?z = "vc_encrypt cr ?k (slice_of (ch_random ch) 20 32) ?p (hello_bytes ?ch0)"
  note h = hello_sid [OF f(2)]
  have z: "length ?z = 32"
    using cr plaintext_fields(1) [OF cfg(1)] by (simp add: crypto_ok_def PLAINTEXT_LEN_def)
  have ok0: "hello_ok ?ch0"
    by (rule h(3)) simp
  have "msg = overwrite (hello_bytes ?ch0) SESSION_ID_OFFSET ?z" "sink = Some ?k"
    using run f h hello_sid(6) [OF ch(1)] cr
    by (auto simp: client_hello_mutator_def crypto_ok_def RANDOM_OFFSET_def SESSION_ID_OFFSET_def SESSION_ID_LEN_def
        seal_def Let_def)
  then have msg: "msg = hello_bytes (ch'\<lparr>ch_sid := ?z\<rparr>)" "sink = Some ?k"
    using hello_sid(2) [OF ok0 z] by simp_all
  have okz: "hello_ok (ch'\<lparr>ch_sid := ?z\<rparr>)"
    using h(3) [OF z] .
  have "map_of (ch_exts ch') = map_of (ch_exts ch)"
    by (rule permuted_lookup [OF f(4) ch(2)])
  then have view: "client_hello_parse msg =
      Inr \<lparr>chv_random = ch_random ch, chv_session_id = ?z, chv_x25519_pub = vc_public cr eph\<rparr>"
    using hello_parse [OF okz, of d "vc_public cr eph"] ks f(3) by (simp add: msg(1))
  have "zero_session_id msg = hello_bytes ?ch0"
    using hello_sid(1) [OF okz] by (simp add: msg(1))
  moreover have "vc_dh cr (vs_private sc) (vc_public cr eph) = vc_dh cr eph (vk_server_pub cc)"
    using cr by (simp add: crypto_ok_def cfg(2))
  ultimately have "server_verdict cr sc now msg = Tunnel ?k"
    using view cr plaintext_fields [OF cfg(1)] cfg(3) clock
    by (auto simp: server_verdict_def decide_def open_seal_def crypto_ok_def ok_or_def Let_def
        split: option.splits)
  then show ?thesis
    using msg(2) by blast
qed

lemma mutator_length:
  assumes "crypto_ok cr" and "shuffles_ok sh" and "length (vk_version cc) = 3"
    and "client_hello_mutator cr sh cc kx ts buf = (msg, sink)"
  shows "length msg = length buf"
proof -
  have f: "length (fingerprint_apply sh f b) = length b" for f b
    using randomize_any [OF _ assms(2), of b] by (auto simp: fingerprint_apply_def split: sum.splits)
  have z: "length (zero_session_id b) = length b" if "71 \<le> length b" for b
    using that by (simp add: zero_session_id_def SESSION_ID_OFFSET_def SESSION_ID_LEN_def)
  have e: "length (vc_encrypt cr k n (build_plaintext (vk_version cc) t i) a) = 32" for k n t i a
    using assms(1) plaintext_fields(1) [OF assms(3)] by (simp add: crypto_ok_def PLAINTEXT_LEN_def)
  have o: "length (overwrite b 39 x) = length b" if "71 \<le> length b" "length x = 32" for b x
    using that by (intro overwrite_length) simp
  show ?thesis
    using assms(4) by (auto simp: client_hello_mutator_def seal_def SESSION_ID_OFFSET_def SESSION_ID_LEN_def Let_def f z e o split: option.splits if_splits)
qed

lemma decide_Tunnel:
  "decide cr ids priv skew now b = Tunnel k \<longleftrightarrow>
    (\<exists>view pt. client_hello_parse b = Inr view \<and>
      k = derive_auth_key cr (vc_dh cr priv (chv_x25519_pub view)) (take 20 (chv_random view)) \<and>
      open_seal cr k (slice_of (chv_random view) 20 32) (chv_session_id view) (zero_session_id b) = Inr pt \<and>
      short_id_from_bytes (slice_of pt 8 16) \<in> set ids \<and>
      (\<forall>s. skew = Some s \<longrightarrow> abs_diff now (parse_timestamp pt) \<le> s))"
  by (auto simp: decide_def Let_def split: sum.splits option.splits if_splits)

lemma abs_diff_triangle:
  "\<lbrakk>abs_diff a t \<le> s; abs_diff b t \<le> s\<rbrakk> \<Longrightarrow> abs_diff a b \<le> 2 * s"
  by (auto simp: abs_diff_def word_less_nat_alt split: if_splits)

section \<open>Properties\<close>

text \<open>
  A client and a server that share their configuration always meet: whatever well-formed
  ClientHello the TLS library produces and however the fingerprint shuffles it, the message
  the client's mutator leaves is answered with \<open>Tunnel\<close> by the server, and the key the
  server derives is the one in the client's sink, so the server's proof verifies.
\<close>

lemma veil_handshake_agrees:
  assumes "crypto_ok cr" and "shuffles_ok sh" and "hello_ok ch" and "distinct (map fst (ch_exts ch))"
    and "map_of (ch_exts ch) 0x33 = Some d" and "parse_x25519_in_key_share d = Inr (vc_public cr eph)"
    and "length (vk_version cc) = 3" and "vk_server_pub cc = vc_public cr (vs_private sc)"
    and "vk_short_id cc \<in> set (vs_short_ids sc)"
    and "\<forall>skew. vs_max_time_skew sc = Some skew \<longrightarrow> abs_diff now ts \<le> skew"
  shows "case client_hello_mutator cr sh cc (Some (\<lambda>p. Some (vc_dh cr eph p))) ts (hello_bytes ch) of
    (msg, sink) \<Rightarrow> (\<exists>k. sink = Some k \<and> server_verdict cr sc now msg = Tunnel k)"
  using mutator_verdict [OF assms] by (simp split: prod.split)

text \<open>A concrete instance: toy primitives with the laws, reversal as the shuffle.\<close>

definition sample_crypto :: VeilCrypto where
  "sample_crypto =
    \<lparr>vc_public = (\<lambda>k. k), vc_dh = (\<lambda>a p. replicate 32 (sum_list a * sum_list p)),
     vc_hkdf = (\<lambda>salt ikm info. map (\<lambda>b. b + sum_list salt) ikm),
     vc_encrypt = (\<lambda>k n p a. p @ replicate 16 (sum_list k + sum_list a)),
     vc_decrypt = (\<lambda>k n c a. if drop (length c - 16) c = replicate 16 (sum_list k + sum_list a)
       then Some (take (length c - 16) c) else None),
     vc_hmac256 = (\<lambda>k m. replicate 32 (sum_list k + sum_list m)), vc_hmac512 = (\<lambda>k m. k @ k)\<rparr>"

definition sample_hello :: ClientHello where
  "sample_hello =
    \<lparr>ch_head = [1, 0, 0, 149, 3, 3], ch_random = replicate 32 7, ch_sid = replicate 32 1,
     ch_suites = [[0x13, 1], [0x13, 2]], ch_comp = [0],
     ch_exts = [(0, [1, 2]), (0x33, be16 36 @ be16 0x1D @ be16 32 @ replicate 32 5), (43, [2, 3, 4])]\<rparr>"

definition sample_server :: VeilServerConfig where
  "sample_server = \<lparr>vs_private = replicate 32 9, vs_public = replicate 32 9, vs_short_ids = [4, 6],
    vs_max_time_skew = Some 120\<rparr>"

lemma sample_crypto_ok: "crypto_ok sample_crypto"
  by (simp add: crypto_ok_def sample_crypto_def mult.commute)

lemma sample_hello_ok: "hello_ok sample_hello"
  by (simp add: hello_ok_def sample_hello_def ext_bytes_def be16_def)

lemma sample_share:
  "parse_x25519_in_key_share (be16 36 @ be16 0x1D @ be16 32 @ replicate 32 5) = Inr (vc_public sample_crypto (replicate 32 5))"
proof -
  have "slice_of (be16 36 @ be16 0x1D @ be16 32 @ replicate 32 5) 2 38 = be16 0x1D @ be16 32 @ replicate 32 5"
    by (rule slice_of_end) simp_all
  moreover have "u16_at (be16 36 @ be16 0x1D @ be16 32 @ replicate 32 5) 0 = 36"
    by (simp add: u16_at_be16_here)
  moreover have "u16_at (be16 0x1D @ be16 32 @ replicate 32 5) 0 = 0x1D"
    by (simp add: u16_at_be16_here)
  moreover have "u16_at (be16 0x1D @ be16 32 @ replicate 32 5) 2 = 32"
    by (subst u16_at_be16) simp_all
  moreover have "slice_of ((be16 0x1D @ be16 32) @ replicate 32 5) 4 36 = replicate 32 5"
    by (rule slice_of_end) simp_all
  then have "slice_of (be16 0x1D @ be16 32 @ replicate 32 5) 4 36 = replicate 32 5"
    by (simp only: append_assoc)
  ultimately show ?thesis
    by (simp add: parse_x25519_in_key_share_def x25519_loop.simps NAMED_GROUP_X25519_def Let_def sample_crypto_def
        numeral_2_eq_2 del: append_assoc)
qed



text \<open>
  C23.  The fingerprint shuffle is harmless: on every buffer it keeps the length and the
  fields in front of the session identifier; on a well-formed message without a pre-shared
  key it yields exactly the message with its cipher suites and extensions permuted, and with
  one it changes nothing.
\<close>

theorem fingerprint_permutes:
  assumes "shuffles_ok sh" and "randomizes f"
  shows "length (fingerprint_apply sh f buf) = length buf \<and>
    take 39 (fingerprint_apply sh f buf) = take 39 buf \<and>
    (hello_ok ch \<longrightarrow> (if 41 \<in> fst ` set (ch_exts ch) then fingerprint_apply sh f (hello_bytes ch) = hello_bytes ch
      else \<exists>suites exts. fingerprint_apply sh f (hello_bytes ch) =
          hello_bytes (ch\<lparr>ch_suites := suites, ch_exts := exts\<rparr>) \<and>
        mset suites = mset (ch_suites ch) \<and> mset exts = mset (ch_exts ch)))"
proof (intro conjI impI)
  show "length (fingerprint_apply sh f buf) = length buf" "take 39 (fingerprint_apply sh f buf) = take 39 buf"
    using randomize_any [OF _ assms(1), of buf] by (auto simp: fingerprint_apply_def split: sum.splits)
  assume "hello_ok ch"
  then show "if 41 \<in> fst ` set (ch_exts ch) then fingerprint_apply sh f (hello_bytes ch) = hello_bytes ch
      else \<exists>suites exts. fingerprint_apply sh f (hello_bytes ch) =
          hello_bytes (ch\<lparr>ch_suites := suites, ch_exts := exts\<rparr>) \<and>
        mset suites = mset (ch_suites ch) \<and> mset exts = mset (ch_exts ch)"
    using randomize_hello [OF _ assms(1), of ch] assms(2) reordered_msets [OF assms(1), of ch]
    by (auto simp: fingerprint_apply_def reordered_def intro!: exI [of _ "ch_suites (reordered sh ch)"]
        exI [of _ "ch_exts (reordered sh ch)"])
qed

theorem fingerprint_permutes_witness:
  "length (fingerprint_apply \<lparr>shuffle_suites = rev, shuffle_order = rev\<rparr> Randomized [1, 2, 3]) = 3 \<and>
   (\<exists>suites exts. fingerprint_apply \<lparr>shuffle_suites = rev, shuffle_order = rev\<rparr> Randomized (hello_bytes sample_hello) =
      hello_bytes (sample_hello\<lparr>ch_suites := suites, ch_exts := exts\<rparr>) \<and>
    mset suites = {#[0x13, 1], [0x13, 2]#})"
proof -
  have sh: "shuffles_ok \<lparr>shuffle_suites = rev, shuffle_order = rev\<rparr>" "randomizes Randomized"
    by (simp_all add: shuffles_ok_def randomizes_def)
  have "41 \<notin> fst ` set (ch_exts sample_hello)" "mset (ch_suites sample_hello) = {#[0x13, 1], [0x13, 2]#}"
    by (simp_all add: sample_hello_def)
  then show ?thesis
    using fingerprint_permutes [OF sh, of "[1, 2, 3]" sample_hello] sample_hello_ok by auto
qed

end
