(* ===== verification/Selfsteal.thy ===== *)
theory Selfsteal
  imports Veil_Handshake Async_Io
begin

text \<open>
  The front door of the server (\<^verbatim>\<open>selfsteal.rs\<close>, \<^verbatim>\<open>veil_server.rs\<close>): the first TLS record
  is read off the socket, the veil verdict taken on it, and the connection either handed to
  the TLS layer with the bytes read so far in front of it, or relayed to the decoy.  The
  dialling side checks the server's proof (\<^verbatim>\<open>outbound.rs\<close>, \<^verbatim>\<open>VeilDialer::connect\<close>).

  \<^verbatim>\<open>copy_bidirectional\<close> and the TLS handshakes belong to libraries and are parameters.
\<close>

declare concat_eq_Nil_conv [simp del] Nil_eq_concat_conv [simp del]

section \<open>selfsteal.rs\<close>

definition TLS_HANDSHAKE :: u8 where "TLS_HANDSHAKE = 0x16"
definition MAX_CLIENT_HELLO :: nat where "MAX_CLIENT_HELLO = 16 * 1024"

text \<open>The test at the head of the loop: what is decided on the bytes so far, if anything.\<close>

definition hello_in :: "bytes \<Rightarrow> bytes option" where
  "hello_in pfx =
    (if pfx \<noteq> [] \<and> hd pfx \<noteq> TLS_HANDSHAKE then Some []
     else if length pfx \<ge> 5 then
       let record_len = u16_at pfx 3 in
       if record_len = 0 \<or> record_len > MAX_CLIENT_HELLO then Some []
       else if length pfx \<ge> 5 + record_len then Some (slice_of pfx 5 (5 + record_len))
       else None
     else None)"

text \<open>The value is the payload and the bytes read.\<close>

function read_client_hello :: "bytes \<Rightarrow> ('a TcpStream_scheme, ErrorKind, bytes \<times> bytes) act" where
  "read_client_hello pfx s =
    (case hello_in pfx of
       Some hello \<Rightarrow> (Inr (hello, pfx), s)
     | None \<Rightarrow>
         (case read_some 2048 s of
            (Inl e, s') \<Rightarrow> (Inl e, s')
          | (Inr [], s') \<Rightarrow> (Inr (drop 5 pfx, pfx), s')
          | (Inr (b # bs), s') \<Rightarrow>
              let pfx' = pfx @ b # bs in
              if length pfx' > MAX_CLIENT_HELLO + 5 then (Inr ([], pfx'), s')
              else read_client_hello pfx' s'))"
  by pat_completeness auto
termination
  by (relation "measure (\<lambda>(p, s). length (concat (rx s)))") (auto dest: read_some_shorter [OF sym])

declare read_client_hello.simps [simp del]

datatype Triage = TriageTunnel TcpStream bytes bytes | TriageForwarded TcpStream TcpStream

text \<open>
  \<open>copy\<close> is \<^verbatim>\<open>copy_bidirectional\<close>, its outcome ignored; \<open>dest\<close> is what connecting to the
  decoy gives.  The two streams after the relay are kept in the result.
\<close>

definition relay_to_dest ::
    "(TcpStream \<Rightarrow> TcpStream \<Rightarrow> TcpStream \<times> TcpStream) \<Rightarrow> TcpStream \<Rightarrow> bytes \<Rightarrow> ErrorKind + TcpStream
      \<Rightarrow> ErrorKind + TcpStream \<times> TcpStream" where
  "relay_to_dest copy client pfx dest =
    rbind dest (\<lambda>upstream.
    case write_all pfx upstream of
      (Inl e, _) \<Rightarrow> Inl e
    | (Inr _, upstream) \<Rightarrow> Inr (copy client upstream))"

definition triage ::
    "VeilCrypto \<Rightarrow> (TcpStream \<Rightarrow> TcpStream \<Rightarrow> TcpStream \<times> TcpStream) \<Rightarrow> VeilServerConfig \<Rightarrow> u32
      \<Rightarrow> ErrorKind + TcpStream \<Rightarrow> TcpStream \<Rightarrow> ErrorKind + Triage" where
  "triage cr copy veil now dest client =
    (case read_client_hello [] client of
       (Inl e, _) \<Rightarrow> Inl e
     | (Inr (hello, pfx), client) \<Rightarrow>
         (case server_verdict cr veil now hello of
            Tunnel auth_key \<Rightarrow> Inr (TriageTunnel client pfx auth_key)
          | Forward \<Rightarrow>
              rbind (relay_to_dest copy client pfx dest) (\<lambda>(client, upstream).
              Inr (TriageForwarded client upstream))))"

section \<open>veil_server.rs\<close>

record PrefixedStream =
  ps_prefix :: bytes
  ps_pos :: nat
  ps_inner :: TcpStream

definition prefixed_stream_new :: "bytes \<Rightarrow> TcpStream \<Rightarrow> PrefixedStream" where
  "prefixed_stream_new pfx inner = \<lparr>ps_prefix = pfx, ps_pos = 0, ps_inner = inner\<rparr>"

definition ps_poll_read :: "nat \<Rightarrow> (PrefixedStream, ErrorKind, bytes) act" where
  "ps_poll_read room s =
    (if ps_pos s < length (ps_prefix s) then
       let remaining = drop (ps_pos s) (ps_prefix s); n = min (length remaining) room
       in (Inr (take n remaining), s\<lparr>ps_pos := ps_pos s + n\<rparr>)
     else case read_some room (ps_inner s) of (r, i) \<Rightarrow> (r, s\<lparr>ps_inner := i\<rparr>))"

definition ps_poll_write :: "bytes \<Rightarrow> (PrefixedStream, ErrorKind, unit) act" where
  "ps_poll_write bs s = (case write_all bs (ps_inner s) of (r, i) \<Rightarrow> (r, s\<lparr>ps_inner := i\<rparr>))"

text \<open>
  \<open>accept\<close> is the TLS handshake on the replayed stream; the plaintext side of the session
  it yields is a stream too.
\<close>

definition veil_server_handle ::
    "VeilCrypto \<Rightarrow> (TcpStream \<Rightarrow> TcpStream \<Rightarrow> TcpStream \<times> TcpStream) \<Rightarrow> VeilServerConfig \<Rightarrow> u32
      \<Rightarrow> (PrefixedStream \<Rightarrow> ErrorKind + TcpStream) \<Rightarrow> ErrorKind + TcpStream \<Rightarrow> TcpStream
      \<Rightarrow> ErrorKind + TcpStream option" where
  "veil_server_handle cr copy veil now accept dest tcp =
    rbind (triage cr copy veil now dest tcp) (\<lambda>t.
    case t of
      TriageForwarded _ _ \<Rightarrow> Inr None
    | TriageTunnel client pfx auth_key \<Rightarrow>
        rbind (accept (prefixed_stream_new pfx client)) (\<lambda>tls.
        case write_all (server_proof cr auth_key) tls of
          (Inl e, _) \<Rightarrow> Inl e
        | (Inr _, tls) \<Rightarrow> Inr (Some tls)))"

section \<open>The dialling side\<close>

text \<open>After the handshake: the key the mutator left, the proof read and compared.\<close>

definition check_server_proof :: "VeilCrypto \<Rightarrow> bytes option \<Rightarrow> (TcpStream, ErrorKind, unit) act" where
  "check_server_proof cr sink =
    abind (alift (ok_or sink OtherKind)) (\<lambda>auth_key.
    abind (read_exact PROOF_LEN) (\<lambda>proof.
    if proof \<noteq> server_proof cr auth_key then afail InvalidData else aret ()))"

section \<open>Lemmas\<close>

lemma read_client_hello_keeps:
  "read_client_hello pfx s = (Inr (hello, pfx'), s') \<Longrightarrow>
   pfx' @ concat (rx s') = pfx @ concat (rx s) \<and> tx s' = tx s \<and> tx_room s' = tx_room s \<and> rx_end s' = rx_end s"
proof (induction pfx s rule: read_client_hello.induct)
  case (1 pfx s)
  show ?case
  proof (cases "hello_in pfx")
    case None
    obtain r s1 where r: "read_some 2048 s = (r, s1)"
      by fastforce
    show ?thesis
    proof (cases r)
      case (Inr bs)
      note rd = read_some_Inr [OF r [unfolded Inr]]
      show ?thesis
      proof (cases bs)
        case Nil
        then show ?thesis
          using "1.prems" None r Inr rd by (simp add: read_client_hello.simps [of pfx s])
      next
        case (Cons b c)
        show ?thesis
        proof (cases "length (pfx @ b # c) > MAX_CLIENT_HELLO + 5")
          case True
          then show ?thesis
            using "1.prems" None r Inr Cons rd by (simp add: read_client_hello.simps [of pfx s])
        next
          case False
          then show ?thesis
            using "1.prems" "1.IH" [OF None r [symmetric] Inr Cons refl False] None r Inr Cons rd
            by (simp add: read_client_hello.simps [of pfx s])
        qed
      qed
    qed (use "1.prems" None r in \<open>simp add: read_client_hello.simps [of pfx s]\<close>)
  qed (use "1.prems" in \<open>simp add: read_client_hello.simps [of pfx s]\<close>)
qed

text \<open>
  A record that is short enough is found however it arrives, whatever follows it.
\<close>

definition hello_record :: "bytes \<Rightarrow> bytes" where
  "hello_record msg = [0x16, 3, 1] @ be16 (of_nat (length msg)) @ msg"

lemma hello_in_record:
  assumes "0 < length msg" and "length msg \<le> MAX_CLIENT_HELLO" and "pfx @ m = hello_record msg @ rest"
  shows "hello_in pfx = (if length pfx < 5 + length msg then None else Some msg)"
proof -
  let ?r = "hello_record msg"
  have len: "length ?r = 5 + length msg" "length msg < 65536"
    using assms(2) by (simp_all add: hello_record_def MAX_CLIENT_HELLO_def)
  have nth: "pfx ! i = ?r ! i" if "i < length pfx" "i < 5 + length msg" for i
    using that assms(3) len by (metis nth_append)
  have hd: "pfx \<noteq> [] \<Longrightarrow> hd pfx = TLS_HANDSHAKE"
    using nth [of 0] by (simp add: hd_conv_nth hello_record_def TLS_HANDSHAKE_def)
  have "u16_at ([0x16, 3, 1] @ be16 (of_nat (length msg)) @ msg) 3 = length msg"
    using len by (subst u16_at_be16) (simp_all add: unat_of_nat_u16)
  then have u: "u16_at pfx 3 = length msg" if "5 \<le> length pfx"
    using that nth [of 3] nth [of 4] assms(1) by (simp add: u16_at_def hello_record_def)
  have s: "slice_of pfx 5 (5 + length msg) = msg" if "5 + length msg \<le> length pfx"
  proof -
    have "take (5 + length msg) (pfx @ m) = ?r"
      using len by (simp add: assms(3))
    then have "take (5 + length msg) pfx = ?r"
      using that by simp
    then have "drop 5 (take (5 + length msg) pfx) = msg"
      by (simp add: hello_record_def)
    then show ?thesis
      by (simp add: slice_of_def drop_take)
  qed
  show ?thesis
    using hd u s assms(1,2) by (auto simp: hello_in_def Let_def)
qed

lemma read_client_hello_record:
  assumes "0 < length msg" and "length msg + 2048 \<le> MAX_CLIENT_HELLO"
  shows "\<lbrakk>pfx @ concat (rx s) = hello_record msg @ rest; rx_end s = None; length pfx \<le> MAX_CLIENT_HELLO + 5\<rbrakk> \<Longrightarrow>
    \<exists>pfx' s'. read_client_hello pfx s = (Inr (msg, pfx'), s')"
proof (induction "length (concat (rx s))" arbitrary: pfx s rule: less_induct)
  case less
  have small: "length msg \<le> MAX_CLIENT_HELLO"
    using assms(2) by simp
  note h = hello_in_record [OF assms(1) small less.prems(1)]
  show ?case
  proof (cases "length pfx < 5 + length msg")
    case False
    then show ?thesis
      using h by (simp add: read_client_hello.simps)
  next
    case True
    obtain bs s1 where r: "read_some 2048 s = (Inr bs, s1)" "rx_end s1 = None"
      using read_some_eof [OF less.prems(2)] by blast
    note rd = read_some_Inr [OF r(1)]
    have "length (pfx @ concat (rx s)) \<ge> 5 + length msg"
      using less.prems(1) by (simp add: hello_record_def)
    then obtain b c where bs: "bs = b # c"
      using True rd(3) by (cases bs) auto
    have "length (pfx @ bs) \<le> MAX_CLIENT_HELLO + 5"
      using True rd(2) assms(2) by simp
    moreover from this have "\<exists>pfx' s'. read_client_hello (pfx @ bs) s1 = (Inr (msg, pfx'), s')"
      using less.prems rd(1) bs r(2) by (intro less.hyps) simp_all
    ultimately show ?thesis
      using h True r(1) bs by (simp add: read_client_hello.simps [of pfx s])
  qed
qed

text \<open>Reading through the prefix is reading a stream with the prefix in front of it.\<close>

definition ps_stream :: "PrefixedStream \<Rightarrow> bytes" where
  "ps_stream s = drop (ps_pos s) (ps_prefix s) @ concat (rx (ps_inner s))"

lemma ps_poll_read_stream:
  assumes "ps_poll_read room s = (Inr bs, s')" and "0 < room"
  shows "ps_stream s = bs @ ps_stream s' \<and> (bs = [] \<longrightarrow> ps_stream s = []) \<and> length bs \<le> room"
proof (cases "ps_pos s < length (ps_prefix s)")
  case True
  let ?n = "min (length (ps_prefix s) - ps_pos s) room"
  have b: "bs = take ?n (drop (ps_pos s) (ps_prefix s))" "s' = s\<lparr>ps_pos := ps_pos s + ?n\<rparr>"
    using assms(1) True by (simp_all add: ps_poll_read_def Let_def)
  have "drop (ps_pos s) (ps_prefix s) = bs @ drop (ps_pos s + ?n) (ps_prefix s)"
    unfolding b(1) by (metis append_take_drop_id drop_drop add.commute)
  moreover have "bs \<noteq> []" "length bs \<le> room"
    using True assms(2) by (simp_all add: b(1))
  ultimately show ?thesis
    by (simp add: ps_stream_def b(2))
next
  case False
  obtain r i where r: "read_some room (ps_inner s) = (r, i)"
    by fastforce
  then have b: "read_some room (ps_inner s) = (Inr bs, i)" "s' = s\<lparr>ps_inner := i\<rparr>"
    using assms(1) False by (simp_all add: ps_poll_read_def)
  from read_some_Inr(1-3) [OF b(1)] show ?thesis
    using False assms(2) by (simp add: ps_stream_def b(2))
qed

section \<open>Properties\<close>

text \<open>What is relied on from \<^verbatim>\<open>copy_bidirectional\<close> on streams that end normally.\<close>

definition copy_ok :: "(TcpStream \<Rightarrow> TcpStream \<Rightarrow> TcpStream \<times> TcpStream) \<Rightarrow> bool" where
  "copy_ok copy \<longleftrightarrow>
    (\<forall>a b. rx_end a = None \<and> rx_end b = None \<and> tx_room a = None \<and> tx_room b = None \<longrightarrow>
      (case copy a b of (a', b') \<Rightarrow>
        tx a' = tx a @ concat (rx b) \<and> tx b' = tx b @ concat (rx a)))"

lemma relay_transparent:
  assumes "copy_ok copy" and "rx_end client = None" and "tx_room client = None"
    and "dest = Inr up" and "rx_end up = None" and "tx_room up = None"
    and "relay_to_dest copy client pfx dest = Inr (client', up')"
  shows "tx client' = tx client @ concat (rx up)" "tx up' = tx up @ pfx @ concat (rx client)"
proof -
  let ?u = "up\<lparr>tx := tx up @ pfx\<rparr>"
  have c: "copy client ?u = (client', up')"
    using assms(4,6,7) by (simp add: relay_to_dest_def write_all_def)
  have "case copy client ?u of (a, b) \<Rightarrow> tx a = tx client @ concat (rx ?u) \<and> tx b = tx ?u @ concat (rx client)"
    using assms(1-3,5,6) unfolding copy_ok_def by (elim allE [of _ client] allE [of _ ?u]) simp
  then show "tx client' = tx client @ concat (rx up)" "tx up' = tx up @ pfx @ concat (rx client)"
    by (simp_all add: c)
qed

text \<open>
  C21.  The front door admits its own clients and is invisible to everyone else.  Whatever a
  caller sends and however it is cut into segments: if it is forwarded, the decoy receives
  exactly the bytes the caller sent, from the first, and the caller receives exactly the
  bytes of the decoy and nothing of the server; if it is admitted, not a byte was written to
  it, and what was read is kept in front of the rest.
\<close>

theorem front_door_transparent:
  assumes "copy_ok copy" and "rx_end client = None" and "tx_room client = None" and "tx client = []"
    and "rx_end up = None" and "tx_room up = None" and "tx up = []"
    and "triage cr copy veil now (Inr up) client = Inr t"
  shows "case t of
      TriageForwarded client' up' \<Rightarrow> tx up' = concat (rx client) \<and> tx client' = concat (rx up)
    | TriageTunnel client' pfx k \<Rightarrow> pfx @ concat (rx client') = concat (rx client) \<and> tx client' = []"
proof -
  obtain hello pfx c1 where r: "read_client_hello [] client = (Inr (hello, pfx), c1)"
    using assms(8) by (auto simp: triage_def split: prod.splits sum.splits)
  note k = read_client_hello_keeps [OF r]
  show ?thesis
  proof (cases "server_verdict cr veil now hello")
    case (Tunnel key)
    then show ?thesis
      using assms(4,8) r k by (auto simp: triage_def)
  next
    case Forward
    then obtain c2 u2 where f: "relay_to_dest copy c1 pfx (Inr up) = Inr (c2, u2)" "t = TriageForwarded c2 u2"
      using assms(8) r by (auto simp: triage_def rbind_eq_Inr_iff)
    have "rx_end c1 = None" "tx_room c1 = None"
      using k assms(2,3) by simp_all
    from relay_transparent [OF assms(1) this refl assms(5,6) f(1)] show ?thesis
      using f(2) k assms(4,7) by simp
  qed
qed

definition sample_copy :: "TcpStream \<Rightarrow> TcpStream \<Rightarrow> TcpStream \<times> TcpStream" where
  "sample_copy a b =
    (a\<lparr>tx := tx a @ concat (rx b), rx := []\<rparr>, b\<lparr>tx := tx b @ concat (rx a), rx := []\<rparr>)"

theorem front_door_transparent_witness:
  "\<exists>c u. triage sample_crypto sample_copy sample_server 1000
      (Inr \<lparr>rx = [[72, 73]], rx_end = None, tx = [], tx_room = None\<rparr>)
      \<lparr>rx = [[71], [69, 84]], rx_end = None, tx = [], tx_room = None\<rparr> = Inr (TriageForwarded c u) \<and>
    tx u = [71, 69, 84] \<and> tx c = [72, 73]"
proof -
  let ?up = "\<lparr>rx = [[72, 73]], rx_end = None, tx = [], tx_room = None\<rparr> :: TcpStream"
  let ?c = "\<lparr>rx = [[71], [69, 84]], rx_end = None, tx = [], tx_room = None\<rparr> :: TcpStream"
  have "read_client_hello [] ?c = (Inr ([], [71]), ?c\<lparr>rx := [[], [69, 84]]\<rparr>)"
    by (simp add: read_client_hello.simps [of "[]"] read_client_hello.simps [of "[71]"] hello_in_def TLS_HANDSHAKE_def
        read_some_def MAX_CLIENT_HELLO_def)
  then obtain c u where t: "triage sample_crypto sample_copy sample_server 1000 (Inr ?up) ?c = Inr (TriageForwarded c u)"
    by (auto simp: triage_def server_verdict_def decide_def client_hello_parse_def SESSION_ID_OFFSET_def
        relay_to_dest_def write_all_def sample_copy_def)
  have "copy_ok sample_copy"
    by (simp add: copy_ok_def sample_copy_def)
  from front_door_transparent [OF this _ _ _ _ _ _ t] t show ?thesis
    by simp
qed



end
