(* ===== verification/Share_Links.thy ===== *)
theory Share_Links
  imports Std_Text
begin

text \<open>
  Client configuration for import: the generators of \<^verbatim>\<open>donut-config/src/subgen.rs\<close>
  (share links, Xray JSON, the Clash profile), the subscription endpoint that serves them
  (\<^verbatim>\<open>donut-server/src/subscription.rs\<close>), and the client's link parser
  (\<^verbatim>\<open>donut-client/src/link.rs\<close>).

  JSON values are trees; their text, base64 and UUID parsing belong to libraries and are
  parameters.  A string slice that does not fall on a character boundary panics, which is
  an outcome of its own in the link parser.
\<close>

section \<open>subgen.rs\<close>

record XhttpParams =
  xp_uuid :: rstr
  xp_server_addr :: rstr
  xp_sni :: rstr
  xp_host :: rstr
  xp_path :: rstr
  xp_mode :: rstr
  xp_fp :: rstr
  xp_socks :: rstr
  xp_label :: rstr

datatype RoutingProfile = RuSplit | ProxyAll

definition profile_parse :: "rstr \<Rightarrow> RoutingProfile" where
  "profile_parse s =
    (if s \<in> {str ''all'', str ''proxy-all'', str ''proxyall''} then ProxyAll else RuSplit)"

definition split_host_port_or :: "rstr \<Rightarrow> u16 \<Rightarrow> rstr \<times> u16" where
  "split_host_port_or addr default_port =
    (case rsplit_once 58 addr of
       Some (h, p) \<Rightarrow> (h, case parse_u16 p of Some n \<Rightarrow> n | None \<Rightarrow> default_port)
     | None \<Rightarrow> (addr, default_port))"

definition unreserved :: "u8 \<Rightarrow> bool" where
  "unreserved b \<longleftrightarrow> 65 \<le> b \<and> b \<le> 90 \<or> 97 \<le> b \<and> b \<le> 122 \<or> 48 \<le> b \<and> b \<le> 57 \<or> b \<in> {45, 46, 95, 126}"

definition upper_hex :: "nat \<Rightarrow> u8" where
  "upper_hex d = of_nat (if d < 10 then 48 + d else 55 + d)"

definition pct :: "rstr \<Rightarrow> rstr" where
  "pct s = concat (map (\<lambda>b. if unreserved b then [b]
      else [37, upper_hex (unat b div 16), upper_hex (unat b mod 16)]) s)"

fun join :: "u8 \<Rightarrow> rstr list \<Rightarrow> rstr" where
  "join c [] = []"
| "join c [s] = s"
| "join c (s # ss) = s @ c # join c ss"

definition link_params :: "XhttpParams \<Rightarrow> (rstr \<times> rstr) list" where
  "link_params p =
    [(str ''type'', str ''xhttp''), (str ''security'', str ''tls''), (str ''encryption'', str ''none''),
     (str ''sni'', xp_sni p), (str ''fp'', xp_fp p), (str ''alpn'', str ''h2''), (str ''host'', xp_host p),
     (str ''path'', xp_path p), (str ''mode'', xp_mode p)]"

definition vless_xhttp_link :: "XhttpParams \<Rightarrow> rstr" where
  "vless_xhttp_link p =
    str ''vless://'' @ xp_uuid p @ [64] @ xp_server_addr p @ [63] @
    join 38 (map (\<lambda>(k, v). k @ [61] @ pct v) (link_params p)) @ [35] @ pct (xp_label p)"

datatype Json = JStr rstr | JInt int | JBool bool | JArr "Json list" | JObj "(rstr \<times> Json) list"

abbreviation jstr :: "string \<Rightarrow> Json" where "jstr s \<equiv> JStr (str s)"

definition xray_proxy_outbound :: "XhttpParams \<Rightarrow> Json" where
  "xray_proxy_outbound p =
    (let (saddr, sport) = split_host_port_or (xp_server_addr p) 443 in
     JObj
       [(str ''tag'', jstr ''proxy''), (str ''protocol'', jstr ''vless''),
        (str ''settings'', JObj [(str ''vnext'', JArr [JObj
          [(str ''address'', JStr saddr), (str ''port'', JInt (uint sport)),
           (str ''users'', JArr [JObj [(str ''id'', JStr (xp_uuid p)), (str ''encryption'', jstr ''none'')]])]])]),
        (str ''streamSettings'', JObj
          [(str ''network'', jstr ''xhttp''), (str ''security'', jstr ''tls''),
           (str ''tlsSettings'', JObj [(str ''serverName'', JStr (xp_sni p)), (str ''alpn'', JArr [jstr ''h2'']),
             (str ''fingerprint'', JStr (xp_fp p))]),
           (str ''xhttpSettings'', JObj
             [(str ''host'', JStr (xp_host p)), (str ''path'', JStr (xp_path p)), (str ''mode'', JStr (xp_mode p)),
              (str ''xmux'', JObj
                [(str ''maxConcurrency'', jstr ''16-32''), (str ''maxConnections'', JInt 0),
                 (str ''cMaxReuseTimes'', JInt 0), (str ''hMaxRequestTimes'', jstr ''600-900''),
                 (str ''hMaxReusableSecs'', jstr ''1800-3000''), (str ''hKeepAlivePeriod'', JInt 0)])])]),
        (str ''mux'', JObj [(str ''enabled'', JBool True), (str ''concurrency'', JInt (- 1)),
          (str ''xudpConcurrency'', JInt 16), (str ''xudpProxyUDP443'', jstr ''reject'')])])"

definition field_rule :: "string \<Rightarrow> Json \<Rightarrow> string \<Rightarrow> Json" where
  "field_rule key v tag = JObj [(str ''type'', jstr ''field''), (str key, v), (str ''outboundTag'', jstr tag)]"

definition xray_routing :: "RoutingProfile \<Rightarrow> Json" where
  "xray_routing profile =
    JObj [(str ''domainStrategy'', jstr ''IPIfNonMatch''),
      (str ''rules'', JArr
        ([field_rule ''ip'' (JArr [jstr ''geoip:private'']) ''direct'',
          field_rule ''domain'' (JArr [jstr ''geosite:category-ads-all'']) ''block''] @
         (if profile = RuSplit
          then [field_rule ''domain'' (JArr [jstr ''geosite:category-ru'', JStr (str ''regexp:.+'' @ [92] @ str ''.ru$'')]) ''direct'',
                field_rule ''ip'' (JArr [jstr ''geoip:ru'']) ''direct'']
          else []) @
         [field_rule ''port'' (jstr ''0-65535'') ''proxy'']))]"

definition xray_json_subscription :: "XhttpParams \<Rightarrow> RoutingProfile \<Rightarrow> Json" where
  "xray_json_subscription p profile =
    JArr [JObj
      [(str ''remarks'', JStr (xp_label p)),
       (str ''dns'', JObj
         [(str ''queryStrategy'', jstr ''UseIPv4''),
          (str ''servers'', JArr
            [JObj [(str ''address'', jstr ''77.88.8.8''), (str ''domains'', JArr [jstr ''geosite:category-ru'']),
               (str ''expectIPs'', JArr [jstr ''geoip:ru''])],
             jstr ''https://cloudflare-dns.com/dns-query''])]),
       (str ''inbounds'', JArr
         [JObj [(str ''tag'', jstr ''socks-in''), (str ''listen'', jstr ''127.0.0.1''), (str ''port'', JInt 10808),
            (str ''protocol'', jstr ''socks''), (str ''settings'', JObj [(str ''udp'', JBool True)])],
          JObj [(str ''tag'', jstr ''http-in''), (str ''listen'', jstr ''127.0.0.1''), (str ''port'', JInt 10809),
            (str ''protocol'', jstr ''http'')]]),
       (str ''outbounds'', JArr
         [xray_proxy_outbound p, JObj [(str ''tag'', jstr ''direct''), (str ''protocol'', jstr ''freedom'')],
          JObj [(str ''tag'', jstr ''block''), (str ''protocol'', jstr ''blackhole'')]]),
       (str ''routing'', xray_routing profile),
       (str ''meta'', JObj [(str ''serverDescription'', jstr ''donut'')])]]"

definition xray_client_json :: "XhttpParams \<Rightarrow> RoutingProfile \<Rightarrow> Json" where
  "xray_client_json p profile =
    (let (laddr, lport) = split_host_port_or (xp_socks p) 1080 in
     JObj
       [(str ''log'', JObj [(str ''loglevel'', jstr ''warning'')]),
        (str ''dns'', JObj [(str ''servers'', JArr [jstr ''https://1.1.1.1/dns-query'', jstr ''1.1.1.1'', jstr ''localhost''])]),
        (str ''inbounds'', JArr [JObj
          [(str ''tag'', jstr ''socks-in''), (str ''listen'', JStr laddr), (str ''port'', JInt (uint lport)),
           (str ''protocol'', jstr ''socks''), (str ''settings'', JObj [(str ''udp'', JBool True)]),
           (str ''sniffing'', JObj [(str ''enabled'', JBool True),
             (str ''destOverride'', JArr [jstr ''http'', jstr ''tls'', jstr ''quic''])])]]),
        (str ''outbounds'', JArr
          [xray_proxy_outbound p,
           JObj [(str ''tag'', jstr ''direct''), (str ''protocol'', jstr ''freedom''),
             (str ''settings'', JObj [(str ''domainStrategy'', jstr ''UseIP'')])],
           JObj [(str ''tag'', jstr ''block''), (str ''protocol'', jstr ''blackhole''),
             (str ''settings'', JObj [(str ''response'', JObj [(str ''type'', jstr ''http'')])])]]),
        (str ''routing'', xray_routing profile)])"

definition happ_routing_profile :: "RoutingProfile \<Rightarrow> Json" where
  "happ_routing_profile profile =
    (let (global, direct_sites, direct_ip) =
       (case profile of
          RuSplit \<Rightarrow> (jstr ''false'', JArr [jstr ''geosite:category-ru'', jstr ''geosite:private''],
            JArr [jstr ''geoip:ru'', jstr ''geoip:private''])
        | ProxyAll \<Rightarrow> (jstr ''true'', JArr [jstr ''geosite:private''], JArr [jstr ''geoip:private'']))
     in JObj
       [(str ''Name'', jstr ''donut RU-split''), (str ''GlobalProxy'', global), (str ''RemoteDNSType'', jstr ''DoH''),
        (str ''RemoteDNSDomain'', jstr ''https://cloudflare-dns.com/dns-query''), (str ''RemoteDNSIP'', jstr ''1.1.1.1''),
        (str ''DomesticDNSType'', jstr ''DoU''), (str ''DomesticDNSDomain'', JStr []),
        (str ''DomesticDNSIP'', jstr ''77.88.8.8''),
        (str ''Geoipurl'', jstr ''https://github.com/MetaCubeX/meta-rules-dat/releases/download/latest/geoip.dat''),
        (str ''Geositeurl'', jstr ''https://github.com/MetaCubeX/meta-rules-dat/releases/download/latest/geosite.dat''),
        (str ''LastUpdated'', JStr []), (str ''DnsHosts'', JObj []), (str ''DirectSites'', direct_sites),
        (str ''DirectIp'', direct_ip), (str ''ProxySites'', JArr []), (str ''ProxyIp'', JArr []),
        (str ''BlockSites'', JArr [jstr ''geosite:category-ads-all'']), (str ''BlockIp'', JArr []),
        (str ''DomainStrategy'', jstr ''IPIfNonMatch''), (str ''FakeDNS'', jstr ''false'')])"

text \<open>The libraries' text of a JSON value, compact and indented, and base64.\<close>

record Encoders =
  enc_json :: "Json \<Rightarrow> rstr"
  enc_json_pretty :: "Json \<Rightarrow> rstr"
  enc_base64 :: "bytes \<Rightarrow> rstr"

definition happ_routing_deeplink :: "Encoders \<Rightarrow> RoutingProfile \<Rightarrow> rstr" where
  "happ_routing_deeplink e profile =
    str ''happ://routing/onadd/'' @ enc_base64 e (enc_json e (happ_routing_profile profile))"

definition happ_subscription_body :: "Encoders \<Rightarrow> XhttpParams \<Rightarrow> RoutingProfile \<Rightarrow> rstr" where
  "happ_subscription_body e p profile =
    vless_xhttp_link p @ [10] @ happ_routing_deeplink e profile @ [10]"

definition quoted :: "rstr \<Rightarrow> rstr" where "quoted s = [34] @ s @ [34]"

definition clash_yaml :: "XhttpParams \<Rightarrow> RoutingProfile \<Rightarrow> rstr" where
  "clash_yaml p profile =
    (let (_, lport) = split_host_port_or (xp_socks p) 1080;
         (saddr, sport) = split_host_port_or (xp_server_addr p) 443;
         name = xp_label p
     in concat (map (\<lambda>l. l @ [10])
       ([str ''# Clash-Meta (mihomo) profile '' @ [0xE2, 0x80, 0x94] @ str '' generated by donut.'',
         str ''# Requires a mihomo build with xHTTP support.'',
         str ''mixed-port: '' @ show_nat (unat lport), str ''mode: rule'', str ''proxies:'',
         str ''  - name: '' @ quoted name, str ''    type: vless'', str ''    server: '' @ saddr,
         str ''    port: '' @ show_nat (unat sport), str ''    uuid: '' @ xp_uuid p, str ''    udp: true'',
         str ''    tls: true'', str ''    servername: '' @ xp_sni p, str ''    client-fingerprint: '' @ xp_fp p,
         str ''    alpn: [h2]'', str ''    skip-cert-verify: false'', str ''    network: xhttp'', str ''    xhttp-opts:'',
         str ''      mode: '' @ xp_mode p, str ''      host: '' @ xp_host p, str ''      path: '' @ xp_path p,
         str ''      reuse-settings:'', str ''        max-concurrency: '' @ quoted (str ''16-32''),
         str ''        h-max-request-times: '' @ quoted (str ''600-900''),
         str ''        h-max-reusable-secs: '' @ quoted (str ''1800-3000''), str ''proxy-groups:'',
         str ''  - { name: PROXY, type: select, proxies: ['' @ quoted name @ str '', DIRECT] }'', str ''rules:'',
         str ''  - GEOSITE,category-ads-all,REJECT''] @
        (if profile = RuSplit then [str ''  - GEOSITE,category-ru,DIRECT'', str ''  - GEOIP,RU,DIRECT''] else []) @
        [str ''  - GEOIP,private,DIRECT,no-resolve'', str ''  - MATCH,PROXY''])))"

section \<open>subscription.rs\<close>

record SubServeConfig =
  sv_public_address :: rstr
  sv_server_name :: rstr
  sv_host :: rstr
  sv_path :: rstr
  sv_mode :: rstr
  sv_fp :: rstr
  sv_socks :: rstr

definition crlf :: rstr where "crlf = [13, 10]"

definition http_response :: "nat \<Rightarrow> rstr \<Rightarrow> rstr \<Rightarrow> rstr" where
  "http_response code content_type body =
    (let reason = (if code = 200 then str ''OK'' else if code = 400 then str ''Bad Request''
                   else if code = 404 then str ''Not Found'' else str ''OK'')
     in str ''HTTP/1.1 '' @ show_nat code @ [32] @ reason @ crlf @
        str ''Content-Type: '' @ content_type @ crlf @
        str ''Content-Length: '' @ show_nat (length body) @ crlf @
        str ''Connection: close'' @ crlf @ crlf @ body)"

definition sub_query_value :: "rstr \<Rightarrow> rstr \<Rightarrow> rstr option" where
  "sub_query_value query key =
    (case List.map_filter (\<lambda>kv. case split_once 61 kv of Some (k, v) \<Rightarrow> if k = key then Some v else None | None \<Rightarrow> None)
            (split_char 38 query) of
       v # _ \<Rightarrow> Some v
     | [] \<Rightarrow> None)"

definition host_of :: "rstr \<Rightarrow> rstr" where
  "host_of addr = (case rsplit_once 58 addr of Some (h, _) \<Rightarrow> h | None \<Rightarrow> addr)"

definition trim_end_slashes :: "rstr \<Rightarrow> rstr" where
  "trim_end_slashes s = rev (dropWhile (\<lambda>c. c = 47) (rev s))"

definition not_found :: rstr where
  "not_found = http_response 404 (str ''text/plain'') (str ''not found'')"

text \<open>The path and query of a target, and the identifier its path names, if it is one of ours.\<close>

definition sub_target :: "rstr \<Rightarrow> rstr \<times> rstr" where
  "sub_target target = (case split_once 63 target of Some (p, q) \<Rightarrow> (p, q) | None \<Rightarrow> (target, []))"

definition sub_uuid :: "rstr \<Rightarrow> rstr option" where
  "sub_uuid target = map_option trim_end_slashes (strip_prefix (str ''/sub/'') (fst (sub_target target)))"

text \<open>\<open>parse_uuid\<close> is the UUID parser; the handle holds the current set of users.\<close>

definition sub_handle ::
    "Encoders \<Rightarrow> (rstr \<Rightarrow> UserId option) \<Rightarrow> rstr \<Rightarrow> SubServeConfig \<Rightarrow> AuthHandle \<Rightarrow> rstr" where
  "sub_handle e parse_uuid target cfg auth =
    (let query = snd (sub_target target) in
     case sub_uuid target of
       None \<Rightarrow> not_found
     | Some uuid \<Rightarrow>
         let authorized = (case parse_uuid uuid of Some i \<Rightarrow> handle_is_authorized auth i | None \<Rightarrow> False) in
         if uuid = [] \<or> \<not> authorized then not_found
         else
           let format = (case sub_query_value query (str ''format'') of Some f \<Rightarrow> f | None \<Rightarrow> str ''xray'');
               profile = profile_parse (case sub_query_value query (str ''profile'') of Some f \<Rightarrow> f | None \<Rightarrow> str ''ru'');
               p = \<lparr>xp_uuid = uuid, xp_server_addr = sv_public_address cfg, xp_sni = sv_server_name cfg,
                    xp_host = sv_host cfg, xp_path = sv_path cfg, xp_mode = sv_mode cfg, xp_fp = sv_fp cfg,
                    xp_socks = sv_socks cfg, xp_label = str ''donut-'' @ host_of (sv_public_address cfg)\<rparr>
           in if format \<in> {str ''clash'', str ''yaml''} then
                http_response 200 (str ''text/yaml; charset=utf-8'') (clash_yaml p profile)
              else if format \<in> {str ''links'', str ''link'', str ''sub''} then
                http_response 200 (str ''text/plain; charset=utf-8'') (enc_base64 e (vless_xhttp_link p @ [10]))
              else if format \<in> {str ''json'', str ''xray-json'', str ''sub-json''} then
                http_response 200 (str ''application/json; charset=utf-8'')
                  (enc_json_pretty e (xray_json_subscription p profile))
              else if format = str ''happ'' then
                http_response 200 (str ''text/plain; charset=utf-8'') (enc_base64 e (happ_subscription_body e p profile))
              else http_response 200 (str ''application/json; charset=utf-8'') (enc_json_pretty e (xray_client_json p profile)))"

section \<open>link.rs\<close>

record VlessLink =
  vl_uuid :: rstr
  vl_host :: rstr
  vl_port :: u16
  vl_security :: rstr
  vl_sni :: rstr
  vl_fp :: rstr
  vl_flow :: rstr
  vl_network :: rstr
  vl_label :: rstr

datatype LinkError =
    NotVless | MissingAt | EmptyUuid | MalformedIpv6 | MissingPort | BadPort | LinkPanic

definition link_server_name :: "VlessLink \<Rightarrow> rstr" where
  "link_server_name l = (if vl_sni l = [] then vl_host l else vl_sni l)"

definition link_split_host_port :: "rstr \<Rightarrow> LinkError + rstr \<times> u16" where
  "link_split_host_port s =
    (case strip_prefix [91] s of
       Some rest \<Rightarrow>
         rbind (ok_or (split_once_seq [93, 58] rest) MalformedIpv6) (\<lambda>(h, p).
         rbind (ok_or (parse_u16 p) BadPort) (\<lambda>port. Inr (h, port)))
     | None \<Rightarrow>
         rbind (ok_or (rsplit_once 58 s) MissingPort) (\<lambda>(h, p).
         rbind (ok_or (parse_u16 p) BadPort) (\<lambda>port. Inr (h, port))))"

text \<open>\<^verbatim>\<open>u8::from_str_radix\<close> on two bytes takes a leading plus sign.\<close>

definition hex_pair :: "rstr \<Rightarrow> u8 option" where
  "hex_pair s =
    (let body = (case s of c # r \<Rightarrow> if c = 43 \<and> r \<noteq> [] then r else s | [] \<Rightarrow> s)
     in if body = [] then None else map_option of_nat (parse_digits 16 255 0 body))"

text \<open>
  The loop of \<^verbatim>\<open>pct_decode\<close>, on what is left of the string.  The slice of the two bytes
  after a percent sign panics when the byte after them continues a character.
\<close>

function pct_bytes :: "rstr \<Rightarrow> LinkError + bytes" where
  "pct_bytes [] = Inr []"
| "pct_bytes (c # s) =
    (if c = 37 \<and> 2 \<le> length s then
       if 3 \<le> length s \<and> utf8_cont (s ! 2) then Inl LinkPanic
       else case hex_pair (take 2 s) of
         Some b \<Rightarrow> rbind (pct_bytes (drop 2 s)) (\<lambda>r. Inr (b # r))
       | None \<Rightarrow> rbind (pct_bytes s) (\<lambda>r. Inr (c # r))
     else rbind (pct_bytes s) (\<lambda>r. Inr (c # r)))"
  by pat_completeness auto
termination
  by (relation "measure length") auto

definition pct_decode :: "rstr \<Rightarrow> LinkError + rstr" where
  "pct_decode s = rbind (pct_bytes s) (\<lambda>out. Inr (utf8_lossy out))"

definition link_set :: "rstr \<Rightarrow> rstr \<Rightarrow> VlessLink \<Rightarrow> VlessLink" where
  "link_set k v l =
    (if k = str ''security'' then l\<lparr>vl_security := v\<rparr>
     else if k = str ''sni'' then l\<lparr>vl_sni := v\<rparr>
     else if k = str ''fp'' then l\<lparr>vl_fp := v\<rparr>
     else if k = str ''flow'' then l\<lparr>vl_flow := v\<rparr>
     else if k = str ''type'' then l\<lparr>vl_network := v\<rparr>
     else l)"

fun link_query :: "rstr list \<Rightarrow> VlessLink \<Rightarrow> LinkError + VlessLink" where
  "link_query [] l = Inr l"
| "link_query (pair # ps) l =
    (if pair = [] then link_query ps l
     else
       let (k, v) = (case split_once 61 pair of Some kv \<Rightarrow> kv | None \<Rightarrow> (pair, [])) in
       rbind (pct_decode v) (\<lambda>v.
       link_query ps (link_set k v l)))"

definition link_parse :: "rstr \<Rightarrow> LinkError + VlessLink" where
  "link_parse s =
    rbind (ok_or (strip_prefix (str ''vless://'') (trim s)) NotVless) (\<lambda>rest.
    rbind (case split_once 35 rest of
        Some (r, frag) \<Rightarrow> rbind (pct_decode frag) (\<lambda>label. Inr (r, label))
      | None \<Rightarrow> Inr (rest, [])) (\<lambda>(rest, label).
    let (authority, query) = (case split_once 63 rest of Some aq \<Rightarrow> aq | None \<Rightarrow> (rest, [])) in
    rbind (ok_or (split_once 64 authority) MissingAt) (\<lambda>(uuid, hostport).
    if uuid = [] then Inl EmptyUuid
    else
      rbind (link_split_host_port hostport) (\<lambda>(host, port).
      link_query (split_char 38 query)
        \<lparr>vl_uuid = uuid, vl_host = host, vl_port = port, vl_security = [], vl_sni = [], vl_fp = [],
         vl_flow = [], vl_network = str ''tcp'', vl_label = label\<rparr>))))"

section \<open>Lemmas\<close>

lemma nibbles: "unat (b :: u8) div 16 < 16" "unat b mod 16 < 16" "unat b div 16 * 16 + unat b mod 16 = unat b" "unat b \<le> 255"
proof -
  have u: "unat b < 256"
    using unsigned_less [of b, where ?'a = nat] by simp
  moreover have "n div 16 < 16" if "n < 256" for n :: nat
    using that by presburger
  ultimately show "unat b div 16 < 16" "unat b mod 16 < 16" "unat b div 16 * 16 + unat b mod 16 = unat b"
    by simp_all
  show "unat b \<le> 255"
    using u by linarith
qed

lemma unat_upper_hex: "d < 16 \<Longrightarrow> unat (upper_hex d) = (if d < 10 then 48 + d else 55 + d)"
  unfolding upper_hex_def by (rule unat_of_nat_u8) simp

lemma digit_val_upper_hex:
  assumes "d < 16"
  shows "digit_val 16 (upper_hex d) = Some d" "upper_hex d \<noteq> 43" "unreserved (upper_hex d)"
proof -
  show "digit_val 16 (upper_hex d) = Some d"
    using assms by (simp add: digit_val_def word_le_nat_alt unat_upper_hex Let_def)
  have "unat (upper_hex d) \<noteq> 43"
    using assms by (simp add: unat_upper_hex)
  then show "upper_hex d \<noteq> 43"
    by auto
  show "unreserved (upper_hex d)"
    using assms by (simp add: unreserved_def word_le_nat_alt unat_upper_hex)
qed

lemma hex_pair_upper: "hex_pair [upper_hex (unat b div 16), upper_hex (unat b mod 16)] = Some b"
proof -
  have "parse_digits 16 255 0 [upper_hex (unat b div 16), upper_hex (unat b mod 16)] = Some (unat b)"
    using nibbles [of b] by (simp add: digit_val_upper_hex)
  then show ?thesis
    using nibbles [of b] by (simp add: hex_pair_def digit_val_upper_hex del: parse_digits.simps)
qed

lemma pct_chars: "c \<in> set (pct s) \<Longrightarrow> c = 37 \<or> unreserved c"
proof -
  assume "c \<in> set (pct s)"
  then obtain b where "c = b \<and> unreserved b \<or> c \<in> {37, upper_hex (unat b div 16), upper_hex (unat b mod 16)}"
    by (auto simp: pct_def split: if_splits)
  then show ?thesis
    using digit_val_upper_hex(3) nibbles [of b] by auto
qed

lemma unreserved_range: "unreserved c \<Longrightarrow> 32 < c \<and> c \<le> 127 \<and> c \<notin> {35, 37, 38, 61, 63, 64} \<and> \<not> utf8_cont c"
  by (auto simp: unreserved_def utf8_cont_def word_le_nat_alt word_less_nat_alt)

lemma pct_free: "c \<in> {35, 38, 61, 63, 64} \<Longrightarrow> c \<notin> set (pct s)"
  using pct_chars [of c s] unreserved_range [of c] by auto

lemma pct_Cons:
  "pct (b # s) = (if unreserved b then [b] else [37, upper_hex (unat b div 16), upper_hex (unat b mod 16)]) @ pct s"
  by (simp add: pct_def)

lemma pct_bytes_pct: "pct_bytes (pct s) = Inr s"
proof (induction s)
  case (Cons b s)
  show ?case
  proof (cases "unreserved b")
    case True
    then show ?thesis
      using Cons unreserved_range [of b] by (simp add: pct_Cons)
  next
    case False
    have "\<not> utf8_cont (pct s ! 0)" if "pct s \<noteq> []"
      using that pct_chars [of "pct s ! 0" s] unreserved_range [of "pct s ! 0"] nth_mem [of 0 "pct s"]
      by (auto simp: utf8_cont_def)
    then have "\<not> (3 \<le> length (upper_hex (unat b div 16) # upper_hex (unat b mod 16) # pct s) \<and>
        utf8_cont ((upper_hex (unat b div 16) # upper_hex (unat b mod 16) # pct s) ! 2))"
      by (auto simp: Suc_le_eq)
    then show ?thesis
      using False Cons hex_pair_upper [of b] by (simp add: pct_Cons)
  qed
qed (simp add: pct_def)

lemma pct_decode_pct: "pct_decode (pct s) = Inr (utf8_lossy s)"
  by (simp add: pct_decode_def pct_bytes_pct)

lemma split_join:
  "\<lbrakk>ps \<noteq> []; \<forall>x \<in> set ps. c \<notin> set x\<rbrakk> \<Longrightarrow> split_char c (join c ps) = ps"
  by (induction c ps rule: join.induct) auto

lemma join_free: "\<lbrakk>\<forall>x \<in> set ps. d \<notin> set x; d \<noteq> c\<rbrakk> \<Longrightarrow> d \<notin> set (join c ps)"
  by (induction c ps rule: join.induct) auto

text \<open>The query of a generated link, as the parser sees it.\<close>

definition link_pairs :: "XhttpParams \<Rightarrow> rstr list" where
  "link_pairs p = map (\<lambda>(k, v). k @ [61] @ pct v) (link_params p)"

lemma link_pairs_free: "\<lbrakk>x \<in> set (link_pairs p); c \<in> {35, 38, 63, 64}\<rbrakk> \<Longrightarrow> c \<notin> set x"
  using pct_free by (auto simp: link_pairs_def link_params_def)

lemma link_query_step:
  "61 \<notin> set k \<Longrightarrow> link_query ((k @ [61] @ pct v) # ps) l = link_query ps (link_set k (utf8_lossy v) l)"
  using split_once_Some [of 61 k "pct v"] by (simp add: pct_decode_pct)

lemma link_keys:
  "link_set (str ''type'') v l = l\<lparr>vl_network := v\<rparr>" "link_set (str ''security'') v l = l\<lparr>vl_security := v\<rparr>"
  "link_set (str ''encryption'') v l = l" "link_set (str ''sni'') v l = l\<lparr>vl_sni := v\<rparr>"
  "link_set (str ''fp'') v l = l\<lparr>vl_fp := v\<rparr>" "link_set (str ''alpn'') v l = l"
  "link_set (str ''host'') v l = l" "link_set (str ''path'') v l = l" "link_set (str ''mode'') v l = l"
  by (simp_all add: link_set_def)

lemma link_keys_free:
  "61 \<notin> set (str ''type'')" "61 \<notin> set (str ''security'')" "61 \<notin> set (str ''encryption'')"
  "61 \<notin> set (str ''sni'')" "61 \<notin> set (str ''fp'')" "61 \<notin> set (str ''alpn'')"
  "61 \<notin> set (str ''host'')" "61 \<notin> set (str ''path'')" "61 \<notin> set (str ''mode'')"
  by simp_all

lemma link_query_pairs:
  "link_query (link_pairs p) l =
    Inr (l\<lparr>vl_network := str ''xhttp'', vl_security := str ''tls'', vl_sni := utf8_lossy (xp_sni p),
           vl_fp := utf8_lossy (xp_fp p)\<rparr>)"
proof -
  have a: "utf8_lossy (str ''xhttp'') = str ''xhttp''" "utf8_lossy (str ''tls'') = str ''tls''"
    by (rule utf8_lossy_ascii, simp)+
  show ?thesis
    unfolding link_pairs_def link_params_def list.map prod.case
    by (simp only: link_query_step link_keys_free not_False_eq_True link_keys a link_query.simps(1))
qed

text \<open>What a generated link needs of its parameters.\<close>

definition params_ok :: "XhttpParams \<Rightarrow> rstr \<Rightarrow> u16 \<Rightarrow> bool" where
  "params_ok p host prt \<longleftrightarrow>
    xp_uuid p \<noteq> [] \<and> {35, 63, 64} \<inter> set (xp_uuid p) = {} \<and>
    xp_server_addr p = host @ [58] @ show_nat (unat prt) \<and> {35, 63} \<inter> set host = {} \<and> \<not> starts_with host [91] \<and>
    utf8_valid (xp_sni p) \<and> utf8_valid (xp_fp p) \<and> utf8_valid (xp_label p)"

lemma show_nat_free: "c \<in> {35, 58, 63, 91} \<Longrightarrow> c \<notin> set (show_nat n)"
  using dec_digits_set [of c "Suc n" n] by (auto simp: show_nat_def simp del: dec_digits.simps)

lemma link_host_port:
  assumes "\<not> starts_with host [91]"
  shows "link_split_host_port (host @ [58] @ show_nat (unat prt)) = Inr (host, prt)"
proof -
  have "\<not> starts_with (host @ [58] @ show_nat (unat prt)) [91]"
    using assms by (cases host) (simp_all add: starts_with_def)
  then show ?thesis
    using rsplit_once_last [OF show_nat_free, of 58 host "unat prt"]
    by (simp add: link_split_host_port_def strip_prefix_def ok_or_def parse_u16_show)
qed

lemma link_text:
  "vless_xhttp_link p = str ''vless://'' @ (xp_uuid p @ 64 # xp_server_addr p @ 63 # join 38 (link_pairs p)) @ 35 # pct (xp_label p)"
  by (simp add: vless_xhttp_link_def link_pairs_def del: str_simps)

lemma link_trim: "trim (vless_xhttp_link p) = vless_xhttp_link p"
proof (rule trim_graphic)
  have v: "str ''vless://'' = 118 # str ''less://''"
    by simp
  show "vless_xhttp_link p \<noteq> []" "32 < hd (vless_xhttp_link p)" "hd (vless_xhttp_link p) \<le> 127"
    unfolding link_text v by simp_all
  have "32 < last (35 # pct (xp_label p)) \<and> last (35 # pct (xp_label p)) \<le> 127"
  proof (cases "pct (xp_label p) = []")
    case False
    then have "last (pct (xp_label p)) = 37 \<or> unreserved (last (pct (xp_label p)))"
      using pct_chars last_in_set by blast
    then show ?thesis
      using False unreserved_range [of "last (pct (xp_label p))"] by auto
  qed simp
  then show "32 < last (vless_xhttp_link p)" "last (vless_xhttp_link p) \<le> 127"
    unfolding link_text by (simp_all del: str_simps)
qed

lemma link_round_trip:
  assumes "params_ok p host prt"
  shows "link_parse (vless_xhttp_link p) =
    Inr \<lparr>vl_uuid = xp_uuid p, vl_host = host, vl_port = prt, vl_security = str ''tls'', vl_sni = xp_sni p,
         vl_fp = xp_fp p, vl_flow = [], vl_network = str ''xhttp'', vl_label = xp_label p\<rparr>"
proof -
  note ok = assms [unfolded params_ok_def]
  let ?auth = "xp_uuid p @ 64 # xp_server_addr p"
  let ?q = "join 38 (link_pairs p)"
  have q: "c \<notin> set ?q" if "c \<in> {35, 63}" for c
    using that link_pairs_free [of _ p c] by (intro join_free) auto
  have addr: "c \<notin> set (xp_server_addr p)" if "c \<in> {35, 63}" for c
    using that ok show_nat_free [of c "unat prt"] by auto
  have "split_once 35 ((?auth @ 63 # ?q) @ 35 # pct (xp_label p)) = Some (?auth @ 63 # ?q, pct (xp_label p))"
    using q addr ok by (intro split_once_Some) auto
  moreover have "split_once 63 (?auth @ 63 # ?q) = Some (?auth, ?q)"
    using addr ok by (intro split_once_Some) auto
  moreover have "split_once 64 ?auth = Some (xp_uuid p, xp_server_addr p)"
    using ok by (intro split_once_Some) auto
  moreover have "strip_prefix (str ''vless://'') (trim (vless_xhttp_link p)) =
      Some ((?auth @ 63 # ?q) @ 35 # pct (xp_label p))"
    unfolding link_trim unfolding link_text by (simp add: strip_prefix_def starts_with_def del: str_simps)
  moreover have "split_char 38 ?q = link_pairs p"
    using link_pairs_free [of _ p 38] by (intro split_join) (auto simp: link_pairs_def link_params_def)
  moreover have "link_split_host_port (xp_server_addr p) = Inr (host, prt)"
    using link_host_port [of host prt] ok by simp
  ultimately show ?thesis
    using ok by (simp add: link_parse_def ok_or_def pct_decode_pct utf8_lossy_valid link_query_pairs del: str_simps)
qed

lemma sub_handle_links:
  assumes "sub_uuid target = Some u" and "u \<noteq> []" and "parse_uuid u = Some i" and "handle_is_authorized auth i"
    and "sub_query_value (snd (sub_target target)) (str ''format'') = Some (str ''links'')"
  shows "sub_handle e parse_uuid target cfg auth =
    http_response 200 (str ''text/plain; charset=utf-8'') (enc_base64 e (vless_xhttp_link
      \<lparr>xp_uuid = u, xp_server_addr = sv_public_address cfg, xp_sni = sv_server_name cfg, xp_host = sv_host cfg,
       xp_path = sv_path cfg, xp_mode = sv_mode cfg, xp_fp = sv_fp cfg, xp_socks = sv_socks cfg,
       xp_label = str ''donut-'' @ host_of (sv_public_address cfg)\<rparr> @ [10]))"
proof -
  have "str ''links'' \<noteq> str ''clash''" "str ''links'' \<noteq> str ''yaml''"
    by simp_all
  then show ?thesis
    using assms by (simp add: sub_handle_def Let_def del: str_simps)
qed

lemma sub_handle_refused:
  assumes "\<And>u i. \<lbrakk>sub_uuid target = Some u; u \<noteq> []; parse_uuid u = Some i\<rbrakk> \<Longrightarrow> \<not> handle_is_authorized auth i"
  shows "sub_handle e parse_uuid target cfg auth = not_found"
proof (cases "sub_uuid target")
  case None
  then show ?thesis
    unfolding sub_handle_def Let_def by (simp only: option.case)
next
  case (Some u)
  then have "u = [] \<or> \<not> (case parse_uuid u of Some i \<Rightarrow> handle_is_authorized auth i | None \<Rightarrow> False)"
    using assms by (auto split: option.split)
  then show ?thesis
    unfolding sub_handle_def Let_def Some option.case by (simp only: if_True)
qed

lemma sub_target_links:
  assumes "u \<noteq> []" and "63 \<notin> set u" and "last u \<noteq> 47"
  shows "sub_uuid (str ''/sub/'' @ u @ str ''?format=links'') = Some u"
    "sub_query_value (snd (sub_target (str ''/sub/'' @ u @ str ''?format=links''))) (str ''format'') = Some (str ''links'')"
proof -
  have "split_once 63 ((str ''/sub/'' @ u) @ 63 # str ''format=links'') = Some (str ''/sub/'' @ u, str ''format=links'')"
    using assms(2) by (intro split_once_Some) simp
  moreover have "str ''/sub/'' @ u @ str ''?format=links'' = (str ''/sub/'' @ u) @ 63 # str ''format=links''"
    by simp
  ultimately have t: "sub_target (str ''/sub/'' @ u @ str ''?format=links'') = (str ''/sub/'' @ u, str ''format=links'')"
    by (simp only: sub_target_def option.case prod.case)
  have "dropWhile (\<lambda>c. c = 47) (rev u) = rev u"
    using assms(1,3) by (cases u rule: rev_cases) simp_all
  then show "sub_uuid (str ''/sub/'' @ u @ str ''?format=links'') = Some u"
    unfolding sub_uuid_def t fst_conv by (simp add: strip_prefix_def starts_with_def trim_end_slashes_def del: str_simps)
  show "sub_query_value (snd (sub_target (str ''/sub/'' @ u @ str ''?format=links''))) (str ''format'') = Some (str ''links'')"
    unfolding t snd_conv by (simp add: sub_query_value_def List.map_filter_simps)
qed

section \<open>Properties\<close>

text \<open>
  C24.  The subscription endpoint serves the right people the right thing.  A request whose
  path does not name a user currently allowed is answered with the very bytes of the answer
  to a wrong path; an allowed user asking for links gets a share link that the client's
  importer reads back as a connection with that user's identifier, to the public host and
  port, over xHTTP with TLS.
\<close>

theorem subscription_serves:
  "((\<forall>u i. sub_uuid target = Some u \<and> u \<noteq> [] \<and> parse_uuid u = Some i \<longrightarrow> i \<notin> set (users (snapshot auth))) \<longrightarrow>
     sub_handle e parse_uuid target cfg auth = not_found) \<and>
   (params_ok \<lparr>xp_uuid = u, xp_server_addr = sv_public_address cfg, xp_sni = sv_server_name cfg, xp_host = sv_host cfg,
       xp_path = sv_path cfg, xp_mode = sv_mode cfg, xp_fp = sv_fp cfg, xp_socks = sv_socks cfg,
       xp_label = str ''donut-'' @ host_of (sv_public_address cfg)\<rparr> host prt \<longrightarrow>
    last u \<noteq> 47 \<longrightarrow> parse_uuid u = Some i \<longrightarrow> i \<in> set (users (snapshot auth)) \<longrightarrow>
    (\<exists>link l. sub_handle e parse_uuid (str ''/sub/'' @ u @ str ''?format=links'') cfg auth =
        http_response 200 (str ''text/plain; charset=utf-8'') (enc_base64 e (link @ [10])) \<and>
      link_parse link = Inr l \<and> vl_uuid l = u \<and> vl_host l = host \<and> vl_port l = prt \<and>
      vl_network l = str ''xhttp'' \<and> vl_security l = str ''tls''))"
  (is "?refused \<and> (params_ok ?p _ _ \<longrightarrow> _)")
proof (intro conjI impI)
  show "sub_handle e parse_uuid target cfg auth = not_found"
    if "\<forall>u i. sub_uuid target = Some u \<and> u \<noteq> [] \<and> parse_uuid u = Some i \<longrightarrow> i \<notin> set (users (snapshot auth))"
    using that by (intro sub_handle_refused) (simp add: handle_is_authorized_def is_authorized_iff)
next
  assume ok: "params_ok ?p host prt" and u: "last u \<noteq> 47" "parse_uuid u = Some i" "i \<in> set (users (snapshot auth))"
  have "u \<noteq> []" "63 \<notin> set u"
    using ok by (auto simp: params_ok_def)
  note t = sub_target_links [OF this u(1)]
  have "handle_is_authorized auth i"
    using u(3) by (simp add: handle_is_authorized_def is_authorized_iff)
  note links = sub_handle_links [where parse_uuid = parse_uuid and u = u and i = i, OF t(1) \<open>u \<noteq> []\<close> u(2) this t(2), of e cfg]
  show "\<exists>link l. sub_handle e parse_uuid (str ''/sub/'' @ u @ str ''?format=links'') cfg auth =
        http_response 200 (str ''text/plain; charset=utf-8'') (enc_base64 e (link @ [10])) \<and>
      link_parse link = Inr l \<and> vl_uuid l = u \<and> vl_host l = host \<and> vl_port l = prt \<and>
      vl_network l = str ''xhttp'' \<and> vl_security l = str ''tls''"
    by (intro exI conjI, rule links, rule link_round_trip [OF ok]) (simp_all del: str_simps)
qed

definition sample_sub :: SubServeConfig where
  "sample_sub = \<lparr>sv_public_address = str ''h:7'', sv_server_name = str ''h'', sv_host = str ''h'', sv_path = str ''/x'',
    sv_mode = str ''stream-up'', sv_fp = str ''firefox'', sv_socks = str ''127.0.0.1:1080''\<rparr>"

lemma sample_sub_ok:
  "params_ok \<lparr>xp_uuid = str ''u1'', xp_server_addr = sv_public_address sample_sub, xp_sni = sv_server_name sample_sub,
      xp_host = sv_host sample_sub, xp_path = sv_path sample_sub, xp_mode = sv_mode sample_sub, xp_fp = sv_fp sample_sub,
      xp_socks = sv_socks sample_sub, xp_label = str ''donut-'' @ host_of (sv_public_address sample_sub)\<rparr> (str ''h'') 7"
proof -
  have "show_nat (unat (7 :: u16)) = str ''7''"
    unfolding show_nat_def by (subst dec_digits.simps(2)) simp
  then show ?thesis
    by (simp add: params_ok_def sample_sub_def starts_with_def host_of_def rsplit_once_def)
qed

definition sample_enc :: Encoders where
  "sample_enc = \<lparr>enc_json = (\<lambda>_. []), enc_json_pretty = (\<lambda>_. []), enc_base64 = (\<lambda>b. b)\<rparr>"

theorem subscription_serves_witness:
  "sub_handle sample_enc (\<lambda>s. if s = str ''u1'' then Some 7 else None) (str ''/admin'') sample_sub
     \<lparr>snapshot = \<lparr>users = [7]\<rparr>\<rparr> = not_found \<and>
   (\<exists>link l. sub_handle sample_enc (\<lambda>s. if s = str ''u1'' then Some 7 else None) (str ''/sub/'' @ str ''u1'' @ str ''?format=links'')
       sample_sub \<lparr>snapshot = \<lparr>users = [7]\<rparr>\<rparr> =
       http_response 200 (str ''text/plain; charset=utf-8'') (enc_base64 sample_enc (link @ [10])) \<and>
     link_parse link = Inr l \<and> vl_uuid l = str ''u1'' \<and> vl_host l = str ''h'' \<and> vl_port l = 7)"
proof -
  let ?pu = "\<lambda>s. if s = str ''u1'' then Some 7 else None"
  have none: "sub_uuid (str ''/admin'') = None"
    by (simp add: sub_uuid_def sub_target_def strip_prefix_def starts_with_def)
  have u: "last (str ''u1'') \<noteq> 47" "?pu (str ''u1'') = Some 7" "7 \<in> set (users (snapshot \<lparr>snapshot = \<lparr>users = [7]\<rparr>\<rparr>))"
    by simp_all
  note both = subscription_serves [of "str ''/admin''" ?pu "\<lparr>snapshot = \<lparr>users = [7]\<rparr>\<rparr>" sample_enc sample_sub "str ''u1''" "str ''h''" 7 7]
  have "sub_handle sample_enc ?pu (str ''/admin'') sample_sub \<lparr>snapshot = \<lparr>users = [7]\<rparr>\<rparr> = not_found"
    by (rule conjunct1 [OF both, THEN mp]) (simp only: none option.distinct simp_thms)
  moreover note conjunct2 [OF both, THEN mp, OF sample_sub_ok, THEN mp, OF u(1), THEN mp, OF u(2), THEN mp, OF u(3)]
  ultimately show ?thesis
    by (elim exE conjE) (intro conjI exI; assumption)
qed


end
