(* ===== verification/Donut_Config.thy ===== *)
theory Donut_Config
  imports Routing Dns_Resolver Veil_Handshake Fragmentation
begin

text \<open>
  Configuration (\<^verbatim>\<open>donut-config/src/lib.rs\<close>): what the loader materialises for the daemons.
  Deserialisation, base64, hexadecimal, PEM and UUID parsing belong to libraries and are
  parameters, and so are the file system and the protobuf decoder of the geo databases.
  The sections that only carry text to the daemons are records of that text.
\<close>

section \<open>Sections\<close>

datatype ConfigError =
    ConfigIo rstr | ConfigJson | ConfigToml | ConfigKey rstr | ConfigShortId rstr | ConfigUser rstr
  | NoUsers | NoUuid | ConfigPem rstr | ConfigRouting RoutingError | ConfigFragment rstr | ConfigGeo rstr
  | ConfigDns

record LogConfig =
  lg_level :: rstr
  lg_format :: rstr

definition log_config_default :: LogConfig where
  "log_config_default = \<lparr>lg_level = str ''info'', lg_format = str ''text''\<rparr>"

record FragmentConfig =
  fc_packets :: rstr
  fc_length :: rstr
  fc_interval :: rstr

definition fragment_config_default :: FragmentConfig where
  "fragment_config_default = \<lparr>fc_packets = str ''tlshello'', fc_length = str ''100-200'', fc_interval = str ''10-20''\<rparr>"

definition parse_u32_range :: "rstr \<Rightarrow> ConfigError + u32 \<times> u32" where
  "parse_u32_range s =
    (let parse = (\<lambda>v. ok_or (parse_u32 (trim v)) (ConfigFragment v)) in
     case split_once 45 s of
       Some (a, b) \<Rightarrow> rbind (parse a) (\<lambda>x. rbind (parse b) (\<lambda>y. Inr (x, y)))
     | None \<Rightarrow> rbind (parse s) (\<lambda>v. Inr (v, v)))"

definition length_range :: "FragmentConfig \<Rightarrow> ConfigError + u32 \<times> u32" where
  "length_range f = parse_u32_range (fc_length f)"

definition interval_range :: "FragmentConfig \<Rightarrow> ConfigError + u32 \<times> u32" where
  "interval_range f = parse_u32_range (fc_interval f)"

record TuningConfig =
  tu_mux_idle_secs :: u64
  tu_udp_idle_secs :: u64
  tu_accept_backoff_ms :: u64
  tu_tls_handshake_timeout_secs :: u64
  tu_tcp_idle_secs :: u64

definition tuning_default :: TuningConfig where
  "tuning_default =
    \<lparr>tu_mux_idle_secs = 180, tu_udp_idle_secs = 120, tu_accept_backoff_ms = 100,
     tu_tls_handshake_timeout_secs = 10, tu_tcp_idle_secs = 300\<rparr>"

text \<open>Decoders of the libraries: \<^verbatim>\<open>hex\<close>, the four base64 engines in order, \<^verbatim>\<open>uuid\<close>.\<close>

record Decoders =
  dc_hex :: "rstr \<Rightarrow> bytes option"
  dc_base64 :: "(rstr \<Rightarrow> bytes option) list"
  dc_uuid :: "rstr \<Rightarrow> UserId option"

fun first_key :: "(rstr \<Rightarrow> bytes option) list \<Rightarrow> rstr \<Rightarrow> bytes option" where
  "first_key [] s = None"
| "first_key (d # ds) s =
    (case d s of
       Some b \<Rightarrow> if length b = 32 then Some b else first_key ds s
     | None \<Rightarrow> first_key ds s)"

definition parse_x25519 :: "Decoders \<Rightarrow> rstr \<Rightarrow> ConfigError + bytes" where
  "parse_x25519 dc s =
    (let s = trim s in ok_or (first_key (dc_hex dc # dc_base64 dc) s) (ConfigKey s))"

definition parse_short_id :: "Decoders \<Rightarrow> rstr \<Rightarrow> ConfigError + ShortId" where
  "parse_short_id dc s = map_err (\<lambda>_. ConfigShortId s) (short_id_from_str (dc_hex dc) s)"

record RealityServer =
  rs_private_key :: rstr
  rs_short_ids :: "rstr list"
  rs_dest :: rstr
  rs_cert :: rstr
  rs_key :: rstr
  rs_anti_replay_skew_secs :: "u64 option"

definition private_key_bytes :: "Decoders \<Rightarrow> RealityServer \<Rightarrow> ConfigError + bytes" where
  "private_key_bytes dc r = parse_x25519 dc (rs_private_key r)"

definition short_id_set :: "Decoders \<Rightarrow> RealityServer \<Rightarrow> ConfigError + ShortId list" where
  "short_id_set dc r = collect_results (parse_short_id dc) (rs_short_ids r)"

record RealityClient =
  rk_public_key :: rstr
  rk_short_id :: rstr
  rk_server_name :: rstr
  rk_version :: bytes
  rk_fingerprint :: rstr

definition public_key_bytes :: "Decoders \<Rightarrow> RealityClient \<Rightarrow> ConfigError + bytes" where
  "public_key_bytes dc r = parse_x25519 dc (rk_public_key r)"

definition short_id_value :: "Decoders \<Rightarrow> RealityClient \<Rightarrow> ConfigError + ShortId" where
  "short_id_value dc r = parse_short_id dc (rk_short_id r)"

record OutboundConfig =
  oc_tag :: rstr
  oc_transport :: rstr
  oc_server :: rstr
  oc_uuid :: rstr
  oc_reality :: "RealityClient option"

definition outbound_user_id :: "Decoders \<Rightarrow> OutboundConfig \<Rightarrow> ConfigError + UserId" where
  "outbound_user_id dc c = ok_or (dc_uuid dc (oc_uuid c)) (ConfigUser (oc_uuid c))"

record ServerInbound =
  si_listen :: rstr
  si_transport :: rstr
  si_reality :: "RealityServer option"
  si_path :: rstr
  si_cert :: "rstr option"
  si_key :: "rstr option"
  si_dest :: "rstr option"
  si_mode :: rstr
  si_host :: "rstr option"
  si_vision :: rstr
  si_users :: "rstr list"

definition seed_user_ids :: "Decoders \<Rightarrow> ServerInbound \<Rightarrow> ConfigError + UserId list" where
  "seed_user_ids dc i = collect_results (\<lambda>s. ok_or (dc_uuid dc s) (ConfigUser s)) (si_users i)"

definition user_auth :: "Decoders \<Rightarrow> ServerInbound \<Rightarrow> ConfigError + UserAuth" where
  "user_auth dc i =
    (if si_users i = [] then Inl NoUsers
     else rbind (seed_user_ids dc i) (\<lambda>us. Inr \<lparr>users = us\<rparr>))"

record ClientOutbound =
  co_server :: rstr
  co_uuid :: rstr
  co_transport :: rstr
  co_reality :: "RealityClient option"
  co_server_name :: rstr
  co_path :: rstr
  co_mode :: rstr
  co_flow :: rstr

definition client_user_id :: "Decoders \<Rightarrow> ClientOutbound \<Rightarrow> ConfigError + UserId" where
  "client_user_id dc c =
    (if trim (co_uuid c) = [] then Inl NoUuid
     else ok_or (dc_uuid dc (co_uuid c)) (ConfigUser (co_uuid c)))"

section \<open>Databases, routing and resolver\<close>

record GeoConfig =
  gc_geoip :: "rstr option"
  gc_geosite :: "rstr option"

record DnsConfig =
  dn_doh :: "rstr list"
  dn_doh_tls_name :: "rstr option"

text \<open>The file system, and the two protobuf decoders of the geo crate.\<close>

record Loader =
  ld_read :: "rstr \<Rightarrow> bytes option"
  ld_geoip :: "bytes \<Rightarrow> ProtoGeoIp list option"
  ld_geosite :: "bytes \<Rightarrow> ProtoGeoSite list option"

definition read_file :: "Loader \<Rightarrow> rstr \<Rightarrow> ConfigError + bytes" where
  "read_file ld path = ok_or (ld_read ld path) (ConfigIo path)"

definition load_geoip :: "Loader \<Rightarrow> rstr \<Rightarrow> ConfigError + GeoIpDb" where
  "load_geoip ld path =
    rbind (read_file ld path) (\<lambda>data. map_err (\<lambda>_. ConfigGeo path) (geoip_parse (ld_geoip ld) data))"

definition load_geosite :: "Loader \<Rightarrow> rstr \<Rightarrow> ConfigError + GeoSiteDb" where
  "load_geosite ld path =
    rbind (read_file ld path) (\<lambda>data. map_err (\<lambda>_. ConfigGeo path) (geosite_parse (ld_geosite ld) data))"

definition databases :: "Loader \<Rightarrow> GeoConfig \<Rightarrow> ConfigError + GeoIpDb option \<times> GeoSiteDb option" where
  "databases ld g =
    rbind (case gc_geoip g of Some p \<Rightarrow> rbind (load_geoip ld p) (\<lambda>d. Inr (Some d)) | None \<Rightarrow> Inr None) (\<lambda>geoip.
    rbind (case gc_geosite g of Some p \<Rightarrow> rbind (load_geosite ld p) (\<lambda>d. Inr (Some d)) | None \<Rightarrow> Inr None) (\<lambda>geosite.
    Inr (geoip, geosite)))"

definition config_router :: "Loader \<Rightarrow> GeoConfig \<Rightarrow> RoutingConfig \<Rightarrow> ConfigError + Router" where
  "config_router ld g routing =
    rbind (databases ld g) (\<lambda>(geoip_db, geosite_db).
    map_err ConfigRouting (build_with_geo routing geoip_db geosite_db))"

definition client_routing_default :: RoutingConfig where
  "client_routing_default = \<lparr>cfg_default = str ''proxy'', cfg_rules = []\<rparr>"

datatype Resolver = SystemResolver | DohResolver "IpAddr list" rstr

text \<open>\<open>system\<close>: whether the system resolver can be set up.\<close>

definition config_resolver :: "bool \<Rightarrow> DnsConfig \<Rightarrow> ConfigError + Resolver" where
  "config_resolver system d =
    (if dn_doh d = [] then (if system then Inr SystemResolver else Inl ConfigDns)
     else
       rbind (collect_results (\<lambda>s. ok_or (parse_ip s) ConfigDns) (dn_doh d)) (\<lambda>ips.
       Inr (DohResolver ips (case dn_doh_tls_name d of Some n \<Rightarrow> n | None \<Rightarrow> str ''cloudflare-dns.com''))))"

section \<open>Files\<close>

datatype Format = FormatJson | FormatToml | FormatUnknown

text \<open>\<^verbatim>\<open>Path::extension\<close> of a file name: after its last dot, unless that leads the name.\<close>

definition path_extension :: "rstr \<Rightarrow> rstr option" where
  "path_extension path =
    (let name = rev (takeWhile (\<lambda>c. c \<noteq> 47) (rev path)) in
     case rsplit_once 46 name of
       Some (stem, e) \<Rightarrow> if stem = [] \<or> name = [46, 46] then None else Some e
     | None \<Rightarrow> None)"

definition config_format :: "rstr \<Rightarrow> Format" where
  "config_format path =
    (case map_option to_ascii_lowercase (path_extension path) of
       None \<Rightarrow> FormatUnknown
     | Some e \<Rightarrow>
         if e = str ''toml'' then FormatToml
         else if e \<in> {str ''json'', str ''jsonc'', str ''js''} then FormatJson
         else FormatUnknown)"

definition from_toml :: "(rstr \<Rightarrow> 'c option) \<Rightarrow> bytes \<Rightarrow> ConfigError + 'c" where
  "from_toml toml data = (if utf8_valid data then ok_or (toml data) ConfigToml else Inl ConfigToml)"

definition from_path ::
    "Loader \<Rightarrow> (bytes \<Rightarrow> 'c option) \<Rightarrow> (rstr \<Rightarrow> 'c option) \<Rightarrow> rstr \<Rightarrow> ConfigError + 'c" where
  "from_path ld json toml path =
    rbind (read_file ld path) (\<lambda>data.
    case config_format path of
      FormatToml \<Rightarrow> from_toml toml data
    | FormatJson \<Rightarrow> ok_or (json data) ConfigJson
    | FormatUnknown \<Rightarrow>
        (case json data of
           Some v \<Rightarrow> Inr v
         | None \<Rightarrow> map_err (\<lambda>_. ConfigToml) (from_toml toml data)))"

section \<open>Handing the configuration over\<close>

text \<open>
  What the server's start-up does with a REALITY section and with a fragment section
  (\<^verbatim>\<open>donut-server/src/main.rs\<close>): a window of zero seconds switches the replay check off.
\<close>

definition fragment_params :: "FragmentConfig \<Rightarrow> ConfigError + FragmentParams" where
  "fragment_params f =
    rbind (length_range f) (\<lambda>l. rbind (interval_range f) (\<lambda>i. Inr \<lparr>fr_len = l, fr_interval_ms = i\<rparr>))"

datatype StartError = StartConfig ConfigError | StartVeil VeilError

definition reality_veil_config ::
    "VeilCrypto \<Rightarrow> Decoders \<Rightarrow> RealityServer \<Rightarrow> StartError + VeilServerConfig" where
  "reality_veil_config cr dc r =
    rbind (map_err StartConfig (private_key_bytes dc r)) (\<lambda>private_key.
    rbind (map_err StartConfig (short_id_set dc r)) (\<lambda>short_ids.
    rbind (map_err StartVeil (veil_server_config_new cr private_key short_ids)) (\<lambda>veil.
    Inr (case rs_anti_replay_skew_secs r of
           None \<Rightarrow> veil
         | Some secs \<Rightarrow> with_max_time_skew (if secs > 0 then Some (unat secs) else None) veil))))"

section \<open>Lemmas\<close>

lemma first_key_length: "first_key ds s = Some k \<Longrightarrow> length k = 32"
  by (induction ds) (auto split: option.splits if_splits)

lemma parse_x25519_length: "parse_x25519 dc s = Inr k \<Longrightarrow> length k = 32"
  using first_key_length by (fastforce simp: parse_x25519_def Let_def simp del: first_key.simps)

text \<open>A materialised REALITY section has a key of the right size and somebody to admit.\<close>

lemma reality_veil_config_ok:
  assumes "reality_veil_config cr dc r = Inr v"
  shows "length (vs_private v) = 32 \<and> vs_short_ids v \<noteq> [] \<and>
    vs_max_time_skew v = (case rs_anti_replay_skew_secs r of
      None \<Rightarrow> Some 120 | Some s \<Rightarrow> if s = 0 then None else Some (unat s))"
proof -
  obtain k ids v0 where h: "private_key_bytes dc r = Inr k" "short_id_set dc r = Inr ids"
      "veil_server_config_new cr k ids = Inr v0"
      "v = (case rs_anti_replay_skew_secs r of None \<Rightarrow> v0
         | Some secs \<Rightarrow> with_max_time_skew (if secs > 0 then Some (unat secs) else None) v0)"
    using assms by (auto simp: reality_veil_config_def rbind_eq_Inr_iff)
  have "length k = 32"
    using h(1) parse_x25519_length by (auto simp: private_key_bytes_def)
  then show ?thesis
    using h(3,4)
    by (auto simp: veil_server_config_new_def with_max_time_skew_def DEFAULT_MAX_TIME_SKEW_def word_gt_0
        split: option.splits if_splits)
qed

section \<open>Properties\<close>

text \<open>
  The user list of the configuration is the access control list: when it loads, a
  credential is authorised exactly if some entry of the list parses to it; the list fails
  to load exactly when it is empty or has an entry that does not parse.
\<close>

lemma config_users_exact:
  "case user_auth dc i of
     Inr auth \<Rightarrow> si_users i \<noteq> [] \<and> (is_authorized auth u \<longleftrightarrow> (\<exists>s \<in> set (si_users i). dc_uuid dc s = Some u)) \<and>
       \<not> (\<exists>s \<in> set (si_users i). dc_uuid dc s = None)
   | Inl e \<Rightarrow> si_users i = [] \<and> e = NoUsers \<or> (\<exists>s \<in> set (si_users i). dc_uuid dc s = None \<and> e = ConfigUser s)"
proof (cases "si_users i = []")
  case True
  then show ?thesis
    by (simp add: user_auth_def)
next
  case False
  show ?thesis
  proof (cases "seed_user_ids dc i")
    case (Inl e)
    then show ?thesis
      using False collect_results_Inl [OF Inl [unfolded seed_user_ids_def]] by (auto simp: user_auth_def)
  next
    case (Inr us)
    then have a: "list_all2 (\<lambda>s v. dc_uuid dc s = Some v) (si_users i) us"
      using collect_results_Inr [THEN iffD1, OF Inr [unfolded seed_user_ids_def]] by simp
    then have "u \<in> set us \<longleftrightarrow> (\<exists>s \<in> set (si_users i). dc_uuid dc s = Some u)"
      "\<not> (\<exists>s \<in> set (si_users i). dc_uuid dc s = None)"
      by (induction rule: list_all2_induct) auto
    then show ?thesis
      using False Inr by (simp add: user_auth_def is_authorized_iff)
  qed
qed


end
