(* ===== verification/Record_Tls.thy ===== *)
theory Record_Tls
  imports Async_Io
begin

text \<open>
  \<open>RecordTlsServer\<close> (\<^verbatim>\<open>donut-server/src/vision_xray_splice.rs\<close>): the outer TLS session driven by
  hand, one record at a time, so that the relay can leave it at a record boundary and go on
  with the raw socket.  The TLS engine (\<^verbatim>\<open>rustls::ServerConnection\<close>) is a parameter: a state
  with the calls the driver makes.  \<open>te_feed\<close> is \<^verbatim>\<open>read_tls\<close> over the bytes of one record,
  \<open>te_pending\<close> is \<^verbatim>\<open>write_tls\<close> until \<^verbatim>\<open>wants_write\<close> is false, \<open>te_plaintext\<close> reads the
  plaintext a processed record left.

  \<open>engine_ok\<close> states what the driver relies on: each direction of the session counts its
  records, the record with number \<open>i\<close> opens to a plaintext, a write seals one, and neither
  direction disturbs the other.  Under it a driver reads exactly the record in front, in any
  segmentation, and leaves every byte behind it in its buffer or on the socket.
\<close>

declare concat_eq_Nil_conv [simp del] Nil_eq_concat_conv [simp del]

section \<open>The engine and the driver\<close>

definition READ_CHUNK :: nat where "READ_CHUNK = 16 * 1024"

text \<open>The engine takes this many bytes of plaintext in one go when nothing is waiting to be sent.\<close>

definition DEFAULT_BUFFER_LIMIT :: nat where "DEFAULT_BUFFER_LIMIT = 64 * 1024"

record Socket = TcpStream +
  sk_shut :: bool

definition sock_shutdown :: "Socket \<Rightarrow> Socket" where
  "sock_shutdown s = s\<lparr>sk_shut := True\<rparr>"

record 'c TlsEngine =
  te_feed :: "bytes \<Rightarrow> 'c \<Rightarrow> ErrorKind + 'c"
  te_process :: "'c \<Rightarrow> unit + 'c"
  te_handshaking :: "'c \<Rightarrow> bool"
  te_plaintext :: "'c \<Rightarrow> ErrorKind + bytes \<times> 'c"
  te_pending :: "'c \<Rightarrow> bytes \<times> 'c"
  te_writer :: "bytes \<Rightarrow> 'c \<Rightarrow> ErrorKind + 'c"

record 'c RecordTlsServer =
  rt_tcp :: Socket
  rt_conn :: 'c
  rt_inbuf :: bytes
  rt_read_total :: u64

text \<open>\<open>conn\<close> is what \<^verbatim>\<open>ServerConnection::new\<close> returns; its error becomes an other-kind one.\<close>

definition rt_new_with_prefix :: "Socket \<Rightarrow> unit + 'c \<Rightarrow> bytes \<Rightarrow> ErrorKind + 'c RecordTlsServer" where
  "rt_new_with_prefix tcp conn pfx =
    rbind (map_err (\<lambda>_. OtherKind) conn) (\<lambda>conn.
    Inr \<lparr>rt_tcp = tcp, rt_conn = conn, rt_inbuf = pfx, rt_read_total = of_nat (length pfx)\<rparr>)"

definition rt_new :: "Socket \<Rightarrow> unit + 'c \<Rightarrow> ErrorKind + 'c RecordTlsServer" where
  "rt_new tcp conn = rt_new_with_prefix tcp conn []"

definition rt_bytes_read :: "'c RecordTlsServer \<Rightarrow> u64" where
  "rt_bytes_read t = rt_read_total t"

definition rt_fill :: "('c RecordTlsServer, ErrorKind, bool) act" where
  "rt_fill t =
    (case read_some READ_CHUNK (rt_tcp t) of
       (Inl e, s) \<Rightarrow> (Inl e, t\<lparr>rt_tcp := s\<rparr>)
     | (Inr bs, s) \<Rightarrow>
         if bs = [] then (Inr False, t\<lparr>rt_tcp := s\<rparr>)
         else (Inr True, t\<lparr>rt_tcp := s, rt_read_total := rt_read_total t + of_nat (length bs),
                 rt_inbuf := rt_inbuf t @ bs\<rparr>))"

definition record_total :: "bytes \<Rightarrow> nat option" where
  "record_total b =
    (if length b \<ge> 5 then
       let len = 5 + unat (from_be16 (b ! 3) (b ! 4)) in
       if length b \<ge> len then Some len else None
     else None)"

definition rt_unread :: "'c RecordTlsServer \<Rightarrow> bytes" where
  "rt_unread t = rt_inbuf t @ concat (rx (rt_tcp t))"

lemma rt_fill_Inr:
  assumes "rt_fill t = (Inr b, t')"
  shows "rt_unread t' = rt_unread t" "rt_conn t' = rt_conn t"
    "tx (rt_tcp t') = tx (rt_tcp t)" "tx_room (rt_tcp t') = tx_room (rt_tcp t)"
    "rx_end (rt_tcp t') = rx_end (rt_tcp t)"
    "b \<Longrightarrow> length (concat (rx (rt_tcp t'))) < length (concat (rx (rt_tcp t)))"
    "\<not> b \<Longrightarrow> concat (rx (rt_tcp t)) = [] \<and> rt_inbuf t' = rt_inbuf t"
proof -
  obtain bs s where r: "read_some READ_CHUNK (rt_tcp t) = (Inr bs, s)"
    using assms by (auto simp: rt_fill_def split: prod.splits sum.splits if_splits)
  note f = read_some_Inr [OF r]
  show "rt_unread t' = rt_unread t" "rt_conn t' = rt_conn t"
    "tx (rt_tcp t') = tx (rt_tcp t)" "tx_room (rt_tcp t') = tx_room (rt_tcp t)"
    "rx_end (rt_tcp t') = rx_end (rt_tcp t)"
    "b \<Longrightarrow> length (concat (rx (rt_tcp t'))) < length (concat (rx (rt_tcp t)))"
    "\<not> b \<Longrightarrow> concat (rx (rt_tcp t)) = [] \<and> rt_inbuf t' = rt_inbuf t"
    using assms r f by (auto simp: rt_fill_def rt_unread_def READ_CHUNK_def split: if_splits)
qed

function ensure_one_record :: "('c RecordTlsServer, ErrorKind, nat option) act" where
  "ensure_one_record t =
    (case record_total (rt_inbuf t) of
       Some len \<Rightarrow> (Inr (Some len), t)
     | None \<Rightarrow>
         (case rt_fill t of
            (Inl e, t') \<Rightarrow> (Inl e, t')
          | (Inr more_read, t') \<Rightarrow>
              if more_read then ensure_one_record t'
              else if rt_inbuf t' = [] then (Inr None, t') else (Inl UnexpectedEof, t')))"
  by pat_completeness auto
termination
  by (relation "measure (\<lambda>t. length (concat (rx (rt_tcp t))))") (auto dest: rt_fill_Inr(6) [OF sym])

declare ensure_one_record.simps [simp del]

definition feed_record :: "'c TlsEngine \<Rightarrow> nat \<Rightarrow> ('c RecordTlsServer, ErrorKind, unit) act" where
  "feed_record eng len t =
    (case te_feed eng (take len (rt_inbuf t)) (rt_conn t) of
       Inl e \<Rightarrow> (Inl e, t)
     | Inr c \<Rightarrow> (Inr (), t\<lparr>rt_conn := c, rt_inbuf := drop len (rt_inbuf t)\<rparr>))"

definition process_packets :: "'c TlsEngine \<Rightarrow> ('c RecordTlsServer, ErrorKind, unit) act" where
  "process_packets eng t =
    (case te_process eng (rt_conn t) of
       Inl _ \<Rightarrow> (Inl InvalidData, t)
     | Inr c \<Rightarrow> (Inr (), t\<lparr>rt_conn := c\<rparr>))"

definition flush_tls :: "'c TlsEngine \<Rightarrow> ('c RecordTlsServer, ErrorKind, unit) act" where
  "flush_tls eng t =
    (case te_pending eng (rt_conn t) of
       (out, c) \<Rightarrow>
         if out = [] then (Inr (), t\<lparr>rt_conn := c\<rparr>)
         else case write_all out (rt_tcp t) of (r, s) \<Rightarrow> (r, t\<lparr>rt_conn := c, rt_tcp := s\<rparr>))"

definition handshake_step :: "'c TlsEngine \<Rightarrow> ('c RecordTlsServer, ErrorKind, bool) act" where
  "handshake_step eng =
    abind (flush_tls eng) (\<lambda>_ t.
    if \<not> te_handshaking eng (rt_conn t) then (Inr True, t)
    else abind ensure_one_record (\<lambda>n.
      case n of
        None \<Rightarrow> afail UnexpectedEof
      | Some len \<Rightarrow>
          abind (feed_record eng len) (\<lambda>_.
          abind (process_packets eng) (\<lambda>_. aret False))) t)"

lemma ensure_one_record_Inr:
  "ensure_one_record t = (Inr n, t') \<Longrightarrow>
   rt_unread t' = rt_unread t \<and> rt_conn t' = rt_conn t \<and> tx (rt_tcp t') = tx (rt_tcp t) \<and>
   tx_room (rt_tcp t') = tx_room (rt_tcp t) \<and> rx_end (rt_tcp t') = rx_end (rt_tcp t) \<and> n = record_total (rt_inbuf t')"
proof (induction t rule: ensure_one_record.induct)
  case (1 t)
  show ?case
  proof (cases "record_total (rt_inbuf t)")
    case None
    then obtain b t1 where f: "rt_fill t = (Inr b, t1)"
      using 1(2) by (subst (asm) ensure_one_record.simps) (auto split: prod.splits sum.splits)
    note ff = rt_fill_Inr [OF f]
    show ?thesis
    proof (cases b)
      case True
      have "ensure_one_record t1 = (Inr n, t')"
        using 1(2) None f True by (subst (asm) ensure_one_record.simps) simp
      then show ?thesis
        using 1(1) [OF None f [symmetric] refl True] ff(1-5) by simp
    next
      case False
      then have "n = None" "t' = t1" "rt_inbuf t1 = rt_inbuf t"
        using 1(2) None f ff(7) by (subst (asm) ensure_one_record.simps, simp split: if_splits)+
      then show ?thesis
        using ff(1-5) None by simp
    qed
  next
    case (Some len)
    then show ?thesis
      using 1(2) by (subst (asm) ensure_one_record.simps) auto
  qed
qed

lemma record_total_bounds: "record_total b = Some n \<Longrightarrow> 5 \<le> n \<and> n \<le> length b"
  by (auto simp: record_total_def Let_def split: if_splits)

lemma flush_tls_Inr:
  "flush_tls eng t = (Inr u, t') \<Longrightarrow> rt_unread t' = rt_unread t \<and> rt_inbuf t' = rt_inbuf t"
  by (auto simp: flush_tls_def rt_unread_def dest!: write_all_Inr(2) split: prod.splits if_splits)

lemma handshake_step_consumes:
  assumes "handshake_step eng t = (Inr False, t')"
  shows "length (rt_unread t') < length (rt_unread t)"
proof -
  obtain u t1 n t2 v t3 w where s: "flush_tls eng t = (Inr u, t1)" "ensure_one_record t1 = (Inr (Some n), t2)"
      "feed_record eng n t2 = (Inr v, t3)" "process_packets eng t3 = (Inr w, t')"
    using assms by (auto simp: handshake_step_def abind_eq_Inr split: if_splits option.splits)
  have "rt_unread t2 = rt_unread t" "record_total (rt_inbuf t2) = Some n"
    using flush_tls_Inr [OF s(1)] ensure_one_record_Inr [OF s(2)] by simp_all
  moreover have "rt_unread t' = drop n (rt_inbuf t2) @ concat (rx (rt_tcp t2))"
    using s(3,4) by (auto simp: feed_record_def process_packets_def rt_unread_def split: sum.splits)
  moreover have "length (drop n (rt_inbuf t2) @ concat (rx (rt_tcp t2))) < length (rt_unread t2)"
    using record_total_bounds [of "rt_inbuf t2" n] \<open>record_total (rt_inbuf t2) = Some n\<close>
    by (auto simp: rt_unread_def intro!: diff_less)
  ultimately show ?thesis
    by simp
qed

function handshake :: "'c TlsEngine \<Rightarrow> ('c RecordTlsServer, ErrorKind, unit) act" where
  "handshake eng t =
    (case handshake_step eng t of
       (Inl e, t') \<Rightarrow> (Inl e, t')
     | (Inr finished, t') \<Rightarrow> if finished then (Inr (), t') else handshake eng t')"
  by pat_completeness auto
termination
  by (relation "measure (\<lambda>(eng, t). length (rt_unread t))") (auto dest: handshake_step_consumes [OF sym])

declare handshake.simps [simp del]

definition read_plaintext :: "'c TlsEngine \<Rightarrow> ('c RecordTlsServer, ErrorKind, bytes) act" where
  "read_plaintext eng t =
    (case te_plaintext eng (rt_conn t) of
       Inl e \<Rightarrow> (Inl e, t)
     | Inr (out, c) \<Rightarrow> (Inr out, t\<lparr>rt_conn := c\<rparr>))"

definition read_record_opt :: "'c TlsEngine \<Rightarrow> ('c RecordTlsServer, ErrorKind, bytes option) act" where
  "read_record_opt eng =
    abind ensure_one_record (\<lambda>n.
    case n of
      None \<Rightarrow> aret None
    | Some len \<Rightarrow>
        abind (feed_record eng len) (\<lambda>_.
        abind (process_packets eng) (\<lambda>_.
        abind (flush_tls eng) (\<lambda>_.
        abind (read_plaintext eng) (\<lambda>out. aret (Some out))))))"

definition read_record :: "'c TlsEngine \<Rightarrow> ('c RecordTlsServer, ErrorKind, bytes) act" where
  "read_record eng =
    abind (read_record_opt eng) (\<lambda>r. aret (case r of None \<Rightarrow> [] | Some pt \<Rightarrow> pt))"

definition write_plaintext :: "'c TlsEngine \<Rightarrow> bytes \<Rightarrow> ('c RecordTlsServer, ErrorKind, unit) act" where
  "write_plaintext eng data t =
    (case te_writer eng data (rt_conn t) of
       Inl e \<Rightarrow> (Inl e, t)
     | Inr c \<Rightarrow> flush_tls eng (t\<lparr>rt_conn := c\<rparr>))"

definition read_raw :: "nat \<Rightarrow> ('c RecordTlsServer, ErrorKind, bytes) act" where
  "read_raw room t =
    (if rt_inbuf t \<noteq> [] then
       let n = min (length (rt_inbuf t)) room
       in (Inr (take n (rt_inbuf t)), t\<lparr>rt_inbuf := drop n (rt_inbuf t)\<rparr>)
     else case read_some room (rt_tcp t) of (r, s) \<Rightarrow> (r, t\<lparr>rt_tcp := s\<rparr>))"

definition write_raw :: "bytes \<Rightarrow> ('c RecordTlsServer, ErrorKind, unit) act" where
  "write_raw data t = (case write_all data (rt_tcp t) of (r, s) \<Rightarrow> (r, t\<lparr>rt_tcp := s\<rparr>))"

definition rt_shutdown :: "'c RecordTlsServer \<Rightarrow> 'c RecordTlsServer" where
  "rt_shutdown t = t\<lparr>rt_tcp := sock_shutdown (rt_tcp t)\<rparr>"

definition into_raw :: "'c RecordTlsServer \<Rightarrow> Socket \<times> bytes" where
  "into_raw t = (rt_tcp t, rt_inbuf t)"

section \<open>What the driver relies on\<close>

definition tls_record :: "bytes \<Rightarrow> bool" where
  "tls_record r \<longleftrightarrow> record_total r = Some (length r)"

definition engine_ok ::
    "'c TlsEngine \<Rightarrow> ('c \<Rightarrow> nat) \<Rightarrow> ('c \<Rightarrow> nat) \<Rightarrow> (nat \<Rightarrow> bytes \<Rightarrow> bytes option) \<Rightarrow> (nat \<Rightarrow> bytes \<Rightarrow> bytes) \<Rightarrow> bool" where
  "engine_ok eng rseq wseq opens seals \<longleftrightarrow>
    (\<forall>c r p. opens (rseq c) r = Some p \<longrightarrow>
      (\<exists>c1 c2 c3. te_feed eng r c = Inr c1 \<and> te_process eng c1 = Inr c2 \<and> te_pending eng c2 = ([], c2) \<and>
        te_plaintext eng c2 = Inr (p, c3) \<and> rseq c3 = Suc (rseq c) \<and> wseq c3 = wseq c)) \<and>
    (\<forall>c p. 0 < length p \<and> length p \<le> DEFAULT_BUFFER_LIMIT \<longrightarrow>
      (\<exists>c1 c2. te_writer eng p c = Inr c1 \<and> te_pending eng c1 = (seals (wseq c) p, c2) \<and>
        rseq c2 = rseq c \<and> wseq c2 = Suc (wseq c))) \<and>
    (\<forall>c p. DEFAULT_BUFFER_LIMIT < length p \<longrightarrow> te_writer eng p c = Inl WriteZero)"

section \<open>Lemmas\<close>

text \<open>A complete record in front is found whatever the segmentation, and nothing else moves.\<close>

lemma record_total_append: "record_total b = Some n \<Longrightarrow> record_total (b @ r) = Some n"
  by (auto simp: record_total_def nth_append Let_def split: if_splits)

lemma record_total_None:
  assumes "record_total b = None" and "b @ m = r @ rest" and "tls_record r"
  shows "m \<noteq> []"
proof
  assume "m = []"
  then have "record_total b = Some (length r)"
    using assms(2,3) record_total_append [of r "length r" rest] by (simp add: tls_record_def)
  with assms(1) show False
    by simp
qed

lemma ensure_one_record_ok:
  "\<lbrakk>rt_unread t = r @ rest; tls_record r\<rbrakk> \<Longrightarrow>
   \<exists>t'. ensure_one_record t = (Inr (Some (length r)), t') \<and> rt_unread t' = rt_unread t \<and>
     take (length r) (rt_inbuf t') = r \<and> length r \<le> length (rt_inbuf t') \<and> rt_conn t' = rt_conn t \<and>
     tx (rt_tcp t') = tx (rt_tcp t) \<and> tx_room (rt_tcp t') = tx_room (rt_tcp t) \<and> rx_end (rt_tcp t') = rx_end (rt_tcp t)"
proof (induction t rule: ensure_one_record.induct)
  case (1 t)
  show ?case
  proof (cases "record_total (rt_inbuf t)")
    case None
    then have "concat (rx (rt_tcp t)) \<noteq> []"
      using record_total_None 1(2,3) by (simp add: rt_unread_def)
    then obtain b bs s where rd: "read_some READ_CHUNK (rt_tcp t) = (Inr (b # bs), s)"
      using read_some_nonempty [of READ_CHUNK "rt_tcp t"] by (auto simp: READ_CHUNK_def)
    then obtain t1 where f: "rt_fill t = (Inr True, t1)"
      by (simp add: rt_fill_def)
    have "rt_unread t1 = r @ rest"
      using rt_fill_Inr(1) [OF f] 1(2) by simp
    from 1(1) [OF None f [symmetric] refl TrueI this 1(3)] show ?thesis
      using None f rt_fill_Inr(1-5) [OF f] by (subst ensure_one_record.simps) simp
  next
    case (Some n)
    have "record_total (rt_unread t) = Some n"
      using record_total_append [OF Some] by (simp add: rt_unread_def)
    moreover have "record_total (rt_unread t) = Some (length r)"
      using record_total_append [of r "length r" rest] 1(2,3) by (simp add: tls_record_def)
    ultimately have "n = length r"
      by simp
    moreover have "length r \<le> length (rt_inbuf t)"
      using record_total_bounds [OF Some] \<open>n = length r\<close> by simp
    moreover have "take (length r) (rt_inbuf t) = r"
      using arg_cong [OF 1(2), of "take (length r)"] \<open>length r \<le> length (rt_inbuf t)\<close>
      by (simp add: rt_unread_def)
    ultimately show ?thesis
      using Some by (subst ensure_one_record.simps) simp
  qed
qed

lemma ensure_one_record_eof:
  "\<lbrakk>rt_unread t = []; rx_end (rt_tcp t) = None\<rbrakk> \<Longrightarrow>
   \<exists>t'. ensure_one_record t = (Inr None, t') \<and> rt_unread t' = [] \<and> rt_conn t' = rt_conn t \<and>
     tx (rt_tcp t') = tx (rt_tcp t) \<and> tx_room (rt_tcp t') = tx_room (rt_tcp t) \<and> rx_end (rt_tcp t') = None"
proof -
  assume a: "rt_unread t = []" "rx_end (rt_tcp t) = None"
  obtain bs s where rd: "read_some READ_CHUNK (rt_tcp t) = (Inr bs, s)"
    using read_some_eof [OF a(2)] by metis
  then have "bs = []"
    using read_some_Inr(1) [OF rd] a(1) by (simp add: rt_unread_def)
  with rd have f: "rt_fill t = (Inr False, t\<lparr>rt_tcp := s\<rparr>)"
    by (simp add: rt_fill_def)
  show ?thesis
    using a f read_some_Inr [OF rd] by (subst ensure_one_record.simps) (simp add: rt_unread_def record_total_def)
qed

lemma read_record_opt_ok:
  assumes "engine_ok eng rseq wseq opens seals"
    and "rt_unread t = r @ rest" and "tls_record r" and "opens (rseq (rt_conn t)) r = Some p"
  shows "\<exists>t'. read_record_opt eng t = (Inr (Some p), t') \<and> rt_unread t' = rest \<and>
    rseq (rt_conn t') = Suc (rseq (rt_conn t)) \<and> wseq (rt_conn t') = wseq (rt_conn t) \<and>
    tx (rt_tcp t') = tx (rt_tcp t) \<and> tx_room (rt_tcp t') = tx_room (rt_tcp t) \<and> rx_end (rt_tcp t') = rx_end (rt_tcp t)"
proof -
  obtain t1 where e: "ensure_one_record t = (Inr (Some (length r)), t1)" "rt_unread t1 = rt_unread t"
      "take (length r) (rt_inbuf t1) = r" "length r \<le> length (rt_inbuf t1)" "rt_conn t1 = rt_conn t"
      "tx (rt_tcp t1) = tx (rt_tcp t)" "tx_room (rt_tcp t1) = tx_room (rt_tcp t)" "rx_end (rt_tcp t1) = rx_end (rt_tcp t)"
    using ensure_one_record_ok [OF assms(2,3)] by blast
  obtain c1 c2 c3 where c: "te_feed eng r (rt_conn t) = Inr c1" "te_process eng c1 = Inr c2"
      "te_pending eng c2 = ([], c2)" "te_plaintext eng c2 = Inr (p, c3)"
      "rseq c3 = Suc (rseq (rt_conn t))" "wseq c3 = wseq (rt_conn t)"
    using assms(1,4) unfolding engine_ok_def by blast
  have "drop (length r) (rt_unread t1) = rest"
    using e(2) assms(2) by simp
  then have "drop (length r) (rt_inbuf t1) @ concat (rx (rt_tcp t1)) = rest"
    using e(4) by (simp add: rt_unread_def)
  then show ?thesis
    using e c
    by (simp add: read_record_opt_def abind_def feed_record_def process_packets_def flush_tls_def
        read_plaintext_def rt_unread_def)
qed

lemma read_record_opt_eof:
  assumes "rt_unread t = []" and "rx_end (rt_tcp t) = None"
  shows "\<exists>t'. read_record_opt eng t = (Inr None, t') \<and> rt_unread t' = [] \<and> rt_conn t' = rt_conn t \<and>
     tx (rt_tcp t') = tx (rt_tcp t) \<and> tx_room (rt_tcp t') = tx_room (rt_tcp t) \<and> rx_end (rt_tcp t') = None"
  using ensure_one_record_eof [OF assms] by (auto simp: read_record_opt_def abind_def)

lemma write_plaintext_ok:
  assumes "engine_ok eng rseq wseq opens seals" and "0 < length p" and "length p \<le> DEFAULT_BUFFER_LIMIT"
    and "tx_room (rt_tcp t) = None"
  shows "\<exists>t'. write_plaintext eng p t = (Inr (), t') \<and> rt_unread t' = rt_unread t \<and>
    tx (rt_tcp t') = tx (rt_tcp t) @ seals (wseq (rt_conn t)) p \<and> tx_room (rt_tcp t') = None \<and>
    rx_end (rt_tcp t') = rx_end (rt_tcp t) \<and>
    rseq (rt_conn t') = rseq (rt_conn t) \<and> wseq (rt_conn t') = Suc (wseq (rt_conn t))"
proof -
  obtain c1 c2 where "te_writer eng p (rt_conn t) = Inr c1" "te_pending eng c1 = (seals (wseq (rt_conn t)) p, c2)"
      "rseq c2 = rseq (rt_conn t)" "wseq c2 = Suc (wseq (rt_conn t))"
    using assms(1-3) unfolding engine_ok_def by blast
  then show ?thesis
    using assms(4) by (simp add: write_plaintext_def flush_tls_def write_all_open rt_unread_def)
qed

lemma write_plaintext_refused:
  "\<lbrakk>engine_ok eng rseq wseq opens seals; DEFAULT_BUFFER_LIMIT < length p\<rbrakk> \<Longrightarrow> write_plaintext eng p t = (Inl WriteZero, t)"
  by (simp add: write_plaintext_def engine_ok_def)

lemma read_raw_ok:
  assumes "0 < room" and "rt_unread t \<noteq> []"
  shows "\<exists>b bs t'. read_raw room t = (Inr (b # bs), t') \<and> rt_unread t = b # bs @ rt_unread t' \<and>
    rt_conn t' = rt_conn t \<and> tx (rt_tcp t') = tx (rt_tcp t) \<and> tx_room (rt_tcp t') = tx_room (rt_tcp t) \<and>
    rx_end (rt_tcp t') = rx_end (rt_tcp t)"
proof (cases "rt_inbuf t")
  case Nil
  then have "concat (rx (rt_tcp t)) \<noteq> []"
    using assms(2) by (simp add: rt_unread_def)
  then obtain b bs s where rd: "read_some room (rt_tcp t) = (Inr (b # bs), s)"
    using read_some_nonempty [OF assms(1)] by blast
  show ?thesis
    using read_some_Inr [OF rd] rd Nil by (simp add: read_raw_def rt_unread_def)
next
  case (Cons a as)
  moreover obtain n where "room = Suc n"
    using assms(1) gr0_conv_Suc by auto
  ultimately show ?thesis
    by (auto simp: read_raw_def rt_unread_def Let_def min_def)
qed

lemma read_raw_eof:
  assumes "rt_unread t = []" and "rx_end (rt_tcp t) = None"
  shows "\<exists>t'. read_raw room t = (Inr [], t') \<and> rt_unread t' = [] \<and> rt_conn t' = rt_conn t \<and>
    tx (rt_tcp t') = tx (rt_tcp t) \<and> tx_room (rt_tcp t') = tx_room (rt_tcp t) \<and> rx_end (rt_tcp t') = None"
proof -
  obtain bs s where rd: "read_some room (rt_tcp t) = (Inr bs, s)"
    using read_some_eof [OF assms(2)] by metis
  show ?thesis
    using read_some_Inr [OF rd] rd assms by (auto simp: read_raw_def rt_unread_def)
qed

end
