(* ===== verification/Metrics.thy ===== *)
theory Metrics
  imports Async_Io
begin

text \<open>
  The server's counters (\<^verbatim>\<open>donut-server/src/metrics.rs\<close>): the atomics, one definition per
  method, the latency histogram and the Prometheus text.  A counter is a 64-bit word and
  wraps as \<^verbatim>\<open>fetch_add\<close> does; a gauge is read as a signed one.  A \<^verbatim>\<open>Duration\<close> is a number of
  nanoseconds.  The text of a floating-point sum is a parameter of the rendering.
\<close>

section \<open>Kinds\<close>

datatype SessionKind = KTcp | KUdp | KMux

datatype SessErr = EReset | ETimeout | EEof | EUnsupported | EDial | ETls | EOther

fun sess_err_from_io :: "ErrorKind \<Rightarrow> SessErr" where
  "sess_err_from_io ConnectionReset = EReset"
| "sess_err_from_io ConnectionAborted = EReset"
| "sess_err_from_io BrokenPipe = EReset"
| "sess_err_from_io TimedOut = ETimeout"
| "sess_err_from_io UnexpectedEof = EEof"
| "sess_err_from_io _ = EOther"

section \<open>Histogram\<close>

record Histogram =
  hg_buckets :: "u64 list"
  hg_sum_micros :: u64
  hg_count :: u64

text \<open>
  The bounds of the source are 0.005 to 2.5 seconds; here in nanoseconds.  Two durations
  below three seconds that differ do so by at least a nanosecond, which a double keeps.
\<close>

definition BOUNDS :: "nat list" where
  "BOUNDS = [5000000, 10000000, 25000000, 50000000, 100000000, 250000000, 500000000, 1000000000, 2500000000]"

definition histogram_default :: Histogram where
  "histogram_default = \<lparr>hg_buckets = replicate (length BOUNDS + 1) 0, hg_sum_micros = 0, hg_count = 0\<rparr>"

definition bucket_index :: "nat \<Rightarrow> nat" where
  "bucket_index d = length (takeWhile (\<lambda>b. \<not> d \<le> b) BOUNDS)"

definition hg_observe :: "nat \<Rightarrow> Histogram \<Rightarrow> Histogram" where
  "hg_observe d h =
    h\<lparr>hg_sum_micros := hg_sum_micros h + of_nat (d div 1000), hg_count := hg_count h + 1,
      hg_buckets := (hg_buckets h)[bucket_index d := hg_buckets h ! bucket_index d + 1]\<rparr>"

text \<open>The cumulative counts of the rendering, the last one for \<^verbatim>\<open>+Inf\<close>.\<close>

definition hg_cumulative :: "Histogram \<Rightarrow> u64 list" where
  "hg_cumulative h = map (\<lambda>i. sum_list (take (Suc i) (hg_buckets h))) [0..<Suc (length BOUNDS)]"

section \<open>Counters\<close>

record Metrics =
  mx_connections_total :: u64
  mx_active_connections :: u64
  mx_active_tcp :: u64
  mx_active_udp :: u64
  mx_active_mux :: u64
  mx_handshakes_tunnel :: u64
  mx_handshakes_forward :: u64
  mx_rejected_unauthorized :: u64
  mx_probes_total :: u64
  mx_blackhole_total :: u64
  mx_bytes_up :: u64
  mx_bytes_down :: u64
  mx_sessions_ok :: u64
  mx_sessions_error :: u64
  mx_err :: "SessErr \<Rightarrow> u64"
  mx_dial :: Histogram

definition metrics_new :: Metrics where
  "metrics_new =
    \<lparr>mx_connections_total = 0, mx_active_connections = 0, mx_active_tcp = 0, mx_active_udp = 0,
     mx_active_mux = 0, mx_handshakes_tunnel = 0, mx_handshakes_forward = 0, mx_rejected_unauthorized = 0,
     mx_probes_total = 0, mx_blackhole_total = 0, mx_bytes_up = 0, mx_bytes_down = 0, mx_sessions_ok = 0,
     mx_sessions_error = 0, mx_err = (\<lambda>_. 0), mx_dial = histogram_default\<rparr>"

definition connection_accepted :: "Metrics \<Rightarrow> Metrics" where
  "connection_accepted m = m\<lparr>mx_connections_total := mx_connections_total m + 1\<rparr>"

fun kind_gauge_add :: "u64 \<Rightarrow> SessionKind \<Rightarrow> Metrics \<Rightarrow> Metrics" where
  "kind_gauge_add d KTcp m = m\<lparr>mx_active_tcp := mx_active_tcp m + d\<rparr>"
| "kind_gauge_add d KUdp m = m\<lparr>mx_active_udp := mx_active_udp m + d\<rparr>"
| "kind_gauge_add d KMux m = m\<lparr>mx_active_mux := mx_active_mux m + d\<rparr>"

definition tunnel_started_kind :: "SessionKind \<Rightarrow> Metrics \<Rightarrow> Metrics" where
  "tunnel_started_kind kind m =
    kind_gauge_add 1 kind
      (m\<lparr>mx_handshakes_tunnel := mx_handshakes_tunnel m + 1, mx_active_connections := mx_active_connections m + 1\<rparr>)"

definition tunnel_started :: "Metrics \<Rightarrow> Metrics" where
  "tunnel_started m = tunnel_started_kind KTcp m"

text \<open>The drop of an \<open>ActiveGuard\<close>.\<close>

definition guard_drop :: "SessionKind \<Rightarrow> Metrics \<Rightarrow> Metrics" where
  "guard_drop kind m = kind_gauge_add (- 1) kind (m\<lparr>mx_active_connections := mx_active_connections m - 1\<rparr>)"

definition forwarded :: "Metrics \<Rightarrow> Metrics" where
  "forwarded m = m\<lparr>mx_handshakes_forward := mx_handshakes_forward m + 1\<rparr>"

definition rejected_unauthorized :: "Metrics \<Rightarrow> Metrics" where
  "rejected_unauthorized m = m\<lparr>mx_rejected_unauthorized := mx_rejected_unauthorized m + 1\<rparr>"

definition probe :: "Metrics \<Rightarrow> Metrics" where
  "probe m = m\<lparr>mx_probes_total := mx_probes_total m + 1\<rparr>"

definition blackholed :: "Metrics \<Rightarrow> Metrics" where
  "blackholed m = m\<lparr>mx_blackhole_total := mx_blackhole_total m + 1\<rparr>"

definition add_bytes :: "nat \<Rightarrow> nat \<Rightarrow> Metrics \<Rightarrow> Metrics" where
  "add_bytes up down m =
    m\<lparr>mx_bytes_up := mx_bytes_up m + of_nat up, mx_bytes_down := mx_bytes_down m + of_nat down\<rparr>"

definition session_ok :: "Metrics \<Rightarrow> Metrics" where
  "session_ok m = m\<lparr>mx_sessions_ok := mx_sessions_ok m + 1\<rparr>"

definition session_error :: "SessErr \<Rightarrow> Metrics \<Rightarrow> Metrics" where
  "session_error kind m =
    m\<lparr>mx_sessions_error := mx_sessions_error m + 1, mx_err := (mx_err m)(kind := mx_err m kind + 1)\<rparr>"

definition observe_dial :: "nat \<Rightarrow> Metrics \<Rightarrow> Metrics" where
  "observe_dial d m = m\<lparr>mx_dial := hg_observe d (mx_dial m)\<rparr>"

section \<open>Rendering\<close>

definition show_u64 :: "u64 \<Rightarrow> rstr" where
  "show_u64 w = show_nat (unat w)"

definition show_i64 :: "u64 \<Rightarrow> rstr" where
  "show_i64 w = (if sint w < 0 then [45] @ show_nat (nat (- sint w)) else show_nat (nat (sint w)))"

definition series_head :: "string \<Rightarrow> string \<Rightarrow> string \<Rightarrow> rstr" where
  "series_head name help ty =
    str ''# HELP '' @ str name @ [32] @ str help @ [10] @ str ''# TYPE '' @ str name @ [32] @ str ty @ [10]"

definition sample_line :: "string \<Rightarrow> rstr \<Rightarrow> rstr" where
  "sample_line name v = str name @ [32] @ v @ [10]"

definition labelled :: "string \<Rightarrow> string \<Rightarrow> string \<Rightarrow> rstr \<Rightarrow> rstr" where
  "labelled name key val v =
    str name @ [123] @ str key @ [61, 34] @ str val @ [34, 125, 32] @ v @ [10]"

definition BOUND_TEXTS :: "string list" where
  "BOUND_TEXTS = [''0.005'', ''0.01'', ''0.025'', ''0.05'', ''0.1'', ''0.25'', ''0.5'', ''1'', ''2.5'']"

definition hg_render :: "(u64 \<Rightarrow> rstr) \<Rightarrow> string \<Rightarrow> string \<Rightarrow> Histogram \<Rightarrow> rstr" where
  "hg_render show_secs name help h =
    series_head name help ''histogram'' @
    concat (map (\<lambda>(b, c). labelled (name @ ''_bucket'') ''le'' b (show_u64 c))
      (zip (BOUND_TEXTS @ [''+Inf'']) (hg_cumulative h))) @
    sample_line (name @ ''_sum'') (show_secs (hg_sum_micros h)) @
    sample_line (name @ ''_count'') (show_u64 (hg_count h))"

definition metrics_render :: "(u64 \<Rightarrow> rstr) \<Rightarrow> rstr \<Rightarrow> Metrics \<Rightarrow> rstr" where
  "metrics_render show_secs proc m =
    series_head ''donut_connections_total'' ''Total connections accepted on the public listener.'' ''counter'' @
    sample_line ''donut_connections_total'' (show_u64 (mx_connections_total m)) @
    series_head ''donut_active_connections'' ''Currently active tunnelled connections.'' ''gauge'' @
    sample_line ''donut_active_connections'' (show_i64 (mx_active_connections m)) @
    series_head ''donut_active_sessions'' ''Currently active tunnel sessions by transport (leak localisation).'' ''gauge'' @
    labelled ''donut_active_sessions'' ''kind'' ''tcp'' (show_i64 (mx_active_tcp m)) @
    labelled ''donut_active_sessions'' ''kind'' ''udp'' (show_i64 (mx_active_udp m)) @
    labelled ''donut_active_sessions'' ''kind'' ''mux'' (show_i64 (mx_active_mux m)) @
    series_head ''donut_handshakes_total'' ''Connection triage outcomes (tunnel vs decoy self-steal).'' ''counter'' @
    labelled ''donut_handshakes_total'' ''result'' ''tunnel'' (show_u64 (mx_handshakes_tunnel m)) @
    labelled ''donut_handshakes_total'' ''result'' ''forward'' (show_u64 (mx_handshakes_forward m)) @
    series_head ''donut_rejected_unauthorized_total'' ''Tunnel sessions dropped for an unknown VLESS UUID.'' ''counter'' @
    sample_line ''donut_rejected_unauthorized_total'' (show_u64 (mx_rejected_unauthorized m)) @
    series_head ''donut_probes_total'' ''TCP peers that reset/closed before a TLS ClientHello (scans / health checks).'' ''counter'' @
    sample_line ''donut_probes_total'' (show_u64 (mx_probes_total m)) @
    series_head ''donut_blackhole_total'' ''Connections dropped by a routing block rule.'' ''counter'' @
    sample_line ''donut_blackhole_total'' (show_u64 (mx_blackhole_total m)) @
    series_head ''donut_bytes_total'' ''Proxied bytes by direction.'' ''counter'' @
    labelled ''donut_bytes_total'' ''direction'' ''up'' (show_u64 (mx_bytes_up m)) @
    labelled ''donut_bytes_total'' ''direction'' ''down'' (show_u64 (mx_bytes_down m)) @
    series_head ''donut_sessions_total'' ''Tunnel session outcomes.'' ''counter'' @
    labelled ''donut_sessions_total'' ''outcome'' ''ok'' (show_u64 (mx_sessions_ok m)) @
    labelled ''donut_sessions_total'' ''outcome'' ''error'' (show_u64 (mx_sessions_error m)) @
    series_head ''donut_session_errors_total'' ''Tunnel session errors by kind.'' ''counter'' @
    labelled ''donut_session_errors_total'' ''kind'' ''reset'' (show_u64 (mx_err m EReset)) @
    labelled ''donut_session_errors_total'' ''kind'' ''timeout'' (show_u64 (mx_err m ETimeout)) @
    labelled ''donut_session_errors_total'' ''kind'' ''eof'' (show_u64 (mx_err m EEof)) @
    labelled ''donut_session_errors_total'' ''kind'' ''unsupported_command'' (show_u64 (mx_err m EUnsupported)) @
    labelled ''donut_session_errors_total'' ''kind'' ''dial_failed'' (show_u64 (mx_err m EDial)) @
    labelled ''donut_session_errors_total'' ''kind'' ''tls_handshake'' (show_u64 (mx_err m ETls)) @
    labelled ''donut_session_errors_total'' ''kind'' ''other'' (show_u64 (mx_err m EOther)) @
    hg_render show_secs ''donut_upstream_dial_seconds'' ''Time to establish the upstream (target) TCP connection.'' (mx_dial m) @
    proc"

section \<open>Lemmas\<close>

text \<open>A guard puts every gauge back; what stays is the count of handshakes.\<close>

lemma guard_balanced:
  "guard_drop kind (tunnel_started_kind kind m) = m\<lparr>mx_handshakes_tunnel := mx_handshakes_tunnel m + 1\<rparr>"
  by (cases kind) (simp_all add: guard_drop_def tunnel_started_kind_def)

lemma bucket_index_bound: "bucket_index d \<le> length BOUNDS"
  by (simp add: bucket_index_def length_takeWhile_le)

lemma sum_list_update_add:
  "i < length xs \<Longrightarrow> sum_list (xs[i := xs ! i + (d :: u64)]) = sum_list xs + d"
  by (induction xs arbitrary: i) (auto split: nat.splits simp: algebra_simps)

text \<open>
  After any observations there is a bucket for every bound and the last cumulative count is
  the number of observations, both modulo the counters' width.
\<close>

definition hg_ok :: "Histogram \<Rightarrow> bool" where
  "hg_ok h \<longleftrightarrow> length (hg_buckets h) = Suc (length BOUNDS) \<and> last (hg_cumulative h) = hg_count h"

lemma hg_last: "length (hg_buckets h) = Suc (length BOUNDS) \<Longrightarrow> last (hg_cumulative h) = sum_list (hg_buckets h)"
  by (simp add: hg_cumulative_def)

lemma hg_observe_ok: "hg_ok h \<Longrightarrow> hg_ok (hg_observe d h)"
  using bucket_index_bound [of d] hg_last [of h] hg_last [of "hg_observe d h"]
  by (simp add: hg_ok_def hg_observe_def sum_list_update_add)

lemma hg_default_ok: "hg_ok histogram_default"
  by (simp add: hg_ok_def hg_last histogram_default_def sum_list_replicate)

lemma histogram_consistent: "hg_ok (foldl (\<lambda>h d. hg_observe d h) histogram_default ds)"
proof (induction ds rule: rev_induct)
  case (snoc d ds)
  then show ?case
    by (simp add: hg_observe_ok)
qed (simp add: hg_default_ok)

end
