(* ===== verification/Vision_Splice.thy ===== *)
theory Vision_Splice
  imports Vision_Codec Record_Tls Metrics
begin

text \<open>
  \<^verbatim>\<open>vision_server_splice\<close> and \<^verbatim>\<open>tls_plain_relay\<close> (\<^verbatim>\<open>donut-server/src/vision_xray_splice.rs\<close>): the
  server's Vision data plane.  Uplink records are unpadded and written to the target until the
  client's Direct block, then the raw socket is read; downlink chunks are padded into the outer
  TLS until the server decides to leave it, then written raw; once both directions are raw the
  sockets are handed to a plain copy.

  \<^verbatim>\<open>tokio::select!\<close> is a schedule: a list of events naming the branch that completes next, with
  the random draw of the padding, or an uplink read that was polled, buffered what had arrived and
  was dropped because the other branch won.  A branch whose guard is off is not taken.  The copy
  at the end is a parameter; an idle timeout shows as an error of a stream.
\<close>

declare concat_eq_Nil_conv [simp del] Nil_eq_concat_conv [simp del]

section \<open>State\<close>

definition TLS_APP_DATA_START :: bytes where "TLS_APP_DATA_START = [0x17, 0x03, 0x03]"

record 'c Splice =
  sp_tunnel :: "'c RecordTlsServer"
  sp_upstream :: Socket
  sp_filter :: FilterState
  sp_unp :: Unpadder
  sp_up_spliced :: bool
  sp_up_done :: bool
  sp_uuid_once :: "bytes option"
  sp_is_padding :: bool
  sp_down_spliced :: bool
  sp_down_done :: bool
  sp_metrics :: Metrics

definition splice_new :: "'c RecordTlsServer \<Rightarrow> Socket \<Rightarrow> bytes \<Rightarrow> Metrics \<Rightarrow> 'c Splice" where
  "splice_new tunnel upstream uuid metrics =
    \<lparr>sp_tunnel = tunnel, sp_upstream = upstream, sp_filter = filter_default, sp_unp = unpadder_new uuid,
     sp_up_spliced = False, sp_up_done = False, sp_uuid_once = Some uuid, sp_is_padding = True,
     sp_down_spliced = False, sp_down_done = False, sp_metrics = metrics\<rparr>"

definition filtered :: "bytes \<Rightarrow> FilterState \<Rightarrow> FilterState" where
  "filtered chunk f = (if number_to_filter f > 0 then filter_tls f chunk else f)"

definition up_write :: "bytes \<Rightarrow> ('c Splice, ErrorKind, unit) act" where
  "up_write data st =
    (case write_all data (sp_upstream st) of
       (Inl e, u) \<Rightarrow> (Inl e, st\<lparr>sp_upstream := u\<rparr>)
     | (Inr _, u) \<Rightarrow>
         (Inr (), st\<lparr>sp_upstream := u, sp_metrics := add_bytes (length data) 0 (sp_metrics st)\<rparr>))"

text \<open>One piece of uplink plaintext: unpad, filter, forward, and note the Direct command.\<close>

definition sp_push :: "bytes \<Rightarrow> ('c Splice, ErrorKind, unit) act" where
  "sp_push data st =
    (let (u, content) = unpadder_push (sp_unp st) data; st = st\<lparr>sp_unp := u\<rparr> in
     case (if content = [] then (Inr (), st)
           else up_write content (st\<lparr>sp_filter := filtered content (sp_filter st)\<rparr>)) of
       (Inl e, st) \<Rightarrow> (Inl e, st)
     | (Inr _, st) \<Rightarrow> (Inr (), if up_direct u then st\<lparr>sp_up_spliced := True\<rparr> else st))"

section \<open>Branches\<close>

datatype UplinkRead = URecord bytes | URaw bytes | UEof

definition read_uplink :: "'c TlsEngine \<Rightarrow> bool \<Rightarrow> ('c RecordTlsServer, ErrorKind, UplinkRead) act" where
  "read_uplink eng spliced =
    (if spliced then abind (read_raw READ_CHUNK) (\<lambda>bs. aret (if bs = [] then UEof else URaw bs))
     else abind (read_record_opt eng) (\<lambda>r. aret (case r of None \<Rightarrow> UEof | Some pt \<Rightarrow> URecord pt)))"

definition sp_uplink :: "'c TlsEngine \<Rightarrow> ('c Splice, ErrorKind, unit) act" where
  "sp_uplink eng st =
    (case read_uplink eng (sp_up_spliced st) (sp_tunnel st) of
       (Inl e, t) \<Rightarrow> (Inl e, st\<lparr>sp_tunnel := t\<rparr>)
     | (Inr UEof, t) \<Rightarrow>
         (Inr (), st\<lparr>sp_tunnel := t, sp_up_done := True, sp_upstream := sock_shutdown (sp_upstream st)\<rparr>)
     | (Inr (URecord pt), t) \<Rightarrow>
         if pt = [] then (Inr (), st\<lparr>sp_tunnel := t\<rparr>) else sp_push pt (st\<lparr>sp_tunnel := t\<rparr>)
     | (Inr (URaw bs), t) \<Rightarrow> up_write bs (st\<lparr>sp_tunnel := t\<rparr>))"

definition down_write :: "('c RecordTlsServer, ErrorKind, unit) act \<Rightarrow> ('c Splice, ErrorKind, unit) act" where
  "down_write m st = (case m (sp_tunnel st) of (r, t) \<Rightarrow> (r, st\<lparr>sp_tunnel := t\<rparr>))"

definition down_command :: "FilterState \<Rightarrow> bytes \<Rightarrow> u8" where
  "down_command f chunk =
    (if is_tls f \<and> 6 \<le> length chunk \<and> take 3 chunk = TLS_APP_DATA_START \<and> is_complete_record chunk then
       (if enable_xtls f then CMD_PADDING_DIRECT else CMD_PADDING_END)
     else CMD_PADDING_CONTINUE)"

definition sp_chunk :: "'c TlsEngine \<Rightarrow> nat \<Rightarrow> bytes \<Rightarrow> ('c Splice, ErrorKind, unit) act" where
  "sp_chunk eng draw chunk st =
    (if sp_down_spliced st then down_write (write_raw chunk) st
     else
       let f = filtered chunk (sp_filter st); st = st\<lparr>sp_filter := f\<rparr> in
       if sp_is_padding st then
         let command = down_command f chunk;
             (once, block) = xtls_padding chunk command (sp_uuid_once st) (is_tls f) DEFAULT_SEED draw;
             st = st\<lparr>sp_uuid_once := once, sp_is_padding := (command = CMD_PADDING_CONTINUE)\<rparr>
         in case down_write (write_plaintext eng block) st of
              (Inl e, st) \<Rightarrow> (Inl e, st)
            | (Inr _, st) \<Rightarrow> (Inr (), st\<lparr>sp_down_spliced := (command = CMD_PADDING_DIRECT)\<rparr>)
       else down_write (write_plaintext eng chunk) st)"

definition sp_downlink :: "'c TlsEngine \<Rightarrow> nat \<Rightarrow> ('c Splice, ErrorKind, unit) act" where
  "sp_downlink eng draw st =
    (case read_some READ_CHUNK (sp_upstream st) of
       (Inl e, u) \<Rightarrow> (Inl e, st\<lparr>sp_upstream := u\<rparr>)
     | (Inr chunk, u) \<Rightarrow>
         if chunk = [] then
           (Inr (), st\<lparr>sp_upstream := u, sp_down_done := True, sp_tunnel := rt_shutdown (sp_tunnel st)\<rparr>)
         else
           sp_chunk eng draw chunk
             (st\<lparr>sp_upstream := u, sp_metrics := add_bytes 0 (length chunk) (sp_metrics st)\<rparr>))"

text \<open>A dropped uplink read: it had filled the buffer without completing a record.\<close>

definition sp_cancelled :: "'c Splice \<Rightarrow> 'c Splice" where
  "sp_cancelled st =
    (if sp_up_spliced st \<or> record_total (rt_inbuf (sp_tunnel st)) \<noteq> None then st
     else case rt_fill (sp_tunnel st) of (Inr True, t) \<Rightarrow> st\<lparr>sp_tunnel := t\<rparr> | _ \<Rightarrow> st)"

section \<open>The loop\<close>

datatype SpliceEvent = EvUplink | EvDownlink nat | EvCancelled

fun splice_step :: "'c TlsEngine \<Rightarrow> SpliceEvent \<Rightarrow> ('c Splice, ErrorKind, unit) act" where
  "splice_step eng EvUplink st = (if sp_up_done st then (Inr (), st) else sp_uplink eng st)"
| "splice_step eng (EvDownlink draw) st = (if sp_down_done st then (Inr (), st) else sp_downlink eng draw st)"
| "splice_step eng EvCancelled st = (Inr (), if sp_up_done st then st else sp_cancelled st)"

definition splice_over :: "'c Splice \<Rightarrow> bool" where
  "splice_over st \<longleftrightarrow> sp_up_spliced st \<and> sp_down_spliced st \<or> sp_up_done st \<and> sp_down_done st"

text \<open>The result tells whether the loop was left or the schedule ran out first.\<close>

fun splice_loop :: "'c TlsEngine \<Rightarrow> SpliceEvent list \<Rightarrow> ('c Splice, ErrorKind, bool) act" where
  "splice_loop eng [] st = (Inr (splice_over st), st)"
| "splice_loop eng (ev # evs) st =
    (if splice_over st then (Inr True, st)
     else case splice_step eng ev st of
       (Inl e, st) \<Rightarrow> (Inl e, st)
     | (Inr _, st) \<Rightarrow> splice_loop eng evs st)"

definition splice_handoff ::
    "(Socket \<Rightarrow> Socket \<Rightarrow> Socket \<times> Socket \<times> (nat \<times> nat) option) \<Rightarrow> ('c Splice, ErrorKind, unit) act" where
  "splice_handoff copy st =
    (if sp_up_spliced st \<and> sp_down_spliced st \<and> \<not> (sp_up_done st \<and> sp_down_done st) then
       let (tcp, rest) = into_raw (sp_tunnel st) in
       case (if rest = [] then (Inr (), st) else up_write rest st) of
         (Inl e, st) \<Rightarrow> (Inl e, st)
       | (Inr _, st) \<Rightarrow>
           let (tcp, up, n) = copy tcp (sp_upstream st) in
           (Inr (), st\<lparr>sp_tunnel := (sp_tunnel st)\<lparr>rt_tcp := sock_shutdown tcp, rt_inbuf := []\<rparr>,
                       sp_upstream := sock_shutdown up,
                       sp_metrics := (case n of None \<Rightarrow> sp_metrics st | Some (a, b) \<Rightarrow> add_bytes a b (sp_metrics st))\<rparr>)
     else (Inr (), st))"

definition vision_server_splice ::
    "'c TlsEngine \<Rightarrow> (Socket \<Rightarrow> Socket \<Rightarrow> Socket \<times> Socket \<times> (nat \<times> nat) option) \<Rightarrow> SpliceEvent list
      \<Rightarrow> 'c RecordTlsServer \<Rightarrow> Socket \<Rightarrow> bytes \<Rightarrow> bytes \<Rightarrow> Metrics \<Rightarrow> (ErrorKind + bool) \<times> 'c Splice" where
  "vision_server_splice eng copy evs tunnel upstream leftover uuid metrics =
    abind (if leftover = [] then aret () else sp_push leftover) (\<lambda>_.
    abind (splice_loop eng evs) (\<lambda>over.
    abind (splice_handoff copy) (\<lambda>_. aret over)))
    (splice_new tunnel upstream uuid metrics)"

section \<open>Invariants\<close>

text \<open>
  What the client put on the wire: complete records \<open>recs\<close> that open to \<open>pts\<close>, then raw bytes.
  The records end with the one that completes the Direct block, if there is one.
\<close>

abbreviation vout :: "bytes \<Rightarrow> bytes \<Rightarrow> vstate \<times> bytes" where
  "vout uuid \<equiv> vrun uuid (VDetect [])"

definition client_wire ::
    "(nat \<Rightarrow> bytes \<Rightarrow> bytes option) \<Rightarrow> nat \<Rightarrow> bytes \<Rightarrow> bytes \<Rightarrow> bytes list \<Rightarrow> bytes list \<Rightarrow> bytes \<Rightarrow> bool" where
  "client_wire opens n uuid leftover recs pts raw \<longleftrightarrow>
    length pts = length recs \<and>
    (\<forall>i < length recs. tls_record (recs ! i) \<and> opens (n + i) (recs ! i) = Some (pts ! i)) \<and>
    (\<forall>k < length recs. fst (vout uuid (leftover @ concat (take k pts))) \<noteq> VRaw (Some 2)) \<and>
    (raw \<noteq> [] \<longrightarrow> fst (vout uuid (leftover @ concat pts)) = VRaw (Some 2))"

text \<open>The uplink: \<open>k\<close> records read and forwarded, or all of them and part of the raw bytes.\<close>

definition up_ok ::
    "('c \<Rightarrow> nat) \<Rightarrow> nat \<Rightarrow> bytes \<Rightarrow> bytes \<Rightarrow> bytes list \<Rightarrow> bytes list \<Rightarrow> bytes \<Rightarrow> 'c Splice \<Rightarrow> bool" where
  "up_ok rseq n uuid leftover recs pts raw st \<longleftrightarrow>
    rx_end (rt_tcp (sp_tunnel st)) = None \<and> tx_room (sp_upstream st) = None \<and>
    (if sp_up_spliced st then
       \<exists>sent. raw = sent @ rt_unread (sp_tunnel st) \<and>
         tx (sp_upstream st) = snd (vout uuid (leftover @ concat pts)) @ sent
     else
       \<exists>k \<le> length recs. rt_unread (sp_tunnel st) = concat (drop k recs) @ raw \<and>
         rseq (rt_conn (sp_tunnel st)) = n + k \<and> unpadder_inv uuid (sp_unp st) \<and> \<not> up_direct (sp_unp st) \<and>
         vout uuid (leftover @ concat (take k pts)) = (up_abs (sp_unp st), tx (sp_upstream st))) \<and>
    (sp_up_done st \<longrightarrow> rt_unread (sp_tunnel st) = [])"

text \<open>The downlink: plaintexts \<open>ps\<close> sealed in order, then raw bytes.\<close>

definition sealed :: "(nat \<Rightarrow> bytes \<Rightarrow> bytes) \<Rightarrow> nat \<Rightarrow> bytes list \<Rightarrow> bytes" where
  "sealed seals n ps = concat (map (\<lambda>(i, p). seals i p) (enumerate n ps))"

definition down_phase :: "bytes \<Rightarrow> bytes list \<Rightarrow> bytes \<Rightarrow> 'c Splice \<Rightarrow> bool" where
  "down_phase uuid ps sent st \<longleftrightarrow>
    (if sp_down_spliced st then fst (vout uuid (concat ps)) = VRaw (Some 2)
     else if sp_is_padding st then sent = [] \<and>
       (sp_uuid_once st = Some uuid \<and> ps = [] \<or> sp_uuid_once st = None \<and> fst (vout uuid (concat ps)) = VHead [])
     else sent = [] \<and> fst (vout uuid (concat ps)) = VRaw (Some 1))"

definition down_ok ::
    "('c \<Rightarrow> nat) \<Rightarrow> (nat \<Rightarrow> bytes \<Rightarrow> bytes) \<Rightarrow> nat \<Rightarrow> bytes \<Rightarrow> bytes \<Rightarrow> bytes \<Rightarrow> 'c Splice \<Rightarrow> bool" where
  "down_ok wseq seals n uuid before body st \<longleftrightarrow>
    rx_end (sp_upstream st) = None \<and> tx_room (rt_tcp (sp_tunnel st)) = None \<and>
    (sp_down_done st \<longrightarrow> concat (rx (sp_upstream st)) = []) \<and>
    (\<exists>ps sent. tx (rt_tcp (sp_tunnel st)) = before @ sealed seals n ps @ sent \<and>
      wseq (rt_conn (sp_tunnel st)) = n + length ps \<and>
      snd (vout uuid (concat ps)) @ sent @ concat (rx (sp_upstream st)) = body \<and>
      down_phase uuid ps sent st)"

section \<open>Lemmas\<close>

lemma up_direct_iff: "unpadder_inv uuid s \<Longrightarrow> up_direct s \<longleftrightarrow> up_abs s = VRaw (Some 2)"
proof
  assume inv: "unpadder_inv uuid s" and d: "up_direct s"
  then show "up_abs s = VRaw (Some 2)"
    by (simp add: unpadder_inv_def up_abs_def)
next
  assume inv: "unpadder_inv uuid s" and a: "up_abs s = VRaw (Some 2)"
  show "up_direct s"
    using up_abs_raw [OF inv a] inv by (simp add: unpadder_inv_def)
qed

text \<open>Pushing one piece: the upstream gets what the machine emits, and the splice flag is its state.\<close>

lemma sp_push_ok:
  assumes "unpadder_inv uuid (sp_unp st)" and "tx_room (sp_upstream st) = None"
    and "vrun uuid (up_abs (sp_unp st)) data = (v, out)" and "\<not> sp_up_spliced st"
  shows "\<exists>st'. sp_push data st = (Inr (), st') \<and> unpadder_inv uuid (sp_unp st') \<and> up_abs (sp_unp st') = v \<and>
    tx (sp_upstream st') = tx (sp_upstream st) @ out \<and> tx_room (sp_upstream st') = None \<and>
    rx (sp_upstream st') = rx (sp_upstream st) \<and> rx_end (sp_upstream st') = rx_end (sp_upstream st) \<and>
    sp_up_spliced st' = (v = VRaw (Some 2)) \<and> sp_tunnel st' = sp_tunnel st \<and> sp_up_done st' = sp_up_done st \<and>
    sp_uuid_once st' = sp_uuid_once st \<and> sp_is_padding st' = sp_is_padding st \<and>
    sp_down_spliced st' = sp_down_spliced st \<and> sp_down_done st' = sp_down_done st"
proof -
  obtain u content where u: "unpadder_push (sp_unp st) data = (u, content)"
    by fastforce
  have r: "unpadder_inv uuid u" "up_abs u = v" "content = out"
    using unpadder_push_refines [OF assms(1) u] assms(3) by auto
  then have "up_direct u \<longleftrightarrow> v = VRaw (Some 2)"
    using up_direct_iff by blast
  with u r assms(2,4) show ?thesis
    by (cases "out = []") (simp_all add: sp_push_def up_write_def write_all_open Let_def)
qed

lemma tls_record_nonempty: "tls_record r \<Longrightarrow> r \<noteq> []"
  by (auto simp: tls_record_def record_total_def)

text \<open>What the downlink reads and writes is untouched by the uplink, and the other way round.\<close>

definition down_view :: "('c \<Rightarrow> nat) \<Rightarrow> 'c Splice \<Rightarrow> _" where
  "down_view wseq st =
    (rx_end (sp_upstream st), tx_room (rt_tcp (sp_tunnel st)), sp_down_done st, rx (sp_upstream st),
     tx (rt_tcp (sp_tunnel st)), wseq (rt_conn (sp_tunnel st)), sp_down_spliced st, sp_is_padding st, sp_uuid_once st)"

definition up_view :: "('c \<Rightarrow> nat) \<Rightarrow> 'c Splice \<Rightarrow> _" where
  "up_view rseq st =
    (rx_end (rt_tcp (sp_tunnel st)), tx_room (sp_upstream st), sp_up_spliced st, rt_unread (sp_tunnel st),
     tx (sp_upstream st), rseq (rt_conn (sp_tunnel st)), sp_unp st, sp_up_done st)"

lemma down_ok_view: "down_view wseq st' = down_view wseq st \<Longrightarrow> down_ok wseq seals n uuid b d st' = down_ok wseq seals n uuid b d st"
  by (simp add: down_view_def down_ok_def down_phase_def)

lemma up_ok_view: "up_view rseq st' = up_view rseq st \<Longrightarrow> up_ok rseq n uuid l rs ps raw st' = up_ok rseq n uuid l rs ps raw st"
  by (simp add: up_view_def up_ok_def)

lemma uplink_raw_ok:
  assumes "up_ok rseq n uuid leftover recs pts raw st" and "sp_up_spliced st" and "\<not> sp_up_done st"
  shows "\<exists>st'. sp_uplink eng st = (Inr (), st') \<and> up_ok rseq n uuid leftover recs pts raw st' \<and>
    down_view wseq st' = down_view wseq st"
proof (cases "rt_unread (sp_tunnel st) = []")
  case True
  have "rx_end (rt_tcp (sp_tunnel st)) = None"
    using assms(1) by (simp add: up_ok_def)
  from read_raw_eof [OF True this, of READ_CHUNK] obtain t' where
    "read_raw READ_CHUNK (sp_tunnel st) = (Inr [], t')" "rt_unread t' = []" "rt_conn t' = rt_conn (sp_tunnel st)"
    "tx (rt_tcp t') = tx (rt_tcp (sp_tunnel st))" "tx_room (rt_tcp t') = tx_room (rt_tcp (sp_tunnel st))" "rx_end (rt_tcp t') = None"
    by blast
  then show ?thesis
    using assms True by (simp add: sp_uplink_def read_uplink_def abind_def up_ok_def down_view_def sock_shutdown_def)
next
  case False
  have "0 < READ_CHUNK"
    by (simp add: READ_CHUNK_def)
  from read_raw_ok [OF this False] obtain b bs t' where t:
    "read_raw READ_CHUNK (sp_tunnel st) = (Inr (b # bs), t')" "rt_unread (sp_tunnel st) = b # bs @ rt_unread t'"
    "rt_conn t' = rt_conn (sp_tunnel st)" "tx (rt_tcp t') = tx (rt_tcp (sp_tunnel st))"
    "tx_room (rt_tcp t') = tx_room (rt_tcp (sp_tunnel st))" "rx_end (rt_tcp t') = rx_end (rt_tcp (sp_tunnel st))"
    by blast
  obtain sent where s: "raw = sent @ rt_unread (sp_tunnel st)"
      "tx (sp_upstream st) = snd (vout uuid (leftover @ concat pts)) @ sent"
    using assms(1,2) by (auto simp: up_ok_def)
  have "\<exists>sent'. raw = sent' @ rt_unread t' \<and>
      tx (sp_upstream st) @ b # bs = snd (vout uuid (leftover @ concat pts)) @ sent'"
    by (rule exI [of _ "sent @ b # bs"]) (simp add: s t(2))
  then show ?thesis
    using assms t by (simp add: sp_uplink_def read_uplink_def abind_def up_ok_def down_view_def up_write_def write_all_open)
qed

text \<open>One more record forwarded: the splice is entered exactly behind the last one.\<close>

lemma uplink_advance:
  assumes "client_wire opens n uuid leftover recs pts raw" and "k < length recs"
    and "vout uuid (leftover @ concat (take k pts)) = (up_abs u, sent)"
    and "vrun uuid (up_abs u) (pts ! k) = (v, out)"
    and "rt_unread t' = concat (drop (Suc k) recs) @ raw" and "rseq (rt_conn t') = Suc (n + k)"
    and "rx_end (rt_tcp t') = None" and "sp_tunnel st' = t'"
    and "unpadder_inv uuid (sp_unp st')" and "up_abs (sp_unp st') = v" and "tx (sp_upstream st') = sent @ out"
    and "tx_room (sp_upstream st') = None" and "sp_up_spliced st' = (v = VRaw (Some 2))" and "\<not> sp_up_done st'"
  shows "up_ok rseq n uuid leftover recs pts raw st'"
proof -
  have "concat (take (Suc k) pts) = concat (take k pts) @ pts ! k"
    using assms(1,2) by (simp add: client_wire_def take_Suc_conv_app_nth)
  then have vs: "vout uuid (leftover @ concat (take (Suc k) pts)) = (v, sent @ out)"
    using run_bytes_appendI [OF assms(3,4)] by simp
  show ?thesis
  proof (cases "v = VRaw (Some 2)")
    case True
    then have "\<not> Suc k < length recs"
      using assms(1) vs by (auto simp: client_wire_def)
    then have "Suc k = length recs" "take (Suc k) pts = pts"
      using assms(1,2) by (simp_all add: client_wire_def)
    then show ?thesis
      using True vs assms(5-14) by (simp add: up_ok_def)
  next
    case False
    have "\<exists>j \<le> length recs. rt_unread t' = concat (drop j recs) @ raw \<and> rseq (rt_conn t') = n + j \<and>
        vout uuid (leftover @ concat (take j pts)) = (v, sent @ out)"
      using vs assms(2,5,6) by (intro exI [of _ "Suc k"]) simp
    moreover have "\<not> up_direct (sp_unp st')"
      using up_direct_iff [OF assms(9)] False assms(10) by simp
    ultimately show ?thesis
      using False assms(7-14) by (simp add: up_ok_def)
  qed
qed

lemma uplink_record_ok:
  assumes "engine_ok eng rseq wseq opens seals" and "client_wire opens n uuid leftover recs pts raw"
    and "up_ok rseq n uuid leftover recs pts raw st" and "\<not> sp_up_spliced st" and "\<not> sp_up_done st"
  shows "\<exists>st'. sp_uplink eng st = (Inr (), st') \<and> up_ok rseq n uuid leftover recs pts raw st' \<and>
    down_view wseq st' = down_view wseq st"
proof -
  obtain k where k: "k \<le> length recs" "rt_unread (sp_tunnel st) = concat (drop k recs) @ raw"
      "rseq (rt_conn (sp_tunnel st)) = n + k" "unpadder_inv uuid (sp_unp st)" "\<not> up_direct (sp_unp st)"
      "vout uuid (leftover @ concat (take k pts)) = (up_abs (sp_unp st), tx (sp_upstream st))"
    using assms(3,4) by (auto simp: up_ok_def)
  have st: "rx_end (rt_tcp (sp_tunnel st)) = None" "tx_room (sp_upstream st) = None"
    using assms(3) by (simp_all add: up_ok_def)
  have len: "length pts = length recs"
    using assms(2) by (simp add: client_wire_def)
  show ?thesis
  proof (cases "k = length recs")
    case True
    then have "fst (vout uuid (leftover @ concat pts)) \<noteq> VRaw (Some 2)"
      using k(4-6) up_direct_iff len by auto
    then have "raw = []"
      using assms(2) by (auto simp: client_wire_def)
    with True k(2) have e: "rt_unread (sp_tunnel st) = []"
      by simp
    from read_record_opt_eof [OF e st(1), of eng] obtain t' where
      "read_record_opt eng (sp_tunnel st) = (Inr None, t')" "rt_unread t' = []" "rt_conn t' = rt_conn (sp_tunnel st)"
      "tx (rt_tcp t') = tx (rt_tcp (sp_tunnel st))" "tx_room (rt_tcp t') = tx_room (rt_tcp (sp_tunnel st))" "rx_end (rt_tcp t') = None"
      by blast
    then show ?thesis
      using assms(3-5) e by (simp add: sp_uplink_def read_uplink_def abind_def up_ok_def down_view_def sock_shutdown_def)
  next
    case False
    with k(1) have lt: "k < length recs"
      by simp
    have r: "tls_record (recs ! k)" "opens (rseq (rt_conn (sp_tunnel st))) (recs ! k) = Some (pts ! k)"
      using assms(2) lt k(3) by (simp_all add: client_wire_def)
    have u: "rt_unread (sp_tunnel st) = recs ! k @ concat (drop (Suc k) recs) @ raw"
      using k(2) lt by (simp add: Cons_nth_drop_Suc [symmetric])
    from read_record_opt_ok [OF assms(1) u r] obtain t' where t:
      "read_record_opt eng (sp_tunnel st) = (Inr (Some (pts ! k)), t')" "rt_unread t' = concat (drop (Suc k) recs) @ raw"
      "rseq (rt_conn t') = Suc (n + k)" "wseq (rt_conn t') = wseq (rt_conn (sp_tunnel st))"
      "tx (rt_tcp t') = tx (rt_tcp (sp_tunnel st))" "tx_room (rt_tcp t') = tx_room (rt_tcp (sp_tunnel st))"
      "rx_end (rt_tcp t') = None"
      using k(3) st(1) by auto
    obtain v out where vo: "vrun uuid (up_abs (sp_unp st)) (pts ! k) = (v, out)"
      by fastforce
    have adv: "up_ok rseq n uuid leftover recs pts raw st'"
      if "sp_tunnel st' = t'" "unpadder_inv uuid (sp_unp st')" "up_abs (sp_unp st') = v"
        "tx (sp_upstream st') = tx (sp_upstream st) @ out" "tx_room (sp_upstream st') = None"
        "sp_up_spliced st' = (v = VRaw (Some 2))" "\<not> sp_up_done st'" for st'
      by (rule uplink_advance [where rseq = rseq, OF assms(2) lt k(6) vo t(2,3,7) that])
    show ?thesis
    proof (cases "pts ! k = []")
      case True
      then have "v = up_abs (sp_unp st)" "out = []"
        using vo by simp_all
      then show ?thesis
        using True t k(4,5) st assms(4,5) up_direct_iff [OF k(4)]
        by (simp add: sp_uplink_def read_uplink_def abind_def down_view_def) (rule adv; simp)
    next
      case False
      let ?st = "st\<lparr>sp_tunnel := t'\<rparr>"
      have a: "unpadder_inv uuid (sp_unp ?st)" "tx_room (sp_upstream ?st) = None"
          "vrun uuid (up_abs (sp_unp ?st)) (pts ! k) = (v, out)" "\<not> sp_up_spliced ?st"
        using k(4) st(2) vo assms(4) by simp_all
      from sp_push_ok [OF a] obtain st' where p: "sp_push (pts ! k) ?st = (Inr (), st')"
        "unpadder_inv uuid (sp_unp st')" "up_abs (sp_unp st') = v"
        "tx (sp_upstream st') = tx (sp_upstream ?st) @ out" "tx_room (sp_upstream st') = None"
        "rx (sp_upstream st') = rx (sp_upstream ?st)" "rx_end (sp_upstream st') = rx_end (sp_upstream ?st)"
        "sp_up_spliced st' = (v = VRaw (Some 2))" "sp_tunnel st' = sp_tunnel ?st" "sp_up_done st' = sp_up_done ?st"
        "sp_uuid_once st' = sp_uuid_once ?st" "sp_is_padding st' = sp_is_padding ?st"
        "sp_down_spliced st' = sp_down_spliced ?st" "sp_down_done st' = sp_down_done ?st"
        by blast
      then show ?thesis
        using False t assms(4,5)
        by (simp add: sp_uplink_def read_uplink_def abind_def down_view_def) (rule adv; simp)
    qed
  qed
qed

lemma uplink_ok:
  assumes "engine_ok eng rseq wseq opens seals" and "client_wire opens n uuid leftover recs pts raw"
    and "up_ok rseq n uuid leftover recs pts raw st" and "\<not> sp_up_done st"
  shows "\<exists>st'. sp_uplink eng st = (Inr (), st') \<and> up_ok rseq n uuid leftover recs pts raw st' \<and>
    down_view wseq st' = down_view wseq st"
  using uplink_raw_ok [OF assms(3) _ assms(4)] uplink_record_ok [OF assms(1-3) _ assms(4)] by blast

lemma cancelled_ok:
  "up_view rseq (sp_cancelled st) = up_view rseq st \<and> down_view wseq (sp_cancelled st) = down_view wseq st"
proof (cases "sp_cancelled st = st")
  case False
  then obtain t where t: "rt_fill (sp_tunnel st) = (Inr True, t)" "sp_cancelled st = st\<lparr>sp_tunnel := t\<rparr>"
    by (auto simp: sp_cancelled_def split: if_splits prod.splits sum.splits bool.splits)
  then show ?thesis
    using rt_fill_Inr(1-5) [OF t(1)] by (simp add: up_view_def down_view_def)
qed simp

section \<open>The downlink\<close>

lemma sealed_snoc: "sealed seals n (ps @ [p]) = sealed seals n ps @ seals (n + length ps) p"
  by (simp add: sealed_def enumerate_append_eq)

text \<open>One padded chunk, seen by the client's unpadder.\<close>

lemma vout_block:
  assumes "length chunk \<le> READ_CHUNK" and "length uuid = 16"
    and "once = Some uuid \<and> ps = [] \<or> once = None \<and> fst (vout uuid (concat ps)) = VHead []"
    and "xtls_padding chunk cmd once long DEFAULT_SEED draw = (once', blk)"
  shows "once' = None" "vout uuid (concat (ps @ [blk])) = (vdone cmd 0 0, snd (vout uuid (concat ps)) @ chunk)"
    "0 < length blk" "length blk \<le> DEFAULT_BUFFER_LIMIT"
proof -
  let ?pad = "nat (padding_len (length chunk) long DEFAULT_SEED draw)"
  have len: "length chunk < 65536"
    using assms(1) by (simp add: READ_CHUNK_def)
  have pad: "?pad < 8192"
    using padding_len_bounds(2) [of "length chunk" long DEFAULT_SEED draw] by simp
  have blk: "once' = None" "blk = (case once of Some u \<Rightarrow> u | None \<Rightarrow> []) @ block cmd chunk ?pad"
    using assms(4) xtls_padding_block [OF len, of cmd once long DEFAULT_SEED draw] by auto
  then show "once' = None"
    by simp
  show "0 < length blk"
    by (simp add: blk block_def)
  show "length blk \<le> DEFAULT_BUFFER_LIMIT"
    using assms(1-3) pad blk(2) by (auto simp: block_def READ_CHUNK_def DEFAULT_BUFFER_LIMIT_def split: option.splits)
  show "vout uuid (concat (ps @ [blk])) = (vdone cmd 0 0, snd (vout uuid (concat ps)) @ chunk)"
  proof (cases "once = Some uuid \<and> ps = []")
    case True
    then show ?thesis
      using vrun_first_block [OF len _ assms(2), of ?pad cmd "[]"] pad blk(2) by simp
  next
    case False
    with assms(3) have "once = None" "vout uuid (concat ps) = (VHead [], snd (vout uuid (concat ps)))"
      by (auto simp: prod_eq_iff)
    moreover have "vrun uuid (VHead []) (block cmd chunk ?pad) = (vdone cmd 0 0, chunk)"
      using vrun_block [OF len, of ?pad uuid cmd "[]"] pad by simp
    ultimately show ?thesis
      using run_bytes_appendI blk(2) by fastforce
  qed
qed

text \<open>
  A chunk taken from the upstream and sent on: \<open>ps\<close> and \<open>sent\<close> describe the wire before it, and
  \<open>rest\<close> is what the upstream still holds.
\<close>

lemma sp_chunk_ok:
  assumes "engine_ok eng rseq wseq opens seals" and "length uuid = 16" and "0 < length chunk" and "length chunk \<le> READ_CHUNK"
    and "tx_room (rt_tcp (sp_tunnel st)) = None"
    and "tx (rt_tcp (sp_tunnel st)) = before @ sealed seals n ps @ sent"
    and "wseq (rt_conn (sp_tunnel st)) = n + length ps" and "down_phase uuid ps sent st"
  shows "\<exists>st' ps' sent'. sp_chunk eng draw chunk st = (Inr (), st') \<and> up_view rseq st' = up_view rseq st \<and>
    sp_upstream st' = sp_upstream st \<and> sp_down_done st' = sp_down_done st \<and> tx_room (rt_tcp (sp_tunnel st')) = None \<and>
    tx (rt_tcp (sp_tunnel st')) = before @ sealed seals n ps' @ sent' \<and> wseq (rt_conn (sp_tunnel st')) = n + length ps' \<and>
    snd (vout uuid (concat ps')) @ sent' = snd (vout uuid (concat ps)) @ sent @ chunk \<and> down_phase uuid ps' sent' st'"
proof -
  have plain: "\<exists>t'. write_plaintext eng p (sp_tunnel st) = (Inr (), t') \<and> rt_unread t' = rt_unread (sp_tunnel st) \<and>
      tx (rt_tcp t') = before @ sealed seals n (ps @ [p]) \<and> tx_room (rt_tcp t') = None \<and>
      rx_end (rt_tcp t') = rx_end (rt_tcp (sp_tunnel st)) \<and>
      rseq (rt_conn t') = rseq (rt_conn (sp_tunnel st)) \<and> wseq (rt_conn t') = n + length (ps @ [p])"
    if "0 < length p" "length p \<le> DEFAULT_BUFFER_LIMIT" "sent = []" for p
    using write_plaintext_ok [OF assms(1) that(1,2) assms(5)] assms(6,7) that(3) by (simp add: sealed_snoc)
  consider (raw) "sp_down_spliced st" | (pad) "\<not> sp_down_spliced st" "sp_is_padding st"
    | (over) "\<not> sp_down_spliced st" "\<not> sp_is_padding st"
    by blast
  then show ?thesis
  proof cases
    case raw
    then show ?thesis
      using assms(5-8)
      by (intro exI [of _ "st\<lparr>sp_tunnel := (sp_tunnel st)\<lparr>rt_tcp := (rt_tcp (sp_tunnel st))\<lparr>tx := tx (rt_tcp (sp_tunnel st)) @ chunk\<rparr>\<rparr>\<rparr>"]
            exI [of _ ps] exI [of _ "sent @ chunk"])
         (simp add: sp_chunk_def down_write_def write_raw_def write_all_open up_view_def rt_unread_def down_phase_def)
  next
    case pad
    define cmd where "cmd = down_command (filtered chunk (sp_filter st)) chunk"
    obtain once blk where x: "xtls_padding chunk cmd (sp_uuid_once st) (is_tls (filtered chunk (sp_filter st))) DEFAULT_SEED draw = (once, blk)"
      by fastforce
    have ph: "sent = []" "sp_uuid_once st = Some uuid \<and> ps = [] \<or> sp_uuid_once st = None \<and> fst (vout uuid (concat ps)) = VHead []"
      using assms(8) pad by (simp_all add: down_phase_def)
    note b = vout_block [OF assms(4,2) ph(2) x]
    obtain t' where t: "write_plaintext eng blk (sp_tunnel st) = (Inr (), t')" "rt_unread t' = rt_unread (sp_tunnel st)"
      "tx (rt_tcp t') = before @ sealed seals n (ps @ [blk])" "tx_room (rt_tcp t') = None"
      "rx_end (rt_tcp t') = rx_end (rt_tcp (sp_tunnel st))" "rseq (rt_conn t') = rseq (rt_conn (sp_tunnel st))"
      "wseq (rt_conn t') = n + length (ps @ [blk])"
      using plain [OF b(3,4) ph(1)] by blast
    have cmd: "cmd = 0 \<or> cmd = 1 \<or> cmd = 2"
      by (simp add: cmd_def down_command_def CMD_PADDING_DIRECT_def CMD_PADDING_END_def CMD_PADDING_CONTINUE_def)
    have step: "sp_chunk eng draw chunk st =
        (Inr (), st\<lparr>sp_filter := filtered chunk (sp_filter st), sp_uuid_once := once, sp_is_padding := (cmd = 0),
          sp_tunnel := t', sp_down_spliced := (cmd = 2)\<rparr>)"
      using pad x t(1)
      by (simp add: sp_chunk_def down_write_def cmd_def [symmetric] Let_def CMD_PADDING_DIRECT_def CMD_PADDING_CONTINUE_def)
    show ?thesis
      unfolding step using t b(1,2) ph(1) cmd
      by (intro exI [of _ "st\<lparr>sp_filter := filtered chunk (sp_filter st), sp_uuid_once := once, sp_is_padding := (cmd = 0),
          sp_tunnel := t', sp_down_spliced := (cmd = 2)\<rparr>"] exI [of _ "ps @ [blk]"] exI [of _ "[]"])
         (auto simp: up_view_def down_phase_def vdone_def)
  next
    case over
    have ph: "sent = []" "fst (vout uuid (concat ps)) = VRaw (Some 1)"
      using assms(8) over by (simp_all add: down_phase_def)
    have "length chunk \<le> DEFAULT_BUFFER_LIMIT"
      using assms(4) by (simp add: READ_CHUNK_def DEFAULT_BUFFER_LIMIT_def)
    from plain [OF assms(3) this ph(1)] obtain t' where t: "write_plaintext eng chunk (sp_tunnel st) = (Inr (), t')"
      "rt_unread t' = rt_unread (sp_tunnel st)" "tx (rt_tcp t') = before @ sealed seals n (ps @ [chunk])"
      "tx_room (rt_tcp t') = None" "rx_end (rt_tcp t') = rx_end (rt_tcp (sp_tunnel st))"
      "rseq (rt_conn t') = rseq (rt_conn (sp_tunnel st))" "wseq (rt_conn t') = n + length (ps @ [chunk])"
      by blast
    have v: "vout uuid (concat (ps @ [chunk])) = (VRaw (Some 1), snd (vout uuid (concat ps)) @ chunk)"
      using ph(2) by (cases "vout uuid (concat ps)") (simp add: run_bytes_append)
    show ?thesis
      using t ph(1) over v
      by (intro exI [of _ "st\<lparr>sp_filter := filtered chunk (sp_filter st), sp_tunnel := t'\<rparr>"] exI [of _ "ps @ [chunk]"] exI [of _ "[]"])
         (simp add: sp_chunk_def down_write_def Let_def up_view_def down_phase_def)
  qed
qed

lemma downlink_ok:
  assumes "engine_ok eng rseq wseq opens seals" and "length uuid = 16"
    and "down_ok wseq seals n uuid before body st" and "\<not> sp_down_done st"
  shows "\<exists>st'. sp_downlink eng draw st = (Inr (), st') \<and> down_ok wseq seals n uuid before body st' \<and>
    up_view rseq st' = up_view rseq st"
proof -
  have st: "rx_end (sp_upstream st) = None" "tx_room (rt_tcp (sp_tunnel st)) = None"
    using assms(3) by (simp_all add: down_ok_def)
  obtain ps sent where w: "tx (rt_tcp (sp_tunnel st)) = before @ sealed seals n ps @ sent"
      "wseq (rt_conn (sp_tunnel st)) = n + length ps"
      "snd (vout uuid (concat ps)) @ sent @ concat (rx (sp_upstream st)) = body" "down_phase uuid ps sent st"
    using assms(3) by (auto simp: down_ok_def)
  obtain chunk u where r: "read_some READ_CHUNK (sp_upstream st) = (Inr chunk, u)"
    using read_some_eof [OF st(1), of READ_CHUNK] by blast
  note rr = read_some_Inr [OF r]
  show ?thesis
  proof (cases "chunk = []")
    case True
    then have "concat (rx (sp_upstream st)) = []" "concat (rx u) = []"
      using rr(1,3) by (simp_all add: READ_CHUNK_def)
    moreover let ?st = "st\<lparr>sp_upstream := u, sp_down_done := True, sp_tunnel := rt_shutdown (sp_tunnel st)\<rparr>"
    have "down_phase uuid ps sent ?st"
      using w(4) by (simp add: down_phase_def)
    ultimately have "down_ok wseq seals n uuid before body ?st"
      unfolding down_ok_def using rr(6) st w(1-3)
      by (intro conjI exI [of _ ps] exI [of _ sent]) (simp_all add: rt_shutdown_def sock_shutdown_def)
    then show ?thesis
      using True r rr(4,5) by (simp add: sp_downlink_def up_view_def rt_shutdown_def sock_shutdown_def rt_unread_def)
  next
    case False
    let ?st = "st\<lparr>sp_upstream := u, sp_metrics := add_bytes 0 (length chunk) (sp_metrics st)\<rparr>"
    have "down_phase uuid ps sent ?st"
      using w(4) by (simp add: down_phase_def)
    then obtain st' ps' sent' where c: "sp_chunk eng draw chunk ?st = (Inr (), st')" "up_view rseq st' = up_view rseq ?st"
      "sp_upstream st' = sp_upstream ?st" "sp_down_done st' = sp_down_done ?st" "tx_room (rt_tcp (sp_tunnel st')) = None"
      "tx (rt_tcp (sp_tunnel st')) = before @ sealed seals n ps' @ sent'" "wseq (rt_conn (sp_tunnel st')) = n + length ps'"
      "snd (vout uuid (concat ps')) @ sent' = snd (vout uuid (concat ps)) @ sent @ chunk" "down_phase uuid ps' sent' st'"
      using sp_chunk_ok [OF assms(1,2), of chunk ?st before n ps sent draw] False rr(2) st(2) w(1,2) by auto
    have "snd (vout uuid (concat ps')) @ sent' @ concat (rx u) = body"
      using c(8) w(3) rr(1) by (metis append_assoc)
    then have "down_ok wseq seals n uuid before body st'"
      using c(3-7,9) rr(6) st(1) assms(4) by (auto simp: down_ok_def)
    moreover have "up_view rseq st' = up_view rseq st"
      using c(2) rr(4,5) by (simp add: up_view_def)
    ultimately show ?thesis
      using r False c(1) by (simp add: sp_downlink_def)
  qed
qed

section \<open>The whole relay\<close>

lemma splice_step_ok:
  assumes "engine_ok eng rseq wseq opens seals" and "length uuid = 16"
    and "client_wire opens n uuid leftover recs pts raw"
    and "up_ok rseq n uuid leftover recs pts raw st" and "down_ok wseq seals m uuid before body st"
  shows "\<exists>st'. splice_step eng ev st = (Inr (), st') \<and>
    up_ok rseq n uuid leftover recs pts raw st' \<and> down_ok wseq seals m uuid before body st'"
proof (cases ev)
  case EvUplink
  show ?thesis
  proof (cases "sp_up_done st")
    case False
    from uplink_ok [OF assms(1,3,4) False] obtain st' where
      "sp_uplink eng st = (Inr (), st')" "up_ok rseq n uuid leftover recs pts raw st'" "down_view wseq st' = down_view wseq st"
      by blast
    then show ?thesis
      using EvUplink False assms(5) down_ok_view [of wseq st' st] by simp
  qed (use EvUplink assms(4,5) in simp)
next
  case (EvDownlink draw)
  show ?thesis
  proof (cases "sp_down_done st")
    case False
    from downlink_ok [OF assms(1,2,5) False, of draw] obtain st' where
      "sp_downlink eng draw st = (Inr (), st')" "down_ok wseq seals m uuid before body st'" "up_view rseq st' = up_view rseq st"
      by blast
    then show ?thesis
      using EvDownlink False assms(4) up_ok_view [of rseq st' st] by simp
  qed (use EvDownlink assms(4,5) in simp)
next
  case EvCancelled
  then show ?thesis
    using cancelled_ok [of rseq st wseq] assms(4,5) up_ok_view [of rseq "sp_cancelled st" st]
      down_ok_view [of wseq "sp_cancelled st" st] by simp
qed

lemma splice_loop_ok:
  assumes "engine_ok eng rseq wseq opens seals" and "length uuid = 16"
    and "client_wire opens n uuid leftover recs pts raw"
  shows "\<lbrakk>up_ok rseq n uuid leftover recs pts raw st; down_ok wseq seals m uuid before body st\<rbrakk> \<Longrightarrow>
    \<exists>over st'. splice_loop eng evs st = (Inr over, st') \<and> up_ok rseq n uuid leftover recs pts raw st' \<and>
      down_ok wseq seals m uuid before body st' \<and> over = splice_over st'"
proof (induction evs arbitrary: st)
  case (Cons ev evs)
  show ?case
  proof (cases "splice_over st")
    case False
    from splice_step_ok [OF assms Cons.prems, of ev] obtain st' where
      "splice_step eng ev st = (Inr (), st')" "up_ok rseq n uuid leftover recs pts raw st'"
      "down_ok wseq seals m uuid before body st'"
      by blast
    then show ?thesis
      using False Cons.IH [of st'] by simp
  qed (use Cons.prems in auto)
qed simp

lemma splice_start_ok:
  assumes "client_wire opens n uuid leftover recs pts raw"
    and "rt_unread tunnel = concat recs @ raw" and "rseq (rt_conn tunnel) = n"
    and "rx_end (rt_tcp tunnel) = None" and "tx_room (rt_tcp tunnel) = None"
    and "tx_room upstream = None" and "rx_end upstream = None" and "tx upstream = []"
  shows "\<exists>st. (if leftover = [] then aret () else sp_push leftover) (splice_new tunnel upstream uuid metrics) = (Inr (), st) \<and>
    up_ok rseq n uuid leftover recs pts raw st \<and>
    down_ok wseq seals (wseq (rt_conn tunnel)) uuid (tx (rt_tcp tunnel)) (concat (rx upstream)) st"
proof -
  let ?st = "splice_new tunnel upstream uuid metrics"
  have down: "down_ok wseq seals (wseq (rt_conn tunnel)) uuid (tx (rt_tcp tunnel)) (concat (rx upstream)) ?st"
    unfolding down_ok_def using assms(5,7)
    by (intro conjI exI [of _ "[]"]) (simp_all add: splice_new_def down_phase_def sealed_def)
  obtain v out where vo: "vout uuid leftover = (v, out)"
    by fastforce
  have up: "up_ok rseq n uuid leftover recs pts raw st"
    if "sp_tunnel st = tunnel" "unpadder_inv uuid (sp_unp st)" "up_abs (sp_unp st) = v" "tx (sp_upstream st) = out"
      "tx_room (sp_upstream st) = None" "sp_up_spliced st = (v = VRaw (Some 2))" "\<not> sp_up_done st" for st
  proof (cases "v = VRaw (Some 2)")
    case True
    then have "fst (vout uuid (leftover @ concat (take 0 pts))) = VRaw (Some 2)"
      using vo by simp
    then have "recs = []"
      using assms(1) unfolding client_wire_def by (metis length_greater_0_conv)
    moreover from this have "pts = []"
      using assms(1) by (simp add: client_wire_def)
    ultimately show ?thesis
      using that True vo assms(2,4) by (simp add: up_ok_def)
  next
    case False
    then have "\<not> up_direct (sp_unp st)"
      using up_direct_iff that(2,3) by blast
    then show ?thesis
      using that False vo assms(2-4) by (simp add: up_ok_def)
  qed
  have new: "unpadder_inv uuid (sp_unp ?st)" "tx_room (sp_upstream ?st) = None"
      "vrun uuid (up_abs (sp_unp ?st)) leftover = (v, out)" "\<not> sp_up_spliced ?st"
    using vo assms(6) by (simp_all add: splice_new_def unpadder_new_inv unpadder_new_abs)
  show ?thesis
  proof (cases "leftover = []")
    case True
    then have "v = VDetect []" "out = []"
      using vo by simp_all
    then show ?thesis
      using True down assms(6,8) up [of ?st] new(1) by (simp add: splice_new_def unpadder_new_abs)
  next
    case False
    from sp_push_ok [OF new] obtain st' where p: "sp_push leftover ?st = (Inr (), st')"
      "unpadder_inv uuid (sp_unp st')" "up_abs (sp_unp st') = v" "tx (sp_upstream st') = tx (sp_upstream ?st) @ out"
      "tx_room (sp_upstream st') = None" "rx (sp_upstream st') = rx (sp_upstream ?st)"
      "rx_end (sp_upstream st') = rx_end (sp_upstream ?st)"
      "sp_up_spliced st' = (v = VRaw (Some 2))" "sp_tunnel st' = sp_tunnel ?st" "sp_up_done st' = sp_up_done ?st"
      "sp_uuid_once st' = sp_uuid_once ?st" "sp_is_padding st' = sp_is_padding ?st"
      "sp_down_spliced st' = sp_down_spliced ?st" "sp_down_done st' = sp_down_done ?st"
      by blast
    have "down_view wseq st' = down_view wseq ?st"
      using p(6,7,9-14) by (simp add: down_view_def)
    then show ?thesis
      using False p assms(8) up [of st'] down down_ok_view [of wseq st' ?st] by (simp add: splice_new_def)
  qed
qed

definition sock_copy_ok :: "(Socket \<Rightarrow> Socket \<Rightarrow> Socket \<times> Socket \<times> (nat \<times> nat) option) \<Rightarrow> bool" where
  "sock_copy_ok copy \<longleftrightarrow>
    (\<forall>a b. rx_end a = None \<and> rx_end b = None \<and> tx_room a = None \<and> tx_room b = None \<longrightarrow>
      (case copy a b of (a', b', _) \<Rightarrow> tx a' = tx a @ concat (rx b) \<and> tx b' = tx b @ concat (rx a)))"

lemma concat_records_Nil:
  assumes "client_wire opens n uuid leftover recs pts raw" and "concat (drop k recs) = []" and "k \<le> length recs"
  shows "k = length recs"
proof (rule ccontr)
  assume "k \<noteq> length recs"
  with assms(3) have lt: "k < length recs"
    by simp
  then have "recs ! k = []"
    using assms(2) by (simp add: Cons_nth_drop_Suc [symmetric])
  moreover have "tls_record (recs ! k)"
    using assms(1) lt by (simp add: client_wire_def)
  ultimately show False
    using tls_record_nonempty by blast
qed

text \<open>What has reached the target is a prefix of what the client sent, and all of it at the end.\<close>

lemma up_ok_prefix:
  assumes "client_wire opens n uuid leftover recs pts raw" and "up_ok rseq n uuid leftover recs pts raw st"
  shows "prefix (tx (sp_upstream st)) (snd (vout uuid (leftover @ concat pts)) @ raw)"
    and "rt_unread (sp_tunnel st) = [] \<Longrightarrow> tx (sp_upstream st) = snd (vout uuid (leftover @ concat pts)) @ raw"
proof -
  have "prefix (tx (sp_upstream st)) (snd (vout uuid (leftover @ concat pts)) @ raw) \<and>
      (rt_unread (sp_tunnel st) = [] \<longrightarrow> tx (sp_upstream st) = snd (vout uuid (leftover @ concat pts)) @ raw)"
  proof (cases "sp_up_spliced st")
    case True
    then show ?thesis
      using assms(2) by (auto simp: up_ok_def)
  next
    case False
    then obtain k where k: "k \<le> length recs" "rt_unread (sp_tunnel st) = concat (drop k recs) @ raw"
        "vout uuid (leftover @ concat (take k pts)) = (up_abs (sp_unp st), tx (sp_upstream st))"
      using assms(2) by (auto simp: up_ok_def)
    have "snd (vout uuid ((leftover @ concat (take k pts)) @ concat (drop k pts))) =
        tx (sp_upstream st) @ snd (vrun uuid (up_abs (sp_unp st)) (concat (drop k pts)))"
      using k(3) by (subst run_bytes_append) (simp split: prod.splits)
    then have "prefix (tx (sp_upstream st)) (snd (vout uuid (leftover @ concat pts)))"
      by (metis append_assoc append_take_drop_id concat_append prefixI)
    moreover have "take k pts = pts" if "rt_unread (sp_tunnel st) = []"
      using that k(1,2) concat_records_Nil [OF assms(1), of k] assms(1) by (simp add: client_wire_def)
    ultimately show ?thesis
      using k(2,3) by (auto intro: prefix_order.trans)
  qed
  then show "prefix (tx (sp_upstream st)) (snd (vout uuid (leftover @ concat pts)) @ raw)"
    and "rt_unread (sp_tunnel st) = [] \<Longrightarrow> tx (sp_upstream st) = snd (vout uuid (leftover @ concat pts)) @ raw"
    by simp_all
qed

text \<open>The wire seen by the client: sealed plaintexts, then raw bytes.\<close>

definition down_wire ::
    "(nat \<Rightarrow> bytes \<Rightarrow> bytes) \<Rightarrow> nat \<Rightarrow> bytes \<Rightarrow> bytes \<Rightarrow> bytes list \<Rightarrow> bytes \<Rightarrow> bytes \<Rightarrow> bool" where
  "down_wire seals n uuid wire ps sent got \<longleftrightarrow>
    wire = sealed seals n ps @ sent \<and> snd (vout uuid (concat ps)) @ sent = got \<and>
    (sent \<noteq> [] \<longrightarrow> fst (vout uuid (concat ps)) = VRaw (Some 2))"

lemma down_ok_wire:
  assumes "down_ok wseq seals n uuid before body st"
  shows "\<exists>w ps sent got. tx (rt_tcp (sp_tunnel st)) = before @ w \<and> down_wire seals n uuid w ps sent got \<and>
    got @ concat (rx (sp_upstream st)) = body \<and> (sp_down_spliced st \<longrightarrow> fst (vout uuid (concat ps)) = VRaw (Some 2))"
proof -
  obtain ps sent where "tx (rt_tcp (sp_tunnel st)) = before @ sealed seals n ps @ sent"
      "snd (vout uuid (concat ps)) @ sent @ concat (rx (sp_upstream st)) = body" "down_phase uuid ps sent st"
    using assms by (auto simp: down_ok_def)
  then show ?thesis
    by (intro exI [of _ "sealed seals n ps @ sent"] exI [of _ ps] exI [of _ sent] exI [of _ "snd (vout uuid (concat ps)) @ sent"])
       (auto simp: down_wire_def down_phase_def split: if_splits)
qed

lemma splice_handoff_ok:
  assumes "sock_copy_ok copy" and "client_wire opens n uuid leftover recs pts raw"
    and "up_ok rseq n uuid leftover recs pts raw st" and "down_ok wseq seals m uuid before body st"
  shows "\<exists>st'. splice_handoff copy st = (Inr (), st') \<and>
    prefix (tx (sp_upstream st')) (snd (vout uuid (leftover @ concat pts)) @ raw) \<and>
    (splice_over st \<longrightarrow> tx (sp_upstream st') = snd (vout uuid (leftover @ concat pts)) @ raw) \<and>
    (\<exists>w ps sent got. tx (rt_tcp (sp_tunnel st')) = before @ w \<and> down_wire seals m uuid w ps sent got \<and>
      prefix got body \<and> (splice_over st \<longrightarrow> got = body))"
proof -
  obtain w ps sent got where w: "tx (rt_tcp (sp_tunnel st)) = before @ w" "down_wire seals m uuid w ps sent got"
      "got @ concat (rx (sp_upstream st)) = body" "sp_down_spliced st \<longrightarrow> fst (vout uuid (concat ps)) = VRaw (Some 2)"
    using down_ok_wire [OF assms(4)] by blast
  note up = up_ok_prefix [OF assms(2,3)]
  show ?thesis
  proof (cases "sp_up_spliced st \<and> sp_down_spliced st \<and> \<not> (sp_up_done st \<and> sp_down_done st)")
    case False
    have "tx (sp_upstream st) = snd (vout uuid (leftover @ concat pts)) @ raw \<and> got = body" if "splice_over st"
    proof -
      have "rt_unread (sp_tunnel st) = []" "concat (rx (sp_upstream st)) = []"
        using that False assms(3,4) by (auto simp: splice_over_def up_ok_def down_ok_def)
      then show ?thesis
        using up(2) w(3) by simp
    qed
    moreover have "splice_handoff copy st = (Inr (), st)"
      using False by (auto simp: splice_handoff_def)
    moreover have "prefix got body"
      using w(3) by auto
    ultimately show ?thesis
      using up(1) w(1,2) by blast
  next
    case True
    let ?up = "(sp_upstream st)\<lparr>tx := tx (sp_upstream st) @ rt_inbuf (sp_tunnel st)\<rparr>"
    obtain a b c where cp: "copy (rt_tcp (sp_tunnel st)) ?up = (a, b, c)"
      by (metis prod_cases3)
    have room: "tx_room (sp_upstream st) = None" "rx_end (sp_upstream st) = None"
        "tx_room (rt_tcp (sp_tunnel st)) = None" "rx_end (rt_tcp (sp_tunnel st)) = None"
      using assms(3,4) by (simp_all add: up_ok_def down_ok_def)
    have "case copy (rt_tcp (sp_tunnel st)) ?up of (a', b', _) \<Rightarrow>
        tx a' = tx (rt_tcp (sp_tunnel st)) @ concat (rx ?up) \<and> tx b' = tx ?up @ concat (rx (rt_tcp (sp_tunnel st)))"
      using assms(1) room unfolding sock_copy_ok_def
      by (elim allE [of _ "rt_tcp (sp_tunnel st)"] allE [of _ ?up]) simp
    then have ab: "tx a = before @ w @ concat (rx (sp_upstream st))" "tx b = tx (sp_upstream st) @ rt_unread (sp_tunnel st)"
      using cp w(1) by (simp_all add: rt_unread_def)
    obtain sent' where s: "raw = sent' @ rt_unread (sp_tunnel st)" "tx (sp_upstream st) = snd (vout uuid (leftover @ concat pts)) @ sent'"
      using True assms(3) by (auto simp: up_ok_def)
    have "down_wire seals m uuid (w @ concat (rx (sp_upstream st))) ps (sent @ concat (rx (sp_upstream st))) body"
      using w(2-4) True by (auto simp: down_wire_def)
    moreover obtain st' where "splice_handoff copy st = (Inr (), st')" "sp_upstream st' = sock_shutdown b"
        "rt_tcp (sp_tunnel st') = sock_shutdown a"
    proof (cases "rt_inbuf (sp_tunnel st) = []")
      case i: True
      then have "?up = sp_upstream st"
        by simp
      then show ?thesis
        using that True i cp by (simp add: splice_handoff_def into_raw_def)
    next
      case False
      then show ?thesis
        using that True cp room(1) by (simp add: splice_handoff_def into_raw_def up_write_def write_all_open)
    qed
    moreover from this have "tx (sp_upstream st') = snd (vout uuid (leftover @ concat pts)) @ raw"
        "tx (rt_tcp (sp_tunnel st')) = before @ w @ concat (rx (sp_upstream st))"
      using ab s by (simp_all add: sock_shutdown_def)
    ultimately show ?thesis
      by (intro exI [of _ st'] conjI exI [of _ "w @ concat (rx (sp_upstream st))"] exI [of _ ps]
            exI [of _ "sent @ concat (rx (sp_upstream st))"] exI [of _ body]) simp_all
  qed
qed

section \<open>Properties\<close>

text \<open>
  C28.  The Vision data plane is transparent under every schedule.  The client's wire is any
  sequence of TLS records, ending with the one that completes its Direct block, and raw bytes
  after it, in any segmentation; reads may be dropped half way, and the two directions are
  interleaved as the schedule says, with any padding draws.  Then the relay meets no error of
  its own; the target has received a prefix of the unpadded client stream, nothing else; the
  client's socket carries sealed records and then raw bytes whose unpadding is a prefix of what
  the target sent, raw bytes only behind a Direct command; and when the relay is over both
  directions are complete.
\<close>

theorem splice_transparent:
  assumes "engine_ok eng rseq wseq opens seals" and "sock_copy_ok copy" and "length uuid = 16"
    and "client_wire opens (rseq (rt_conn tunnel)) uuid leftover recs pts raw"
    and "rt_unread tunnel = concat recs @ raw"
    and "rx_end (rt_tcp tunnel) = None" and "tx_room (rt_tcp tunnel) = None"
    and "rx_end upstream = None" and "tx_room upstream = None" and "tx upstream = []"
  shows "\<exists>over st. vision_server_splice eng copy evs tunnel upstream leftover uuid metrics = (Inr over, st) \<and>
    prefix (tx (sp_upstream st)) (snd (vrun uuid (VDetect []) (leftover @ concat pts)) @ raw) \<and>
    (over \<longrightarrow> tx (sp_upstream st) = snd (vrun uuid (VDetect []) (leftover @ concat pts)) @ raw) \<and>
    (\<exists>w ps sent got. tx (rt_tcp (sp_tunnel st)) = tx (rt_tcp tunnel) @ w \<and>
      down_wire seals (wseq (rt_conn tunnel)) uuid w ps sent got \<and>
      prefix got (concat (rx upstream)) \<and> (over \<longrightarrow> got = concat (rx upstream)))"
proof -
  obtain st1 where s1:
    "(if leftover = [] then aret () else sp_push leftover) (splice_new tunnel upstream uuid metrics) = (Inr (), st1)"
    "up_ok rseq (rseq (rt_conn tunnel)) uuid leftover recs pts raw st1"
    "down_ok wseq seals (wseq (rt_conn tunnel)) uuid (tx (rt_tcp tunnel)) (concat (rx upstream)) st1"
    using splice_start_ok [where rseq = rseq and wseq = wseq and seals = seals,
        OF assms(4,5) refl assms(6,7,9,8,10), of metrics] by blast
  from splice_loop_ok [OF assms(1,3,4) s1(2,3), of evs] obtain over st2 where s2:
    "splice_loop eng evs st1 = (Inr over, st2)" "up_ok rseq (rseq (rt_conn tunnel)) uuid leftover recs pts raw st2"
    "down_ok wseq seals (wseq (rt_conn tunnel)) uuid (tx (rt_tcp tunnel)) (concat (rx upstream)) st2" "over = splice_over st2"
    by blast
  from splice_handoff_ok [OF assms(2,4) s2(2,3)] obtain st3 where s3: "splice_handoff copy st2 = (Inr (), st3)"
    "prefix (tx (sp_upstream st3)) (snd (vout uuid (leftover @ concat pts)) @ raw)"
    "splice_over st2 \<longrightarrow> tx (sp_upstream st3) = snd (vout uuid (leftover @ concat pts)) @ raw"
    "\<exists>w ps sent got. tx (rt_tcp (sp_tunnel st3)) = tx (rt_tcp tunnel) @ w \<and>
      down_wire seals (wseq (rt_conn tunnel)) uuid w ps sent got \<and>
      prefix got (concat (rx upstream)) \<and> (splice_over st2 \<longrightarrow> got = concat (rx upstream))"
    by blast
  have "vision_server_splice eng copy evs tunnel upstream leftover uuid metrics = (Inr over, st3)"
    using s1(1) s2(1) s3(1) by (simp add: vision_server_splice_def abind_def)
  then show ?thesis
    using s3(2-4) s2(4) by blast
qed

text \<open>An engine that only frames, to see the hypotheses met: the state counts the records of each direction.\<close>

definition sample_engine :: "(nat \<times> nat \<times> bytes \<times> bytes) TlsEngine" where
  "sample_engine =
    \<lparr>te_feed = (\<lambda>r (i, j, p, q). Inr (Suc i, j, drop 5 r, [])), te_process = Inr, te_handshaking = (\<lambda>_. False),
     te_plaintext = (\<lambda>(i, j, p, q). Inr (p, (i, j, [], q))), te_pending = (\<lambda>(i, j, p, q). (q, (i, j, p, []))),
     te_writer = (\<lambda>p (i, j, _, _). if length p \<le> DEFAULT_BUFFER_LIMIT
       then Inr (i, Suc j, [], [0x17, 3, 3] @ be16 (of_nat (length p)) @ p) else Inl WriteZero)\<rparr>"

definition sample_sock :: "bytes list \<Rightarrow> Socket" where
  "sample_sock cs = \<lparr>rx = cs, rx_end = None, tx = [], tx_room = None, sk_shut = False\<rparr>"

definition sample_sock_copy :: "Socket \<Rightarrow> Socket \<Rightarrow> Socket \<times> Socket \<times> (nat \<times> nat) option" where
  "sample_sock_copy a b = (a\<lparr>tx := tx a @ concat (rx b), rx := []\<rparr>, b\<lparr>tx := tx b @ concat (rx a), rx := []\<rparr>, None)"

lemma sample_engine_ok:
  "engine_ok sample_engine fst (fst \<circ> snd) (\<lambda>_ r. Some (drop 5 r)) (\<lambda>_ p. [0x17, 3, 3] @ be16 (of_nat (length p)) @ p)"
  by (auto simp: engine_ok_def sample_engine_def)

definition sample_direct :: bytes where
  "sample_direct = replicate 16 7 @ [2, 0, 2, 0, 0, 1, 2]"

lemma sample_direct_run: "vrun (replicate 16 7) (VDetect []) sample_direct = (VRaw (Some 2), [1, 2])"
  using vrun_first_block [of "[1, 2]" 0 "replicate 16 7" 2 "[]"]
  by (simp add: sample_direct_def block_def be16_def vdone_def)

theorem splice_transparent_witness:
  "\<exists>over st. vision_server_splice sample_engine sample_sock_copy [EvUplink, EvDownlink 3]
      \<lparr>rt_tcp = sample_sock [[0x17, 3, 3, 0, 23], sample_direct @ [9]], rt_conn = (0, 0, [], []), rt_inbuf = [], rt_read_total = 0\<rparr>
      (sample_sock [[5]]) [] (replicate 16 7) metrics_new = (Inr over, st) \<and>
    prefix (tx (sp_upstream st)) ([1, 2] @ [9])"
proof -
  let ?rec = "[0x17, 3, 3, 0, 23] @ sample_direct"
  have "length sample_direct = 23"
    by (simp add: sample_direct_def)
  then have "tls_record ?rec"
    by (simp add: tls_record_def record_total_def from_be16_def)
  then have "client_wire (\<lambda>_ r. Some (drop 5 r)) 0 (replicate 16 7) [] [?rec] [sample_direct] [9]"
    using sample_direct_run by (simp add: client_wire_def)
  moreover have "sock_copy_ok sample_sock_copy"
    by (simp add: sock_copy_ok_def sample_sock_copy_def)
  ultimately show ?thesis
    using splice_transparent [OF sample_engine_ok, of sample_sock_copy "replicate 16 7"
        "\<lparr>rt_tcp = sample_sock [[0x17, 3, 3, 0, 23], sample_direct @ [9]], rt_conn = (0, 0, [], []), rt_inbuf = [], rt_read_total = 0\<rparr>"
        "[]" "[?rec]" "[sample_direct]" "[9]" "sample_sock [[5]]" "[EvUplink, EvDownlink 3]" metrics_new] sample_direct_run
    by (simp add: sample_sock_def rt_unread_def) blast
qed

end
