(* ===== verification/Udp_Relay.thy ===== *)
theory Udp_Relay
  imports Record_Tls Metrics Dns_Resolver Stream_Interfaces
begin

text \<open>
  The interface \<^verbatim>\<open>MuxIo\<close> of \<^verbatim>\<open>donut-server/src/mux.rs\<close> with its two implementations, and the
  single-target UDP relay of \<^verbatim>\<open>vision_xray_splice.rs\<close>: length-prefixed datagrams from the tunnel
  to a connected socket and back.

  The locale \<open>mux_io\<close> is the contract of the interface (a chunk read is the next piece of what
  the peer sent, a chunk written is appended to what it will see); it is interpreted on the
  carrier stream and on the record-driven TLS session, and the relay's lemmas are proved in it.
\<close>

declare concat_eq_Nil_conv [simp del] Nil_eq_concat_conv [simp del]

section \<open>MuxIo\<close>

record 't MuxIo =
  mi_read :: "('t, ErrorKind, bytes option) act"
  mi_write :: "bytes \<Rightarrow> ('t, ErrorKind, unit) act"
  mi_close :: "'t \<Rightarrow> 't"

definition CARRIER_BUF :: nat where "CARRIER_BUF = 32 * 1024"

definition carrier_read_chunk :: "(Socket, ErrorKind, bytes option) act" where
  "carrier_read_chunk = abind (read_some CARRIER_BUF) (\<lambda>bs. aret (if bs \<noteq> [] then Some bs else None))"

definition carrier_mux_io :: "Socket MuxIo" where
  "carrier_mux_io = \<lparr>mi_read = carrier_read_chunk, mi_write = write_all, mi_close = sock_shutdown\<rparr>"

definition record_mux_io :: "'c TlsEngine \<Rightarrow> 'c RecordTlsServer MuxIo" where
  "record_mux_io eng = \<lparr>mi_read = read_record_opt eng, mi_write = write_plaintext eng, mi_close = rt_shutdown\<rparr>"

locale mux_io =
  fixes io :: "'t MuxIo"
    and ok :: "bytes \<Rightarrow> bytes \<Rightarrow> 't \<Rightarrow> bool"
    and limit :: "nat option"
  assumes read_ok: "ok inp out t \<Longrightarrow>
      (\<exists>t'. mi_read io t = (Inr None, t') \<and> inp = [] \<and> ok [] out t') \<or>
      (\<exists>p rest t'. mi_read io t = (Inr (Some p), t') \<and> inp = p @ rest \<and> ok rest out t')"
    and write_ok: "\<lbrakk>ok inp out t; 0 < length p; case limit of None \<Rightarrow> True | Some n \<Rightarrow> length p \<le> n\<rbrakk> \<Longrightarrow>
      \<exists>t'. mi_write io p t = (Inr (), t') \<and> ok inp (out @ p) t'"
    and write_refused: "\<lbrakk>ok inp out t; limit = Some n; n < length p\<rbrakk> \<Longrightarrow> \<exists>e. mi_write io p t = (Inl e, t)"
    and close_ok: "ok inp out t \<Longrightarrow> ok inp out (mi_close io t)"

definition carrier_ok :: "bytes \<Rightarrow> bytes \<Rightarrow> Socket \<Rightarrow> bool" where
  "carrier_ok inp out s \<longleftrightarrow> concat (rx s) = inp \<and> tx s = out \<and> rx_end s = None \<and> tx_room s = None"

interpretation carrier_io: mux_io carrier_mux_io carrier_ok None
proof unfold_locales
  fix inp out t
  assume a: "carrier_ok inp out t"
  then obtain bs s where r: "read_some CARRIER_BUF t = (Inr bs, s)"
    using read_some_eof [of t CARRIER_BUF] by (auto simp: carrier_ok_def)
  note f = read_some_Inr [OF r]
  show "(\<exists>t'. mi_read carrier_mux_io t = (Inr None, t') \<and> inp = [] \<and> carrier_ok [] out t') \<or>
      (\<exists>p rest t'. mi_read carrier_mux_io t = (Inr (Some p), t') \<and> inp = p @ rest \<and> carrier_ok rest out t')"
  proof (cases "bs = []")
    case True
    then show ?thesis
      using r f a by (auto simp: carrier_mux_io_def carrier_read_chunk_def abind_def carrier_ok_def CARRIER_BUF_def)
  next
    case False
    then show ?thesis
      using r f a by (auto simp: carrier_mux_io_def carrier_read_chunk_def abind_def carrier_ok_def)
  qed
next
  show "\<lbrakk>carrier_ok inp out t; 0 < length p; case None of None \<Rightarrow> True | Some n \<Rightarrow> length p \<le> n\<rbrakk> \<Longrightarrow>
      \<exists>t'. mi_write carrier_mux_io p t = (Inr (), t') \<and> carrier_ok inp (out @ p) t'" for inp out t p
    by (simp add: carrier_mux_io_def carrier_ok_def write_all_open)
  show "carrier_ok inp out t \<Longrightarrow> carrier_ok inp out (mi_close carrier_mux_io t)" for inp out t
    by (simp add: carrier_mux_io_def carrier_ok_def sock_shutdown_def)
qed simp

text \<open>The record-driven session: unread records that open to the input, sealed ones that carry the output.\<close>

definition record_ok ::
    "('c \<Rightarrow> nat) \<Rightarrow> ('c \<Rightarrow> nat) \<Rightarrow> (nat \<Rightarrow> bytes \<Rightarrow> bytes option) \<Rightarrow> (nat \<Rightarrow> bytes \<Rightarrow> bytes) \<Rightarrow> bytes \<Rightarrow> nat
      \<Rightarrow> bytes \<Rightarrow> bytes \<Rightarrow> 'c RecordTlsServer \<Rightarrow> bool" where
  "record_ok rseq wseq opens seals before n inp out t \<longleftrightarrow>
    rx_end (rt_tcp t) = None \<and> tx_room (rt_tcp t) = None \<and>
    (\<exists>recs pts. rt_unread t = concat recs \<and> concat pts = inp \<and> length pts = length recs \<and>
      (\<forall>i < length recs. tls_record (recs ! i) \<and> opens (rseq (rt_conn t) + i) (recs ! i) = Some (pts ! i))) \<and>
    (\<exists>ps. tx (rt_tcp t) = before @ concat (map (\<lambda>(i, p). seals i p) (enumerate n ps)) \<and> concat ps = out \<and>
      wseq (rt_conn t) = n + length ps)"

lemma record_mux_io_ok:
  assumes "engine_ok eng rseq wseq opens seals"
  shows "mux_io (record_mux_io eng) (record_ok rseq wseq opens seals before n) (Some DEFAULT_BUFFER_LIMIT)"
proof unfold_locales
  fix inp out t
  assume a: "record_ok rseq wseq opens seals before n inp out t"
  then obtain recs pts ps where r: "rt_unread t = concat recs" "concat pts = inp" "length pts = length recs"
      "\<forall>i < length recs. tls_record (recs ! i) \<and> opens (rseq (rt_conn t) + i) (recs ! i) = Some (pts ! i)"
      "tx (rt_tcp t) = before @ concat (map (\<lambda>(i, p). seals i p) (enumerate n ps))" "concat ps = out"
      "wseq (rt_conn t) = n + length ps" "rx_end (rt_tcp t) = None" "tx_room (rt_tcp t) = None"
    unfolding record_ok_def by blast
  show "(\<exists>t'. mi_read (record_mux_io eng) t = (Inr None, t') \<and> inp = [] \<and> record_ok rseq wseq opens seals before n [] out t') \<or>
      (\<exists>p rest t'. mi_read (record_mux_io eng) t = (Inr (Some p), t') \<and> inp = p @ rest \<and>
        record_ok rseq wseq opens seals before n rest out t')"
  proof (cases recs)
    case Nil
    then have e: "rt_unread t = []"
      using r(1) by simp
    from read_record_opt_eof [OF e r(8), of eng] obtain t' where
      "read_record_opt eng t = (Inr None, t')" "rt_unread t' = []" "rt_conn t' = rt_conn t"
      "tx (rt_tcp t') = tx (rt_tcp t)" "tx_room (rt_tcp t') = tx_room (rt_tcp t)" "rx_end (rt_tcp t') = None"
      by blast
    then show ?thesis
      using r Nil unfolding record_ok_def
      by (intro disjI1 exI [of _ t'] conjI exI [of _ "[]"] exI [of _ ps]) (simp_all add: record_mux_io_def)
  next
    case (Cons rec recs')
    then obtain p pts' where p: "pts = p # pts'"
      using r(3) by (cases pts) auto
    have rec: "tls_record rec" "opens (rseq (rt_conn t)) rec = Some p"
      using r(4) Cons p by (auto dest: spec [of _ 0])
    have rest: "\<forall>i < length recs'. tls_record (recs' ! i) \<and> opens (Suc (rseq (rt_conn t)) + i) (recs' ! i) = Some (pts' ! i)"
      using r(4) Cons p by auto
    have u: "rt_unread t = rec @ concat recs'"
      using r(1) Cons by simp
    from read_record_opt_ok [OF assms u rec] obtain t' where
      "read_record_opt eng t = (Inr (Some p), t')" "rt_unread t' = concat recs'"
      "rseq (rt_conn t') = Suc (rseq (rt_conn t))" "wseq (rt_conn t') = wseq (rt_conn t)"
      "tx (rt_tcp t') = tx (rt_tcp t)" "tx_room (rt_tcp t') = tx_room (rt_tcp t)" "rx_end (rt_tcp t') = rx_end (rt_tcp t)"
      by blast
    then show ?thesis
      using r rest Cons p unfolding record_ok_def
      by (intro disjI2 exI [of _ p] exI [of _ "concat pts'"] exI [of _ t'] conjI exI [of _ recs'] exI [of _ pts'] exI [of _ ps])
         (simp_all add: record_mux_io_def)
  qed
next
  fix inp out p :: bytes and t
  assume a: "record_ok rseq wseq opens seals before n inp out t" and "0 < length p"
    and "case Some DEFAULT_BUFFER_LIMIT of None \<Rightarrow> True | Some n \<Rightarrow> length p \<le> n"
  then have p: "0 < length p" "length p \<le> DEFAULT_BUFFER_LIMIT" "tx_room (rt_tcp t) = None"
    by (simp_all add: record_ok_def)
  from a obtain ps where ps: "tx (rt_tcp t) = before @ concat (map (\<lambda>(i, p). seals i p) (enumerate n ps))" "concat ps = out"
      "wseq (rt_conn t) = n + length ps"
    unfolding record_ok_def by blast
  from write_plaintext_ok [OF assms p] obtain t' where t: "write_plaintext eng p t = (Inr (), t')" "rt_unread t' = rt_unread t"
      "tx (rt_tcp t') = tx (rt_tcp t) @ seals (wseq (rt_conn t)) p" "tx_room (rt_tcp t') = None"
      "rx_end (rt_tcp t') = rx_end (rt_tcp t)" "rseq (rt_conn t') = rseq (rt_conn t)" "wseq (rt_conn t') = Suc (wseq (rt_conn t))"
    by blast
  have "\<exists>ps'. tx (rt_tcp t') = before @ concat (map (\<lambda>(i, p). seals i p) (enumerate n ps')) \<and> concat ps' = out @ p \<and>
      wseq (rt_conn t') = n + length ps'"
    using ps t(3,7) by (intro exI [of _ "ps @ [p]"]) (simp add: enumerate_append_eq)
  then show "\<exists>t'. mi_write (record_mux_io eng) p t = (Inr (), t') \<and> record_ok rseq wseq opens seals before n inp (out @ p) t'"
    using a t by (simp add: record_mux_io_def record_ok_def)
next
  show "\<lbrakk>record_ok rseq wseq opens seals before n inp out t; Some DEFAULT_BUFFER_LIMIT = Some k; k < length p\<rbrakk> \<Longrightarrow>
      \<exists>e. mi_write (record_mux_io eng) p t = (Inl e, t)" for inp out t k p
    using write_plaintext_refused [OF assms] by (simp add: record_mux_io_def)
  show "record_ok rseq wseq opens seals before n inp out t \<Longrightarrow>
      record_ok rseq wseq opens seals before n inp out (mi_close (record_mux_io eng) t)" for inp out t
    by (simp add: record_mux_io_def record_ok_def rt_shutdown_def sock_shutdown_def rt_unread_def)
qed

section \<open>Datagrams\<close>

definition take_datagram :: "bytes \<Rightarrow> (bytes \<times> bytes) option" where
  "take_datagram buf =
    (if length buf < 2 then None
     else
       let len = unat (from_be16 (buf ! 0) (buf ! 1)) in
       if length buf < 2 + len then None
       else Some (take len (drop 2 buf), drop (2 + len) buf))"

definition datagram_frame :: "bytes \<Rightarrow> bytes" where
  "datagram_frame data = of_nat (length data div 256) # of_nat (length data) # data"

lemma take_datagram_shorter: "take_datagram buf = Some (d, rest) \<Longrightarrow> length rest < length buf"
  by (auto simp: take_datagram_def Let_def split: if_splits)

lemma take_datagram_append: "take_datagram buf = Some (d, rest) \<Longrightarrow> take_datagram (buf @ m) = Some (d, rest @ m)"
  by (auto simp: take_datagram_def Let_def nth_append split: if_splits)

lemma take_datagram_frame:
  assumes "length d < 65536"
  shows "take_datagram (datagram_frame d @ m) = Some (d, m)"
proof -
  have "unat (from_be16 (of_nat (length d div 256)) (of_nat (length d))) = length d"
    using assms by (simp add: from_be16_of_nat unat_of_nat_u16)
  then show ?thesis
    by (simp add: take_datagram_def datagram_frame_def Let_def)
qed

text \<open>All complete datagrams of a buffer and what is left of it.\<close>

function datagrams :: "bytes \<Rightarrow> bytes list \<times> bytes" where
  "datagrams buf =
    (case take_datagram buf of
       None \<Rightarrow> ([], buf)
     | Some (d, rest) \<Rightarrow> let (ds, r) = datagrams rest in (d # ds, r))"
  by pat_completeness auto
termination
  by (relation "measure length") (auto dest: take_datagram_shorter)

declare datagrams.simps [simp del]

lemma datagrams_append:
  "datagrams (a @ b) = (let (ds, r) = datagrams a; (es, q) = datagrams (r @ b) in (ds @ es, q))"
proof (induction a rule: datagrams.induct)
  case (1 a)
  show ?case
  proof (cases "take_datagram a")
    case None
    then show ?thesis
      by (simp add: datagrams.simps [of a])
  next
    case (Some x)
    then obtain d rest where x: "take_datagram a = Some (d, rest)"
      by (cases x) auto
    have "datagrams (a @ b) = (let (ds, r) = datagrams (rest @ b) in (d # ds, r))"
      using take_datagram_append [OF x, of b] by (subst datagrams.simps) simp
    then show ?thesis
      using 1 [OF x refl] x by (simp add: datagrams.simps [of a] split: prod.splits)
  qed
qed

lemma datagrams_frames:
  "\<forall>d \<in> set ds. length d < 65536 \<Longrightarrow> datagrams (concat (map datagram_frame ds)) = (ds, [])"
proof (induction ds)
  case Nil
  then show ?case
    by (simp add: datagrams.simps take_datagram_def)
next
  case (Cons d ds)
  then show ?case
    using take_datagram_frame [of d "concat (map datagram_frame ds)"]
    by (subst datagrams.simps) simp
qed

section \<open>The relay\<close>

text \<open>
  A UDP socket: what it sent, what will arrive, and how many more sends succeed before the
  network answers with an error.
\<close>

record UdpSock =
  ud_peer :: "SocketAddr option"
  ud_sent :: "bytes list"
  ud_inbox :: "(ErrorKind + bytes) list"
  ud_room :: "nat option"

definition ud_send :: "bytes \<Rightarrow> (UdpSock, ErrorKind, unit) act" where
  "ud_send d s =
    (case ud_room s of
       None \<Rightarrow> (Inr (), s\<lparr>ud_sent := ud_sent s @ [d]\<rparr>)
     | Some 0 \<Rightarrow> (Inl ConnectionRefused, s)
     | Some (Suc n) \<Rightarrow> (Inr (), s\<lparr>ud_sent := ud_sent s @ [d], ud_room := Some n\<rparr>))"

record 't UdpRelay =
  ur_tunnel :: 't
  ur_sock :: UdpSock
  ur_inbuf :: bytes
  ur_done :: bool
  ur_metrics :: Metrics

function udp_flush :: "('t UdpRelay, ErrorKind, unit) act" where
  "udp_flush st =
    (case take_datagram (ur_inbuf st) of
       None \<Rightarrow> (Inr (), st)
     | Some (dg, rest) \<Rightarrow>
         if dg = [] then udp_flush (st\<lparr>ur_inbuf := rest\<rparr>)
         else case ud_send dg (ur_sock st) of
           (Inl e, s) \<Rightarrow> (Inl e, st\<lparr>ur_inbuf := rest, ur_sock := s\<rparr>)
         | (Inr _, s) \<Rightarrow>
             udp_flush (st\<lparr>ur_inbuf := rest, ur_sock := s, ur_metrics := add_bytes (length dg) 0 (ur_metrics st)\<rparr>))"
  by pat_completeness auto
termination
  by (relation "measure (\<lambda>st. length (ur_inbuf st))") (auto dest: take_datagram_shorter)

declare udp_flush.simps [simp del]

text \<open>The wait: an idle timeout, a chunk of the tunnel, or a datagram of the socket.\<close>

datatype UdpEvent = UdpTimeout | UdpTunnel | UdpSocket

definition udp_tunnel :: "'t MuxIo \<Rightarrow> ('t UdpRelay, ErrorKind, unit) act" where
  "udp_tunnel io st =
    (case mi_read io (ur_tunnel st) of
       (Inl e, t) \<Rightarrow> (Inl e, st\<lparr>ur_tunnel := t\<rparr>)
     | (Inr None, t) \<Rightarrow> (Inr (), st\<lparr>ur_tunnel := t, ur_done := True\<rparr>)
     | (Inr (Some pt), t) \<Rightarrow> (Inr (), st\<lparr>ur_tunnel := t, ur_inbuf := ur_inbuf st @ pt\<rparr>))"

definition udp_socket :: "'t MuxIo \<Rightarrow> ('t UdpRelay, ErrorKind, unit) act" where
  "udp_socket io st =
    (case ud_inbox (ur_sock st) of
       [] \<Rightarrow> (Inr (), st)
     | Inl e # rest \<Rightarrow> (Inl e, st\<lparr>ur_sock := (ur_sock st)\<lparr>ud_inbox := rest\<rparr>\<rparr>)
     | Inr d # rest \<Rightarrow>
         let data = take 65535 d; st = st\<lparr>ur_sock := (ur_sock st)\<lparr>ud_inbox := rest\<rparr>\<rparr> in
         case mi_write io (datagram_frame data) (ur_tunnel st) of
           (Inl e, t) \<Rightarrow> (Inl e, st\<lparr>ur_tunnel := t\<rparr>)
         | (Inr _, t) \<Rightarrow>
             (Inr (), st\<lparr>ur_tunnel := t, ur_metrics := add_bytes 0 (length data) (ur_metrics st)\<rparr>))"

text \<open>The result tells whether the relay ended or the events did.\<close>

fun udp_loop :: "'t MuxIo \<Rightarrow> UdpEvent list \<Rightarrow> ('t UdpRelay, ErrorKind, bool) act" where
  "udp_loop io evs st =
    (case udp_flush st of
       (Inl e, st) \<Rightarrow> (Inl e, st)
     | (Inr _, st) \<Rightarrow>
         if ur_done st then (Inr True, st)
         else case evs of
           [] \<Rightarrow> (Inr False, st)
         | UdpTimeout # _ \<Rightarrow> (Inr True, st)
         | UdpTunnel # evs \<Rightarrow>
             (case udp_tunnel io st of (Inl e, st) \<Rightarrow> (Inl e, st) | (Inr _, st) \<Rightarrow> udp_loop io evs st)
         | UdpSocket # evs \<Rightarrow>
             (case udp_socket io st of (Inl e, st) \<Rightarrow> (Inl e, st) | (Inr _, st) \<Rightarrow> udp_loop io evs st))"

declare udp_loop.simps [simp del]

text \<open>\<open>bind\<close> opens a socket of a family, \<open>connect\<close> fixes its peer.\<close>

definition vision_udp_relay ::
    "'t MuxIo \<Rightarrow> (bool \<Rightarrow> ErrorKind + UdpSock) \<Rightarrow> (SocketAddr \<Rightarrow> UdpSock \<Rightarrow> ErrorKind + UdpSock) \<Rightarrow> UdpEvent list
      \<Rightarrow> 't \<Rightarrow> SocketAddr \<Rightarrow> bytes \<Rightarrow> Metrics \<Rightarrow> ErrorKind + (ErrorKind + bool) \<times> 't UdpRelay" where
  "vision_udp_relay io bind connect evs tunnel target leftover metrics =
    rbind (bind (case sa_ip target of V4 _ \<Rightarrow> False | V6 _ \<Rightarrow> True)) (\<lambda>sock.
    rbind (connect target sock) (\<lambda>sock.
    case udp_loop io evs \<lparr>ur_tunnel = tunnel, ur_sock = sock, ur_inbuf = leftover, ur_done = False, ur_metrics = metrics\<rparr> of
      (Inr True, st) \<Rightarrow> Inr (Inr True, st\<lparr>ur_tunnel := mi_close io (ur_tunnel st)\<rparr>)
    | r \<Rightarrow> Inr r))"

section \<open>Lemmas\<close>

lemma udp_flush_ok:
  "\<lbrakk>ud_room (ur_sock st) = None; datagrams (ur_inbuf st) = (ds, r)\<rbrakk> \<Longrightarrow>
   \<exists>st'. udp_flush st = (Inr (), st') \<and> ur_inbuf st' = r \<and> ur_tunnel st' = ur_tunnel st \<and> ur_done st' = ur_done st \<and>
     ur_sock st' = (ur_sock st)\<lparr>ud_sent := ud_sent (ur_sock st) @ filter (\<lambda>d. d \<noteq> []) ds\<rparr>"
proof (induction st arbitrary: ds rule: udp_flush.induct)
  case (1 st)
  show ?case
  proof (cases "take_datagram (ur_inbuf st)")
    case None
    then show ?thesis
      using 1(4) by (subst udp_flush.simps) (auto simp: datagrams.simps [of "ur_inbuf st"])
  next
    case (Some x)
    then obtain d rest where x: "take_datagram (ur_inbuf st) = Some (d, rest)"
      by (cases x) auto
    then obtain es where es: "datagrams rest = (es, r)" "ds = d # es"
      using 1(4) by (auto simp: datagrams.simps [of "ur_inbuf st"] split: prod.splits)
    show ?thesis
    proof (cases "d = []")
      case True
      then show ?thesis
        using 1(1) [OF x refl True, of es] 1(3) x es by (subst udp_flush.simps) simp
    next
      case False
      let ?s = "(ur_sock st)\<lparr>ud_sent := ud_sent (ur_sock st) @ [d]\<rparr>"
      have s: "ud_send d (ur_sock st) = (Inr (), ?s)"
        using 1(3) by (simp add: ud_send_def)
      show ?thesis
        using 1(2) [OF x refl False s [symmetric] refl, of es] 1(3) x es False s by (subst udp_flush.simps) simp
    qed
  qed
qed

text \<open>
  The relay's invariant, for a client stream \<open>leftover @ input\<close> and the socket's \<open>replies\<close>: of the
  datagrams read so far \<open>ds\<close> have been sent and \<open>es\<close> wait in the buffer.
\<close>

definition udp_inv ::
    "(bytes \<Rightarrow> bytes \<Rightarrow> 't \<Rightarrow> bool) \<Rightarrow> bytes \<Rightarrow> bytes \<Rightarrow> bytes list \<Rightarrow> bytes \<Rightarrow> bytes list \<Rightarrow> bytes list \<Rightarrow> 't UdpRelay \<Rightarrow> bool" where
  "udp_inv ok leftover input replies rd es got st \<longleftrightarrow>
    (\<exists>rest left ds q. input = rd @ rest \<and> ok rest (concat (map datagram_frame got)) (ur_tunnel st) \<and>
      datagrams (leftover @ rd) = (ds @ es, q) \<and> datagrams (ur_inbuf st) = (es, q) \<and>
      ud_sent (ur_sock st) = filter (\<lambda>d. d \<noteq> []) ds \<and> ud_room (ur_sock st) = None \<and>
      replies = got @ left \<and> ud_inbox (ur_sock st) = map Inr left \<and> (ur_done st \<longrightarrow> rest = []))"

lemma udp_inv_flush:
  assumes "udp_inv ok leftover input replies rd es got st"
  shows "\<exists>st'. udp_flush st = (Inr (), st') \<and> udp_inv ok leftover input replies rd [] got st' \<and> ur_done st' = ur_done st"
proof -
  obtain rest left ds q where i: "input = rd @ rest" "ok rest (concat (map datagram_frame got)) (ur_tunnel st)"
      "datagrams (leftover @ rd) = (ds @ es, q)" "datagrams (ur_inbuf st) = (es, q)"
      "ud_sent (ur_sock st) = filter (\<lambda>d. d \<noteq> []) ds" "ud_room (ur_sock st) = None"
      "replies = got @ left" "ud_inbox (ur_sock st) = map Inr left" "ur_done st \<longrightarrow> rest = []"
    using assms by (auto simp: udp_inv_def)
  from udp_flush_ok [OF i(6,4)] obtain st' where st': "udp_flush st = (Inr (), st')" "ur_inbuf st' = q"
      "ur_tunnel st' = ur_tunnel st" "ur_done st' = ur_done st"
      "ur_sock st' = (ur_sock st)\<lparr>ud_sent := ud_sent (ur_sock st) @ filter (\<lambda>d. d \<noteq> []) es\<rparr>"
    by blast
  have "datagrams q = ([], q)"
    using datagrams_append [of "leftover @ rd" "[]"] i(3) by (simp split: prod.splits)
  then have "udp_inv ok leftover input replies rd [] got st'"
    unfolding udp_inv_def using i st'
    by (intro exI [of _ rest] exI [of _ left] exI [of _ "ds @ es"] exI [of _ q]) simp
  with st'(1,4) show ?thesis
    by blast
qed

context mux_io
begin

lemma udp_tunnel_ok:
  assumes "udp_inv ok leftover input replies rd [] got st"
  shows "\<exists>st' rd' es. udp_tunnel io st = (Inr (), st') \<and> udp_inv ok leftover input replies rd' es got st'"
proof -
  obtain rest left ds q where i: "input = rd @ rest" "ok rest (concat (map datagram_frame got)) (ur_tunnel st)"
      "datagrams (leftover @ rd) = (ds, q)" "datagrams (ur_inbuf st) = ([], q)"
      "ud_sent (ur_sock st) = filter (\<lambda>d. d \<noteq> []) ds" "ud_room (ur_sock st) = None"
      "replies = got @ left" "ud_inbox (ur_sock st) = map Inr left" "ur_done st \<longrightarrow> rest = []"
    using assms by (auto simp: udp_inv_def)
  have q: "ur_inbuf st = q"
    using i(4) by (subst (asm) datagrams.simps) (auto split: option.splits prod.splits)
  from read_ok [OF i(2)] consider
    (eof) t' where "mi_read io (ur_tunnel st) = (Inr None, t')" "rest = []" "ok [] (concat (map datagram_frame got)) t'"
  | (data) p rest' t' where "mi_read io (ur_tunnel st) = (Inr (Some p), t')" "rest = p @ rest'"
      "ok rest' (concat (map datagram_frame got)) t'"
    by blast
  then show ?thesis
  proof cases
    case eof
    have "udp_inv ok leftover input replies rd [] got (st\<lparr>ur_tunnel := t', ur_done := True\<rparr>)"
      unfolding udp_inv_def using i eof
      by (intro exI [of _ rest] exI [of _ left] exI [of _ ds] exI [of _ q]) simp
    then show ?thesis
      using eof(1) by (auto simp: udp_tunnel_def)
  next
    case data
    obtain es q' where e: "datagrams (q @ p) = (es, q')"
      by fastforce
    have "datagrams (leftover @ rd @ p) = (ds @ es, q')"
      using datagrams_append [of "leftover @ rd" p] i(3) e by simp
    then have "udp_inv ok leftover input replies (rd @ p) es got (st\<lparr>ur_tunnel := t', ur_inbuf := ur_inbuf st @ p\<rparr>)"
      unfolding udp_inv_def using i data e q
      by (intro exI [of _ rest'] exI [of _ left] exI [of _ ds] exI [of _ q']) auto
    then show ?thesis
      using data(1) by (auto simp: udp_tunnel_def)
  qed
qed

lemma udp_socket_ok:
  assumes "udp_inv ok leftover input replies rd es got st" and "\<forall>d \<in> set replies. length d < 65535"
    and "case limit of None \<Rightarrow> True | Some n \<Rightarrow> 65536 \<le> n"
  shows "\<exists>st' got'. udp_socket io st = (Inr (), st') \<and> udp_inv ok leftover input replies rd es got' st'"
proof -
  obtain rest left ds q where i: "input = rd @ rest" "ok rest (concat (map datagram_frame got)) (ur_tunnel st)"
      "datagrams (leftover @ rd) = (ds @ es, q)" "datagrams (ur_inbuf st) = (es, q)"
      "ud_sent (ur_sock st) = filter (\<lambda>d. d \<noteq> []) ds" "ud_room (ur_sock st) = None"
      "replies = got @ left" "ud_inbox (ur_sock st) = map Inr left" "ur_done st \<longrightarrow> rest = []"
    using assms by (auto simp: udp_inv_def)
  show ?thesis
  proof (cases left)
    case Nil
    then show ?thesis
      using assms(1) i(8) by (auto simp: udp_socket_def)
  next
    case (Cons d left')
    have d: "length d < 65535"
      using assms(2) i(7) Cons by simp
    then have "0 < length (datagram_frame d)" "case limit of None \<Rightarrow> True | Some n \<Rightarrow> length (datagram_frame d) \<le> n"
      using assms(3) by (auto simp: datagram_frame_def split: option.splits)
    from write_ok [OF i(2) this] obtain t' where t': "mi_write io (datagram_frame d) (ur_tunnel st) = (Inr (), t')"
        "ok rest (concat (map datagram_frame got) @ datagram_frame d) t'"
      by blast
    let ?st = "st\<lparr>ur_sock := (ur_sock st)\<lparr>ud_inbox := map Inr left'\<rparr>, ur_tunnel := t',
        ur_metrics := add_bytes 0 (length d) (ur_metrics st)\<rparr>"
    have "udp_inv ok leftover input replies rd es (got @ [d]) ?st"
      unfolding udp_inv_def using i t'(2) Cons
      by (intro exI [of _ rest] exI [of _ left'] exI [of _ ds] exI [of _ q]) simp
    then show ?thesis
      using i(8) Cons d t'(1) by (auto simp: udp_socket_def Let_def)
  qed
qed

lemma udp_loop_ok:
  assumes "\<forall>d \<in> set replies. length d < 65535" and "case limit of None \<Rightarrow> True | Some n \<Rightarrow> 65536 \<le> n"
  shows "udp_inv ok leftover input replies rd es got st \<Longrightarrow>
    \<exists>over st' rd' got'. udp_loop io evs st = (Inr over, st') \<and> udp_inv ok leftover input replies rd' [] got' st'"
proof (induction evs arbitrary: st rd es got)
  case Nil
  obtain st1 where "udp_flush st = (Inr (), st1)" "udp_inv ok leftover input replies rd [] got st1"
    using udp_inv_flush [OF Nil] by blast
  then show ?case
    by (cases "ur_done st1") (subst udp_loop.simps, simp, blast)+
next
  case (Cons ev evs)
  obtain st1 where f: "udp_flush st = (Inr (), st1)" "udp_inv ok leftover input replies rd [] got st1"
    using udp_inv_flush [OF Cons.prems] by blast
  show ?case
  proof (cases "ur_done st1 \<or> ev = UdpTimeout")
    case True
    then have "udp_loop io (ev # evs) st = (Inr True, st1)"
      using f(1) by (subst udp_loop.simps) auto
    then show ?thesis
      using f(2) by blast
  next
    case False
    then consider (t) "ev = UdpTunnel" "\<not> ur_done st1" | (s) "ev = UdpSocket" "\<not> ur_done st1"
      by (cases ev) auto
    then show ?thesis
    proof cases
      case t
      obtain st2 rd' es' where "udp_tunnel io st1 = (Inr (), st2)" "udp_inv ok leftover input replies rd' es' got st2"
        using udp_tunnel_ok [OF f(2)] by blast
      then show ?thesis
        using Cons.IH [of rd' es' got st2] t f(1) by (subst udp_loop.simps) simp
    next
      case s
      obtain st2 got' where "udp_socket io st1 = (Inr (), st2)" "udp_inv ok leftover input replies rd [] got' st2"
        using udp_socket_ok [OF f(2) assms] by blast
      then show ?thesis
        using Cons.IH [of rd "[]" got' st2] s f(1) by (subst udp_loop.simps) simp
    qed
  qed
qed

end

section \<open>The plaintext relay\<close>

text \<open>
  \<^verbatim>\<open>tls_plain_relay\<close>: a client without Vision, or a probe on its way to the decoy, over the outer
  TLS.  Metrics are counted only for tunnels.
\<close>

record 't PlainRelay =
  pr_tunnel :: 't
  pr_target :: Socket
  pr_tunnel_done :: bool
  pr_target_done :: bool
  pr_metrics :: "Metrics option"

definition count_bytes :: "nat \<Rightarrow> nat \<Rightarrow> Metrics option \<Rightarrow> Metrics option" where
  "count_bytes up down m = map_option (add_bytes up down) m"

definition pr_forward :: "bytes \<Rightarrow> ('t PlainRelay, ErrorKind, unit) act" where
  "pr_forward data st =
    (if data = [] then (Inr (), st)
     else case write_all data (pr_target st) of
       (Inl e, g) \<Rightarrow> (Inl e, st\<lparr>pr_target := g\<rparr>)
     | (Inr _, g) \<Rightarrow> (Inr (), st\<lparr>pr_target := g, pr_metrics := count_bytes (length data) 0 (pr_metrics st)\<rparr>))"

definition pr_from_tunnel :: "'t MuxIo \<Rightarrow> ('t PlainRelay, ErrorKind, unit) act" where
  "pr_from_tunnel io st =
    (case mi_read io (pr_tunnel st) of
       (Inl e, t) \<Rightarrow> (Inl e, st\<lparr>pr_tunnel := t\<rparr>)
     | (Inr None, t) \<Rightarrow>
         (Inr (), st\<lparr>pr_tunnel := t, pr_tunnel_done := True, pr_target := sock_shutdown (pr_target st)\<rparr>)
     | (Inr (Some pt), t) \<Rightarrow> pr_forward pt (st\<lparr>pr_tunnel := t\<rparr>))"

definition pr_from_target :: "'t MuxIo \<Rightarrow> ('t PlainRelay, ErrorKind, unit) act" where
  "pr_from_target io st =
    (case read_some READ_CHUNK (pr_target st) of
       (Inl e, g) \<Rightarrow> (Inl e, st\<lparr>pr_target := g\<rparr>)
     | (Inr bs, g) \<Rightarrow>
         let st = st\<lparr>pr_target := g\<rparr> in
         if bs = [] then (Inr (), st\<lparr>pr_target_done := True, pr_tunnel := mi_close io (pr_tunnel st)\<rparr>)
         else case mi_write io bs (pr_tunnel st) of
           (Inl e, t) \<Rightarrow> (Inl e, st\<lparr>pr_tunnel := t\<rparr>)
         | (Inr _, t) \<Rightarrow>
             (Inr (), st\<lparr>pr_tunnel := t, pr_metrics := count_bytes 0 (length bs) (pr_metrics st)\<rparr>))"

text \<open>A schedule names the branch that completes: the tunnel's (true) or the target's.\<close>

fun plain_loop :: "'t MuxIo \<Rightarrow> bool list \<Rightarrow> ('t PlainRelay, ErrorKind, bool) act" where
  "plain_loop io [] st = (Inr (pr_tunnel_done st \<and> pr_target_done st), st)"
| "plain_loop io (ev # evs) st =
    (if pr_tunnel_done st \<and> pr_target_done st then (Inr True, st)
     else case (if ev then (if pr_tunnel_done st then (Inr (), st) else pr_from_tunnel io st)
                else (if pr_target_done st then (Inr (), st) else pr_from_target io st)) of
       (Inl e, st) \<Rightarrow> (Inl e, st)
     | (Inr _, st) \<Rightarrow> plain_loop io evs st)"

definition tls_plain_relay ::
    "'c TlsEngine \<Rightarrow> bool list \<Rightarrow> 'c RecordTlsServer \<Rightarrow> Socket \<Rightarrow> bytes \<Rightarrow> Metrics option
      \<Rightarrow> (ErrorKind + bool) \<times> 'c RecordTlsServer PlainRelay" where
  "tls_plain_relay eng evs tunnel target initial metrics =
    abind (pr_forward initial) (\<lambda>_. plain_loop (record_mux_io eng) evs)
      \<lparr>pr_tunnel = tunnel, pr_target = target, pr_tunnel_done = False, pr_target_done = False, pr_metrics = metrics\<rparr>"

definition plain_inv :: "(bytes \<Rightarrow> bytes \<Rightarrow> 't \<Rightarrow> bool) \<Rightarrow> bytes \<Rightarrow> bytes \<Rightarrow> bytes \<Rightarrow> 't PlainRelay \<Rightarrow> bool" where
  "plain_inv ok out0 up down st \<longleftrightarrow>
    (\<exists>rest got. ok rest (out0 @ got) (pr_tunnel st) \<and> tx (pr_target st) @ rest = up \<and> got @ concat (rx (pr_target st)) = down \<and>
      rx_end (pr_target st) = None \<and> tx_room (pr_target st) = None \<and>
      (pr_tunnel_done st \<longrightarrow> rest = []) \<and> (pr_target_done st \<longrightarrow> concat (rx (pr_target st)) = []))"

context mux_io
begin

lemma plain_from_tunnel:
  assumes "plain_inv ok out0 up down st"
  shows "\<exists>st'. pr_from_tunnel io st = (Inr (), st') \<and> plain_inv ok out0 up down st'"
proof -
  obtain rest got where i: "ok rest (out0 @ got) (pr_tunnel st)" "tx (pr_target st) @ rest = up"
      "got @ concat (rx (pr_target st)) = down" "rx_end (pr_target st) = None" "tx_room (pr_target st) = None"
      "pr_tunnel_done st \<longrightarrow> rest = []" "pr_target_done st \<longrightarrow> concat (rx (pr_target st)) = []"
    using assms by (auto simp: plain_inv_def)
  from read_ok [OF i(1)] consider
    (eof) t' where "mi_read io (pr_tunnel st) = (Inr None, t')" "rest = []" "ok [] (out0 @ got) t'"
  | (data) p rest' t' where "mi_read io (pr_tunnel st) = (Inr (Some p), t')" "rest = p @ rest'" "ok rest' (out0 @ got) t'"
    by blast
  then show ?thesis
  proof cases
    case eof
    then show ?thesis
      using i by (auto simp: pr_from_tunnel_def plain_inv_def sock_shutdown_def)
  next
    case data
    then show ?thesis
      using i by (cases "p = []") (auto simp: pr_from_tunnel_def pr_forward_def plain_inv_def write_all_open)
  qed
qed

lemma plain_from_target:
  assumes "plain_inv ok out0 up down st" and "case limit of None \<Rightarrow> True | Some n \<Rightarrow> READ_CHUNK \<le> n"
  shows "\<exists>st'. pr_from_target io st = (Inr (), st') \<and> plain_inv ok out0 up down st'"
proof -
  obtain rest got where i: "ok rest (out0 @ got) (pr_tunnel st)" "tx (pr_target st) @ rest = up"
      "got @ concat (rx (pr_target st)) = down" "rx_end (pr_target st) = None" "tx_room (pr_target st) = None"
      "pr_tunnel_done st \<longrightarrow> rest = []" "pr_target_done st \<longrightarrow> concat (rx (pr_target st)) = []"
    using assms(1) by (auto simp: plain_inv_def)
  obtain bs g where r: "read_some READ_CHUNK (pr_target st) = (Inr bs, g)"
    using read_some_eof [OF i(4), of READ_CHUNK] by blast
  note f = read_some_Inr [OF r]
  show ?thesis
  proof (cases "bs = []")
    case True
    then show ?thesis
      using r f i close_ok by (auto simp: pr_from_target_def plain_inv_def READ_CHUNK_def)
  next
    case False
    then have "0 < length bs" "case limit of None \<Rightarrow> True | Some n \<Rightarrow> length bs \<le> n"
      using assms(2) f(2) by (auto split: option.splits)
    from write_ok [OF i(1) this] obtain t' where t': "mi_write io bs (pr_tunnel st) = (Inr (), t')" "ok rest ((out0 @ got) @ bs) t'"
      by blast
    have "plain_inv ok out0 up down (st\<lparr>pr_target := g, pr_tunnel := t', pr_metrics := count_bytes 0 (length bs) (pr_metrics st)\<rparr>)"
      unfolding plain_inv_def using i f t'(2) by (intro exI [of _ rest] exI [of _ "got @ bs"]) auto
    then show ?thesis
      using r False t'(1) by (simp add: pr_from_target_def)
  qed
qed

lemma plain_loop_ok:
  assumes "case limit of None \<Rightarrow> True | Some n \<Rightarrow> READ_CHUNK \<le> n"
  shows "plain_inv ok out0 up down st \<Longrightarrow>
    \<exists>over st'. plain_loop io evs st = (Inr over, st') \<and> plain_inv ok out0 up down st' \<and>
      over = (pr_tunnel_done st' \<and> pr_target_done st')"
proof (induction evs arbitrary: st)
  case (Cons ev evs)
  show ?case
  proof (cases "pr_tunnel_done st \<and> pr_target_done st")
    case True
    then show ?thesis
      using Cons.prems by auto
  next
    case False
    obtain st1 where "(if ev then (if pr_tunnel_done st then (Inr (), st) else pr_from_tunnel io st)
        else (if pr_target_done st then (Inr (), st) else pr_from_target io st)) = (Inr (), st1)" "plain_inv ok out0 up down st1"
      using plain_from_tunnel [OF Cons.prems] plain_from_target [OF Cons.prems assms] Cons.prems by metis
    then show ?thesis
      using False Cons.IH [of st1] by auto
  qed
qed simp

end

text \<open>
  The plaintext relay over the outer TLS loses and adds nothing, in either direction: at any
  point the target has a prefix of the client's stream and the client one of the target's, and at
  the end both are complete.
\<close>

lemma plain_relay_exact:
  assumes "engine_ok eng rseq wseq opens seals" and "record_ok rseq wseq opens seals before n inp out0 tunnel"
    and "rx_end target = None" and "tx_room target = None"
  shows "\<exists>over st out. tls_plain_relay eng evs tunnel target initial metrics = (Inr over, st) \<and>
    prefix (tx (pr_target st)) (tx target @ initial @ inp) \<and> prefix out (concat (rx target)) \<and>
    (\<exists>rest. record_ok rseq wseq opens seals before n rest (out0 @ out) (pr_tunnel st)) \<and>
    (over \<longrightarrow> tx (pr_target st) = tx target @ initial @ inp \<and> out = concat (rx target))"
proof -
  let ?ok = "record_ok rseq wseq opens seals before n" and ?up = "tx target @ initial @ inp"
  let ?st = "\<lparr>pr_tunnel = tunnel, pr_target = target, pr_tunnel_done = False, pr_target_done = False, pr_metrics = metrics\<rparr>"
  have "case Some DEFAULT_BUFFER_LIMIT of None \<Rightarrow> True | Some n \<Rightarrow> READ_CHUNK \<le> n"
    by (simp add: DEFAULT_BUFFER_LIMIT_def READ_CHUNK_def)
  note loop = mux_io.plain_loop_ok [OF record_mux_io_ok [OF assms(1)] this]
  have "\<exists>st1. pr_forward initial ?st = (Inr (), st1) \<and> plain_inv ?ok out0 ?up (concat (rx target)) st1"
    using assms(2-4) by (cases "initial = []") (auto simp: pr_forward_def plain_inv_def write_all_open)
  then obtain st1 where s: "pr_forward initial ?st = (Inr (), st1)" "plain_inv ?ok out0 ?up (concat (rx target)) st1"
    by blast
  from loop [OF s(2), of evs] obtain over st where "plain_loop (record_mux_io eng) evs st1 = (Inr over, st)"
      "plain_inv ?ok out0 ?up (concat (rx target)) st" "over = (pr_tunnel_done st \<and> pr_target_done st)"
    by blast
  moreover from this obtain rest got where "?ok rest (out0 @ got) (pr_tunnel st)" "tx (pr_target st) @ rest = ?up"
      "got @ concat (rx (pr_target st)) = concat (rx target)" "pr_tunnel_done st \<longrightarrow> rest = []"
      "pr_target_done st \<longrightarrow> concat (rx (pr_target st)) = []"
    by (auto simp: plain_inv_def)
  moreover from this have "prefix (tx (pr_target st)) ?up" "prefix got (concat (rx target))"
    by (metis prefixI)+
  ultimately show ?thesis
    using s(1) by (intro exI [of _ over] exI [of _ st] exI [of _ got]) (auto simp: tls_plain_relay_def abind_def)
qed

section \<open>Properties\<close>

text \<open>
  C29.  The UDP relay keeps datagram boundaries in both directions under every schedule.  What
  it has sent to the target are the non-empty datagrams of what it has read from the client, in
  order and one send each, however the client's bytes were cut; once the client has closed,
  all of them.  What it has written to the client splits into the datagrams the
  socket delivered, in order.
\<close>

theorem udp_relay_exact:
  assumes "bind (case sa_ip target of V4 _ \<Rightarrow> False | V6 _ \<Rightarrow> True) = Inr sock0" and "connect target sock0 = Inr sock"
    and "ud_sent sock = []" and "ud_room sock = None" and "ud_inbox sock = map Inr replies"
    and "\<forall>d \<in> set replies. length d < 65535"
    and "rx_end tunnel = None" and "tx_room tunnel = None" and "tx tunnel = []"
  shows "\<exists>over st rd got. vision_udp_relay carrier_mux_io bind connect evs tunnel target leftover metrics = Inr (Inr over, st) \<and>
    prefix rd (concat (rx tunnel)) \<and> (ur_done st \<longrightarrow> rd = concat (rx tunnel)) \<and>
    ud_sent (ur_sock st) = filter (\<lambda>d. d \<noteq> []) (fst (datagrams (leftover @ rd))) \<and>
    prefix got replies \<and> datagrams (tx (ur_tunnel st)) = (got, [])"
proof -
  let ?st = "\<lparr>ur_tunnel = tunnel, ur_sock = sock, ur_inbuf = leftover, ur_done = False, ur_metrics = metrics\<rparr>"
  have "udp_inv carrier_ok leftover (concat (rx tunnel)) replies [] (fst (datagrams leftover)) [] ?st"
    unfolding udp_inv_def using assms(3-5,7-9)
    by (intro exI [of _ "concat (rx tunnel)"] exI [of _ replies] exI [of _ "[]"] exI [of _ "snd (datagrams leftover)"])
       (simp add: carrier_ok_def)
  from carrier_io.udp_loop_ok [OF assms(6) _ this, of evs] obtain over st rd got where
    l: "udp_loop carrier_mux_io evs ?st = (Inr over, st)"
      "udp_inv carrier_ok leftover (concat (rx tunnel)) replies rd [] got st"
    by auto
  then have i: "prefix rd (concat (rx tunnel))" "ur_done st \<longrightarrow> rd = concat (rx tunnel)"
      "ud_sent (ur_sock st) = filter (\<lambda>d. d \<noteq> []) (fst (datagrams (leftover @ rd)))"
      "prefix got replies" "tx (ur_tunnel st) = concat (map datagram_frame got)"
    by (auto simp: udp_inv_def carrier_ok_def)
  have "\<forall>d \<in> set got. length d < 65536"
    using i(4) assms(6) set_mono_prefix by fastforce
  from datagrams_frames [OF this] have g: "datagrams (tx (ur_tunnel st)) = (got, [])"
    using i(5) by simp
  define st' where "st' = (if over then st\<lparr>ur_tunnel := sock_shutdown (ur_tunnel st)\<rparr> else st)"
  have "vision_udp_relay carrier_mux_io bind connect evs tunnel target leftover metrics = Inr (Inr over, st')"
    using l(1) assms(1,2) by (cases over) (simp_all add: vision_udp_relay_def st'_def carrier_mux_io_def)
  moreover have "ur_done st' = ur_done st" "ur_sock st' = ur_sock st" "tx (ur_tunnel st') = tx (ur_tunnel st)"
    by (simp_all add: st'_def sock_shutdown_def)
  ultimately show ?thesis
    using i g by (intro exI [of _ over] exI [of _ st'] exI [of _ rd] exI [of _ got]) simp
qed

theorem udp_relay_exact_witness:
  "\<exists>over st rd. vision_udp_relay carrier_mux_io
      (\<lambda>_. Inr \<lparr>ud_peer = None, ud_sent = [], ud_inbox = [Inr [4]], ud_room = None\<rparr>) (\<lambda>a s. Inr (s\<lparr>ud_peer := Some a\<rparr>))
      [UdpTunnel, UdpSocket] \<lparr>rx = [[1, 7]], rx_end = None, tx = [], tx_room = None, sk_shut = False\<rparr>
      \<lparr>sa_ip = V4 1, sa_port = 53\<rparr> [0] metrics_new = Inr (Inr over, st) \<and>
    prefix rd [1, 7] \<and> ud_sent (ur_sock st) = filter (\<lambda>d. d \<noteq> []) (fst (datagrams ([0] @ rd)))"
  using udp_relay_exact [of "\<lambda>_. Inr \<lparr>ud_peer = None, ud_sent = [], ud_inbox = [Inr [4]], ud_room = None\<rparr>"
      "\<lparr>sa_ip = V4 1, sa_port = 53\<rparr>" "\<lparr>ud_peer = None, ud_sent = [], ud_inbox = [Inr [4]], ud_room = None\<rparr>"
      "\<lambda>a s. Inr (s\<lparr>ud_peer := Some a\<rparr>)"
      "\<lparr>ud_peer = Some \<lparr>sa_ip = V4 1, sa_port = 53\<rparr>, ud_sent = [], ud_inbox = [Inr [4]], ud_room = None\<rparr>"
      "[[4]]" "\<lparr>rx = [[1, 7]], rx_end = None, tx = [], tx_room = None, sk_shut = False\<rparr>" "[UdpTunnel, UdpSocket]" "[0]" metrics_new]
  by simp blast

end
