(* ===== verification/Mux_Codec.thy ===== *)
theory Mux_Codec
  imports Vision_Codec Udp_Relay
begin

text \<open>
  The frames of Mux.Cool / XUDP (\<^verbatim>\<open>donut-server/src/mux.rs\<close>): addresses, the frame parser, the
  downlink frame and the Vision padding of the first one.  \<open>mux_frame\<close> is the client's encoder,
  written from the frame layout the source documents; the parser reads back what it writes, and
  its verdict on a prefix is stable, so frames may be parsed as their bytes arrive.
\<close>

unbundle bit_operations_syntax

declare concat_eq_Nil_conv [simp del] Nil_eq_concat_conv [simp del]

section \<open>Layout\<close>

definition STATUS_NEW :: u8 where "STATUS_NEW = 1"
definition STATUS_KEEP :: u8 where "STATUS_KEEP = 2"
definition STATUS_END :: u8 where "STATUS_END = 3"
definition STATUS_KEEPALIVE :: u8 where "STATUS_KEEPALIVE = 4"
definition OPTION_DATA :: u8 where "OPTION_DATA = 1"
definition NET_UDP :: u8 where "NET_UDP = 2"

lemmas mux_consts = STATUS_NEW_def STATUS_KEEP_def STATUS_END_def STATUS_KEEPALIVE_def OPTION_DATA_def NET_UDP_def

datatype MuxAddr = MuxIp SocketAddr | MuxDomain rstr u16

definition read_addr :: "bytes \<Rightarrow> (MuxAddr \<times> nat) option" where
  "read_addr b =
    (if length b < 3 then None
     else
       let prt = from_be16 (b ! 0) (b ! 1); ty = b ! 2 in
       if ty = 1 then
         (if length b < 7 then None
          else Some (MuxIp \<lparr>sa_ip = V4 (ipv4_from_octets (take 4 (drop 3 b))), sa_port = prt\<rparr>, 7))
       else if ty = 3 then
         (if length b < 19 then None
          else Some (MuxIp \<lparr>sa_ip = V6 (ipv6_from_octets (take 16 (drop 3 b))), sa_port = prt\<rparr>, 19))
       else if ty = 2 then
         (if length b < 4 then None
          else
            let dlen = unat (b ! 3) in
            if length b < 4 + dlen then None
            else Some (MuxDomain (utf8_lossy (take dlen (drop 4 b))) prt, 4 + dlen))
       else None)"

definition write_addr :: "SocketAddr \<Rightarrow> bytes" where
  "write_addr src =
    NET_UDP # be16 (sa_port src) @
    (case sa_ip src of V4 a \<Rightarrow> 1 # ipv4_octets a | V6 a \<Rightarrow> 3 # ipv6_octets a)"

record Frame =
  fr_sid :: u16
  fr_status :: u8
  fr_target :: "MuxAddr option"
  fr_data :: "bytes option"

definition meta_target :: "bytes \<Rightarrow> ErrorKind + MuxAddr option" where
  "meta_target meta =
    (let status = meta ! 2;
         has_addr = (status = STATUS_NEW \<or> status = STATUS_KEEP \<and> length meta > 4 \<and> meta ! 4 = NET_UDP)
     in if has_addr then
          (if length meta < 5 then Inl InvalidData
           else case read_addr (drop 5 meta) of
                  Some (a, _) \<Rightarrow> Inr (Some a)
                | None \<Rightarrow> Inl InvalidData)
        else Inr None)"

definition frame_data :: "u8 \<Rightarrow> nat \<Rightarrow> bytes \<Rightarrow> (bytes option \<times> nat) option" where
  "frame_data option consumed buf =
    (if option AND OPTION_DATA \<noteq> 0 then
       (if length buf < consumed + 2 then None
        else
          let dlen = unat (from_be16 (buf ! consumed) (buf ! (consumed + 1))); start = consumed + 2 in
          if length buf < start + dlen then None
          else Some (Some (take dlen (drop start buf)), start + dlen))
     else Some (None, consumed))"

definition parse_frame :: "bytes \<Rightarrow> ErrorKind + (Frame \<times> bytes) option" where
  "parse_frame buf =
    (if length buf < 2 then Inr None
     else
       let meta_len = unat (from_be16 (buf ! 0) (buf ! 1)) in
       if \<not> (4 \<le> meta_len \<and> meta_len \<le> 512) then Inl InvalidData
       else if length buf < 2 + meta_len then Inr None
       else
         let meta = take meta_len (drop 2 buf) in
         rbind (meta_target meta) (\<lambda>target.
         Inr (map_option (\<lambda>(data, consumed).
               (\<lparr>fr_sid = from_be16 (meta ! 0) (meta ! 1), fr_status = meta ! 2, fr_target = target, fr_data = data\<rparr>,
                drop consumed buf))
             (frame_data (meta ! 3) (2 + meta_len) buf))))"

definition keep_frame :: "u16 \<Rightarrow> SocketAddr \<Rightarrow> bytes \<Rightarrow> bytes" where
  "keep_frame sid src data =
    (let meta = be16 sid @ [STATUS_KEEP, OPTION_DATA] @ write_addr src
     in [of_nat (length meta div 256), of_nat (length meta)] @ meta @
        [of_nat (length data div 256), of_nat (length data)] @ data)"

section \<open>Vision around the frames\<close>

definition devision :: "Unpadder option \<Rightarrow> bytes \<Rightarrow> Unpadder option \<times> bytes" where
  "devision unp data =
    (case unp of
       Some u \<Rightarrow> (case unpadder_push u data of (u', out) \<Rightarrow> (Some u', out))
     | None \<Rightarrow> (None, data))"

function chunks :: "nat \<Rightarrow> bytes \<Rightarrow> bytes list" where
  "chunks n xs = (if n = 0 \<or> xs = [] then [] else take n xs # chunks n (drop n xs))"
  by pat_completeness auto
termination
  by (relation "measure (\<lambda>(n, xs). length xs)") auto

declare chunks.simps [simp del]

text \<open>The random draw of the \<open>k\<close>-th block is \<open>draws k\<close>.\<close>

fun revision_blocks :: "(nat \<Rightarrow> nat) \<Rightarrow> nat \<Rightarrow> bytes option \<Rightarrow> bytes list \<Rightarrow> bytes" where
  "revision_blocks draws k once [] = []"
| "revision_blocks draws k once (c # cs) =
    (let command = (if cs = [] then CMD_PADDING_END else CMD_PADDING_CONTINUE);
         (once', out) = xtls_padding c command once False DEFAULT_SEED (draws k)
     in out @ revision_blocks draws (Suc k) once' cs)"

definition revision :: "bytes \<Rightarrow> bytes \<Rightarrow> (nat \<Rightarrow> nat) \<Rightarrow> bytes" where
  "revision uuid frame draws =
    (if frame = [] then snd (xtls_padding [] CMD_PADDING_END (Some uuid) False DEFAULT_SEED (draws 0))
     else revision_blocks draws 0 (Some uuid) (chunks (BUF_SIZE - 21) frame))"

section \<open>The client's encoder\<close>

fun addr_bytes :: "MuxAddr \<Rightarrow> bytes" where
  "addr_bytes (MuxIp s) = write_addr s"
| "addr_bytes (MuxDomain h p) = NET_UDP # be16 p @ [2, of_nat (length h)] @ h"

fun addr_ok :: "MuxAddr \<Rightarrow> bool" where
  "addr_ok (MuxIp s) = True"
| "addr_ok (MuxDomain h p) \<longleftrightarrow> length h < 256 \<and> utf8_valid h"

definition mux_frame :: "Frame \<Rightarrow> bytes \<Rightarrow> bytes" where
  "mux_frame f gid =
    (let meta = be16 (fr_sid f) @ [fr_status f, if fr_data f = None then 0 else OPTION_DATA] @
           (case fr_target f of None \<Rightarrow> [] | Some a \<Rightarrow> addr_bytes a) @ gid
     in be16 (of_nat (length meta)) @ meta @
        (case fr_data f of None \<Rightarrow> [] | Some d \<Rightarrow> be16 (of_nat (length d)) @ d))"

text \<open>
  A new session names its target, a continued one may, the others carry none; extra metadata
  (the global identifier) only follows an address.
\<close>

definition frame_ok :: "Frame \<Rightarrow> bytes \<Rightarrow> bool" where
  "frame_ok f gid \<longleftrightarrow>
    (fr_status f = STATUS_NEW \<longrightarrow> fr_target f \<noteq> None) \<and>
    (fr_target f \<noteq> None \<longrightarrow> fr_status f = STATUS_NEW \<or> fr_status f = STATUS_KEEP) \<and>
    (fr_target f = None \<longrightarrow> gid = []) \<and> length gid \<le> 8 \<and>
    (case fr_target f of None \<Rightarrow> True | Some a \<Rightarrow> addr_ok a) \<and>
    (case fr_data f of None \<Rightarrow> True | Some d \<Rightarrow> length d < 65536)"

section \<open>Lemmas\<close>

lemma frame_data_Some:
  assumes "frame_data opt c buf = Some (d, n)"
  shows "frame_data opt c (buf @ m) = Some (d, n)" and "c \<le> n" and "c \<le> length buf \<Longrightarrow> n \<le> length buf"
  using assms by (auto simp: frame_data_def Let_def nth_append split: if_splits)

text \<open>A buffer that holds the whole metadata.\<close>

lemma parse_frame_meta:
  assumes "length meta = n" and "4 \<le> n" and "n \<le> 512"
  shows "parse_frame (be16 (of_nat n) @ meta @ rest) =
    rbind (meta_target meta) (\<lambda>target.
    Inr (map_option (\<lambda>(data, consumed).
          (\<lparr>fr_sid = from_be16 (meta ! 0) (meta ! 1), fr_status = meta ! 2, fr_target = target, fr_data = data\<rparr>,
           drop consumed rest))
        (frame_data (meta ! 3) 0 rest)))"
proof -
  obtain h0 h1 where h: "be16 (of_nat n) = [h0, h1]"
    by (simp add: be16_def)
  have "from_be16 h0 h1 = of_nat n"
    using h by (metis from_be16_be16 be16_def list.inject)
  then have n: "unat (from_be16 h0 h1) = n"
    using assms by (simp add: unat_of_nat_u16)
  have d: "frame_data opt (Suc (Suc n)) (h0 # h1 # meta @ rest) = map_option (\<lambda>(d, k). (d, Suc (Suc (n + k)))) (frame_data opt 0 rest)" for opt
    using assms(1) by (auto simp: frame_data_def Let_def nth_append numeral_2_eq_2)
  show ?thesis
    using assms n by (cases "meta_target meta"; cases "frame_data (meta ! 3) 0 rest") (auto simp: parse_frame_def h d)
qed

lemma parse_frame_cases:
  obtains (short) "parse_frame buf = Inr None" "length buf < 2"
  | (bad) "\<And>m. parse_frame (buf @ m) = Inl InvalidData"
  | (wait) "parse_frame buf = Inr None"
  | (whole) n meta rest where "buf = be16 (of_nat n) @ meta @ rest" "length meta = n" "4 \<le> n" "n \<le> 512"
proof -
  consider "length buf < 2" | h0 h1 r where "buf = h0 # h1 # r"
    by (cases buf; cases "tl buf") auto
  then show thesis
  proof cases
    case 1
    then show thesis
      using short by (simp add: parse_frame_def)
  next
    case (2 h0 h1 r)
    let ?n = "unat (from_be16 h0 h1)"
    show thesis
    proof (cases "4 \<le> ?n \<and> ?n \<le> 512")
      case False
      show thesis
        by (rule bad) (use False 2 in \<open>auto simp: parse_frame_def Let_def\<close>)
    next
      case True
      show thesis
      proof (cases "length r < ?n")
        case True
        then show thesis
          using wait \<open>4 \<le> ?n \<and> ?n \<le> 512\<close> 2 by (simp add: parse_frame_def Let_def)
      next
        case False
        then show thesis
          using whole [of ?n "take ?n r" "drop ?n r"] \<open>4 \<le> ?n \<and> ?n \<le> 512\<close> 2 by simp
      qed
    qed
  qed
qed

lemma parse_frame_append:
  "parse_frame buf = Inr (Some (f, rest)) \<Longrightarrow> parse_frame (buf @ m) = Inr (Some (f, rest @ m))"
  "parse_frame buf = Inl e \<Longrightarrow> parse_frame (buf @ m) = Inl e"
  subgoal
    apply (cases buf rule: parse_frame_cases)
       apply simp
    subgoal premises p using p(1) p(2)[of "[]"] by simp
     apply simp
    apply (auto simp: parse_frame_meta rbind_eq_Inr_iff frame_data_Some)
    done
  subgoal
    apply (cases buf rule: parse_frame_cases)
       apply simp
    subgoal premises p using p(1) p(2)[of "[]"] p(2)[of m] by simp
     apply simp
    apply (auto simp: parse_frame_meta rbind_eq_Inl_iff)
    done
  done

lemma parse_frame_shorter: "parse_frame buf = Inr (Some (f, rest)) \<Longrightarrow> length rest < length buf"
  by (auto simp: parse_frame_def Let_def rbind_eq_Inr_iff split: if_splits dest: frame_data_Some(2))

text \<open>Whatever the encoder writes is read back.\<close>

lemma write_addr_target: "\<exists>t. write_addr src = NET_UDP # t \<and> read_addr (t @ m) = Some (MuxIp src, length t)"
proof (cases src)
  case (fields i p)
  then show ?thesis
    by (cases i) (auto simp: write_addr_def read_addr_def be16_def Let_def nth_append)
qed

lemma addr_bytes_target:
  "addr_ok a \<Longrightarrow> \<exists>t. addr_bytes a = NET_UDP # t \<and> read_addr (t @ m) = Some (a, length t)"
proof (cases a)
  case (MuxDomain h p)
  assume "addr_ok a"
  then have "unat (of_nat (length h) :: u8) = length h" "utf8_valid h"
    using MuxDomain by (simp_all add: unat_of_nat)
  then show ?thesis
    using MuxDomain by (simp add: read_addr_def be16_def Let_def utf8_lossy_valid)
qed (use write_addr_target in simp)

lemma meta_target_frame:
  assumes "frame_ok f gid"
  shows "meta_target (be16 sid @ [fr_status f, opt] @ (case fr_target f of None \<Rightarrow> [] | Some a \<Rightarrow> addr_bytes a) @ gid) =
    Inr (fr_target f)"
proof (cases "fr_target f")
  case None
  then show ?thesis
    using assms by (simp add: meta_target_def frame_ok_def be16_def)
next
  case (Some a)
  then obtain t where t: "addr_bytes a = NET_UDP # t" "read_addr (t @ gid) = Some (a, length t)"
    using assms addr_bytes_target [of a gid] by (auto simp: frame_ok_def)
  have "fr_status f = STATUS_NEW \<or> fr_status f = STATUS_KEEP"
    using assms Some by (simp add: frame_ok_def)
  then show ?thesis
    using Some t by (auto simp: meta_target_def be16_def)
qed

lemma addr_bytes_length: "addr_ok a \<Longrightarrow> length (addr_bytes a) \<le> 260"
  by (cases a) (auto simp: write_addr_def split: IpAddr.splits)

lemma parse_mux_frame:
  assumes "frame_ok f gid"
  shows "parse_frame (mux_frame f gid @ m) = Inr (Some (f, m))"
proof -
  let ?meta = "be16 (fr_sid f) @ [fr_status f, if fr_data f = None then 0 else OPTION_DATA] @
      (case fr_target f of None \<Rightarrow> [] | Some a \<Rightarrow> addr_bytes a) @ gid"
  let ?data = "case fr_data f of None \<Rightarrow> [] | Some d \<Rightarrow> be16 (of_nat (length d)) @ d"
  have len: "4 \<le> length ?meta" "length ?meta \<le> 512"
    using assms by (auto simp: frame_ok_def dest: addr_bytes_length split: option.splits)
  have nth: "from_be16 (?meta ! 0) (?meta ! 1) = fr_sid f" "?meta ! 2 = fr_status f"
      "?meta ! 3 = (if fr_data f = None then 0 else OPTION_DATA)"
    by (simp_all add: be16_def)
  have "mux_frame f gid @ m = be16 (of_nat (length ?meta)) @ ?meta @ ?data @ m"
    unfolding mux_frame_def Let_def by (simp only: append_assoc)
  then have "parse_frame (mux_frame f gid @ m) =
      Inr (map_option (\<lambda>(data, consumed). (\<lparr>fr_sid = fr_sid f, fr_status = fr_status f, fr_target = fr_target f, fr_data = data\<rparr>,
        drop consumed (?data @ m))) (frame_data (if fr_data f = None then 0 else OPTION_DATA) 0 (?data @ m)))"
    using parse_frame_meta [OF refl len, of "?data @ m"] meta_target_frame [OF assms, of "fr_sid f"] nth
    by (simp only: rbind_simps)
  also have "frame_data (if fr_data f = None then 0 else OPTION_DATA) 0 (?data @ m) = Some (fr_data f, length ?data)"
    using assms by (auto simp: frame_data_def frame_ok_def OPTION_DATA_def be16_def unat_of_nat_u16 split: option.splits)
  finally show ?thesis
    by simp
qed

lemma keep_frame_mux_frame:
  assumes "length data < 65536"
  shows "keep_frame sid src data =
    mux_frame \<lparr>fr_sid = sid, fr_status = STATUS_KEEP, fr_target = Some (MuxIp src), fr_data = Some data\<rparr> []"
proof -
  have l: "length (be16 sid @ [STATUS_KEEP, OPTION_DATA] @ write_addr src) < 65536"
    by (simp add: write_addr_def split: IpAddr.splits)
  have "mux_frame \<lparr>fr_sid = sid, fr_status = STATUS_KEEP, fr_target = Some (MuxIp src), fr_data = Some data\<rparr> [] =
      be16 (of_nat (length (be16 sid @ [STATUS_KEEP, OPTION_DATA] @ write_addr src))) @
      (be16 sid @ [STATUS_KEEP, OPTION_DATA] @ write_addr src) @ be16 (of_nat (length data)) @ data"
    by (simp add: mux_frame_def)
  then show ?thesis
    unfolding keep_frame_def Let_def be16_of_nat [OF l] be16_of_nat [OF assms] by (rule sym)
qed

lemma parse_keep_frame:
  "length data < 65536 \<Longrightarrow> parse_frame (keep_frame sid src data @ m) =
    Inr (Some (\<lparr>fr_sid = sid, fr_status = STATUS_KEEP, fr_target = Some (MuxIp src), fr_data = Some data\<rparr>, m))"
  by (simp add: keep_frame_mux_frame parse_mux_frame frame_ok_def)

lemma keep_frame_length: "length (keep_frame sid src data) \<le> 28 + length data" "keep_frame sid src data \<noteq> []"
  by (simp_all add: keep_frame_def write_addr_def Let_def split: IpAddr.splits)

text \<open>All frames of a buffer, and the error or the rest that ends them.\<close>

function frames :: "bytes \<Rightarrow> Frame list \<times> (ErrorKind + bytes)" where
  "frames buf =
    (case parse_frame buf of
       Inl e \<Rightarrow> ([], Inl e)
     | Inr None \<Rightarrow> ([], Inr buf)
     | Inr (Some (f, rest)) \<Rightarrow> let (fs, r) = frames rest in (f # fs, r))"
  by pat_completeness auto
termination
  by (relation "measure length") (auto dest: parse_frame_shorter)

declare frames.simps [simp del]

lemma frames_append:
  "frames (a @ b) =
    (case frames a of
       (fs, Inl e) \<Rightarrow> (fs, Inl e)
     | (fs, Inr r) \<Rightarrow> let (gs, q) = frames (r @ b) in (fs @ gs, q))"
proof (induction a rule: frames.induct)
  case (1 a)
  consider (err) e where "parse_frame a = Inl e" | (wait) "parse_frame a = Inr None"
    | (frame) f rest where "parse_frame a = Inr (Some (f, rest))"
  proof (cases "parse_frame a")
    case (Inr x)
    then show thesis
      using that by (cases x) auto
  qed (use that in blast)
  then show ?case
  proof cases
    case err
    then show ?thesis
      using parse_frame_append(2) [OF err, of b] by (simp add: frames.simps [of a] frames.simps [of "a @ b"])
  next
    case wait
    then show ?thesis
      by (simp add: frames.simps [of a])
  next
    case frame
    have "frames (a @ b) = (let (fs, r) = frames (rest @ b) in (f # fs, r))"
      using parse_frame_append(1) [OF frame, of b] by (subst frames.simps) simp
    then show ?thesis
      using 1 [OF frame refl] frame by (cases "frames rest"; cases "snd (frames rest)") (auto simp: frames.simps [of a] split: prod.splits)
  qed
qed

lemma frames_mux:
  "\<forall>(f, g) \<in> set fs. frame_ok f g \<Longrightarrow> frames (concat (map (\<lambda>(f, g). mux_frame f g) fs)) = (map fst fs, Inr [])"
proof (induction fs)
  case Nil
  then show ?case
    by (simp add: frames.simps parse_frame_def)
next
  case (Cons a fs)
  then show ?case
    by (cases a) (simp add: frames.simps [of "mux_frame _ _ @ _"] parse_mux_frame)
qed

section \<open>The padded first frame\<close>

lemma concat_chunks: "0 < n \<Longrightarrow> concat (chunks n xs) = xs"
proof (induction n xs rule: chunks.induct)
  case (1 n xs)
  then show ?case
    by (simp add: chunks.simps [of n xs])
qed

lemma chunks_length: "\<forall>c \<in> set (chunks n xs). length c \<le> n"
proof (induction n xs rule: chunks.induct)
  case (1 n xs)
  then show ?case
    by (simp add: chunks.simps [of n xs])
qed

fun revision_vblocks :: "(nat \<Rightarrow> nat) \<Rightarrow> nat \<Rightarrow> bytes list \<Rightarrow> vblock list" where
  "revision_vblocks draws k [] = []"
| "revision_vblocks draws k (c # cs) =
    (c, if cs = [] then CMD_PADDING_END else CMD_PADDING_CONTINUE, False, draws k) # revision_vblocks draws (Suc k) cs"

lemma revision_blocks_stream:
  "revision_blocks draws k once cs = xtls_stream DEFAULT_SEED once (revision_vblocks draws k cs)"
  by (induction cs arbitrary: k once) (auto simp: Let_def split: prod.splits)

lemma revision_vblocks_last:
  "cs \<noteq> [] \<Longrightarrow> \<exists>bs d. revision_vblocks draws k cs = bs @ [(last cs, CMD_PADDING_END, False, d)] \<and>
    map fst bs = butlast cs \<and> (\<forall>(c, cmd, long, draw) \<in> set bs. cmd = 0)"
proof (induction cs arbitrary: k)
  case (Cons c cs)
  show ?case
  proof (cases "cs = []")
    case True
    then show ?thesis
      by simp
  next
    case False
    then obtain bs d where "revision_vblocks draws (Suc k) cs = bs @ [(last cs, CMD_PADDING_END, False, d)]"
        "map fst bs = butlast cs" "\<forall>(c, cmd, long, draw) \<in> set bs. cmd = 0"
      using Cons.IH by blast
    then show ?thesis
      using False by (intro exI [of _ "(c, CMD_PADDING_CONTINUE, False, draws k) # bs"] exI [of _ d])
        (auto simp: CMD_PADDING_CONTINUE_def)
  qed
qed simp

lemma vrun_revision:
  assumes "length uuid = 16"
  shows "vrun uuid (VDetect []) (revision uuid frame draws @ tail) = (VRaw (Some CMD_PADDING_END), frame @ tail)"
proof (cases "frame = []")
  case True
  then show ?thesis
    using vrun_xtls_last [of "[]" "[]" CMD_PADDING_END uuid DEFAULT_SEED False "draws 0" tail] assms
    by (simp add: revision_def CMD_PADDING_END_def xtls_padding_def Let_def)
next
  case False
  let ?cs = "chunks (BUF_SIZE - 21) frame"
  have cs: "concat ?cs = frame"
    by (simp add: concat_chunks BUF_SIZE_def)
  then have ne: "?cs \<noteq> []"
    using False by auto
  obtain bs d where b: "revision_vblocks draws 0 ?cs = bs @ [(last ?cs, CMD_PADDING_END, False, d)]"
      "map fst bs = butlast ?cs" "\<forall>(c, cmd, long, draw) \<in> set bs. cmd = 0"
    using revision_vblocks_last [OF ne] by blast
  have small: "length c < 65536" if "c \<in> set ?cs" for c
    using chunks_length [of "BUF_SIZE - 21" frame] that by (auto simp: BUF_SIZE_def)
  have "\<forall>(c, cmd, long, draw) \<in> set bs. length c < 65536 \<and> cmd = 0"
  proof clarify
    fix c cmd long draw
    assume m: "(c, cmd, long, draw) \<in> set bs"
    then have "c \<in> set (map fst bs)"
      by force
    then show "length c < 65536 \<and> cmd = 0"
      using b(2,3) m small by (auto dest: in_set_butlastD)
  qed
  moreover have "length (last ?cs) < 65536"
    using small ne last_in_set by blast
  moreover have "concat (map fst bs) @ last ?cs = frame"
    using b(2) cs ne by (metis append_butlast_last_id concat.simps concat_append append_Nil2)
  ultimately show ?thesis
    using vrun_xtls_last [of bs "last ?cs" CMD_PADDING_END uuid DEFAULT_SEED False d tail] assms b(1) False
    by (simp add: revision_def revision_blocks_stream CMD_PADDING_END_def)
qed

lemma xtls_padding_nonempty: "snd (xtls_padding content cmd once long seed draw) \<noteq> []"
  by (simp add: xtls_padding_def Let_def)

lemma revision_nonempty: "revision uuid frame draws \<noteq> []"
proof (cases "frame = []")
  case False
  then have "chunks (BUF_SIZE - 21) frame \<noteq> []"
    by (simp add: chunks.simps BUF_SIZE_def)
  then show ?thesis
    using False by (cases "chunks (BUF_SIZE - 21) frame") (simp_all add: revision_def xtls_padding_def Let_def)
qed (simp add: revision_def xtls_padding_nonempty)

text \<open>Frames of up to eight blocks fit the engine's buffer once padded.\<close>

lemma xtls_padding_length:
  assumes "length c \<le> BUF_SIZE - 21"
  shows "length (snd (xtls_padding c cmd once long seed draw)) \<le> (case once of Some u \<Rightarrow> length u | None \<Rightarrow> 0) + (BUF_SIZE - 16)"
proof -
  have "nat (padding_len (length c) long seed draw) \<le> BUF_SIZE - 21 - length c"
    using padding_len_bounds(3) [of "length c" long seed draw] assms by (simp add: BUF_SIZE_def)
  then have "length c + nat (padding_len (length c) long seed draw) \<le> 8171"
    using assms by (simp add: BUF_SIZE_def)
  then show ?thesis
    by (simp add: xtls_padding_def Let_def BUF_SIZE_def split: option.splits)
qed

lemma revision_blocks_length:
  "\<forall>c \<in> set cs. length c \<le> BUF_SIZE - 21 \<Longrightarrow>
   length (revision_blocks draws k once cs) \<le> (case once of Some u \<Rightarrow> length u | None \<Rightarrow> 0) + length cs * (BUF_SIZE - 16)"
proof (induction cs arbitrary: k once)
  case (Cons c cs)
  let ?cmd = "if cs = [] then CMD_PADDING_END else CMD_PADDING_CONTINUE"
  have "length (revision_blocks draws k once (c # cs)) =
      length (snd (xtls_padding c ?cmd once False DEFAULT_SEED (draws k))) + length (revision_blocks draws (Suc k) None cs)"
    by (simp add: xtls_padding_def Let_def)
  then show ?case
    using xtls_padding_length [of c ?cmd once False DEFAULT_SEED "draws k"] Cons.IH [of "Suc k" None] Cons.prems
    by simp
qed simp

lemma chunks_count: "0 < n \<Longrightarrow> length xs \<le> k * n \<Longrightarrow> length (chunks n xs) \<le> k"
proof (induction n xs arbitrary: k rule: chunks.induct)
  case (1 n xs)
  show ?case
  proof (cases "xs = []")
    case False
    with 1 obtain j where "k = Suc j"
      by (cases k) auto
    then show ?thesis
      using 1 False by (simp add: chunks.simps [of n xs])
  qed (simp add: chunks.simps)
qed

lemma revision_length:
  assumes "frame \<noteq> []" and "length frame \<le> 65368" and "length uuid = 16"
  shows "length (revision uuid frame draws) \<le> 65536"
proof -
  have "length (chunks (BUF_SIZE - 21) frame) \<le> 8"
    using assms(2) by (intro chunks_count) (simp_all add: BUF_SIZE_def)
  moreover have "length (revision uuid frame draws) \<le> 16 + length (chunks (BUF_SIZE - 21) frame) * (BUF_SIZE - 16)"
    using assms(1,3) revision_blocks_length [OF chunks_length [of "BUF_SIZE - 21" frame], of draws 0 "Some uuid"]
    by (simp add: revision_def)
  ultimately show ?thesis
    by (simp add: BUF_SIZE_def)
qed

lemma devision_raw [simp]: "devision None data = (None, data)"
  by (simp add: devision_def)

end
