(* ===== verification/Outbound.thy ===== *)
theory Outbound
  imports Wire_Codec Donut_Config Selfsteal Carrier_Client
begin

text \<open>
  Chain outbounds (\<^verbatim>\<open>donut-server/src/outbound.rs\<close>): the upstream proxies a routing tag can
  select, their construction from the configuration, and the dial that presents this
  node's own credential to the exit and asks it for the original target.  \<open>Prefixed\<close>
  (\<^verbatim>\<open>proxy.rs\<close>) replays what was read past a header.

  The interface \<open>header_reader\<close> is the loop both the server (for a request) and the dialler
  (for a response) run on a stream: read, append, try to decode, read again while the
  decoder asks for more.

  Parameters: name lookup, the TCP connection with the TLS handshake on it (the key the
  ClientHello mutator left and the plaintext side of the session), the validity test for a
  TLS server name, and the HTTP transport of the stream-one carrier.
\<close>

declare concat_eq_Nil_conv [simp del] Nil_eq_concat_conv [simp del]

section \<open>Reading a header off a stream\<close>

locale header_reader = byte_codec dec more enc wf
  for dec :: "bytes \<Rightarrow> 'e + 'r \<times> bytes" and more :: "'e \<Rightarrow> bool" and enc :: "'r \<Rightarrow> bytes" and wf :: "'r \<Rightarrow> bool" +
  fixes room :: nat
    and io :: "ErrorKind \<Rightarrow> 'f"
    and bad :: "'e \<Rightarrow> 'f"
    and ret :: "'r \<Rightarrow> bytes \<Rightarrow> 'x"
    and loop :: "bytes \<Rightarrow> 'z TcpStream_scheme \<Rightarrow> ('f + 'x) \<times> 'z TcpStream_scheme"
  assumes room: "0 < room"
    and loop_step: "loop acc s =
      (case read_some room s of
         (Inl e, s') \<Rightarrow> (Inl (io e), s')
       | (Inr [], s') \<Rightarrow> (Inl (io UnexpectedEof), s')
       | (Inr (b # bs), s') \<Rightarrow>
           (case dec (acc @ b # bs) of
              Inr (r, rest) \<Rightarrow> (Inr (ret r rest), s')
            | Inl e \<Rightarrow> if more e then loop (acc @ b # bs) s' else (Inl (bad e), s')))"
begin

lemma loop_exact:
  "\<lbrakk>acc @ concat (rx s) = enc r @ m; wf r; strict_prefix acc (enc r)\<rbrakk> \<Longrightarrow>
   \<exists>rest s'. loop acc s = (Inr (ret r rest), s') \<and> rest @ concat (rx s') = m \<and>
     tx s' = tx s \<and> tx_room s' = tx_room s \<and> rx_end s' = rx_end s"
proof (induction "length (concat (rx s))" arbitrary: acc s rule: less_induct)
  case less
  have "concat (rx s) \<noteq> []"
  proof
    assume "concat (rx s) = []"
    then have "length acc = length (enc r) + length m"
      using arg_cong [OF less.prems(1), of length] by simp
    then show False
      using strict_prefix_length_less [OF less.prems(3)] by simp
  qed
  then obtain b bs s' where rd: "read_some room s = (Inr (b # bs), s')"
    using read_some_nonempty [OF room] by blast
  note rd_facts = read_some_Inr [OF rd]
  have eq: "(acc @ b # bs) @ concat (rx s') = enc r @ m"
    using less.prems(1) rd_facts(1) by simp
  show ?case
  proof (cases "strict_prefix (acc @ b # bs) (enc r)")
    case True
    then obtain e where e: "dec (acc @ b # bs) = Inl e" "more e"
      using truncated [OF less.prems(2)] by blast
    have "length (concat (rx s')) < length (concat (rx s))"
      using read_some_shorter [OF rd] .
    from less.hyps [OF this eq less.prems(2) True] show ?thesis
      using e rd_facts(4-6) by (subst loop_step) (simp add: rd)
  next
    case False
    then obtain rest where rest: "acc @ b # bs = enc r @ rest" "m = rest @ concat (rx s')"
      using append_not_strict_prefix [OF eq False] by blast
    then have "dec (acc @ b # bs) = Inr (r, rest)"
      using round_trip [OF less.prems(2)] by simp
    then show ?thesis
      using rest(2) rd_facts(4-6) by (subst loop_step) (simp add: rd)
  qed
qed

text \<open>Whatever the loop returns, the decoder says of the whole stream; nothing is written.\<close>

lemma loop_sound:
  "loop acc s = (res, s') \<Longrightarrow>
   (\<forall>x. res = Inr x \<longrightarrow> (\<exists>r rest. x = ret r rest \<and> dec (acc @ concat (rx s)) = Inr (r, rest @ concat (rx s')))) \<and>
   tx s' = tx s \<and> tx_room s' = tx_room s"
proof (induction "length (concat (rx s))" arbitrary: acc s rule: less_induct)
  case less
  obtain q s1 where rd: "read_some room s = (q, s1)"
    by fastforce
  show ?case
  proof (cases q)
    case (Inl err)
    then have "tx s1 = tx s \<and> tx_room s1 = tx_room s"
      using rd by (auto simp: read_some_def split: prod.splits list.splits option.splits)
    then show ?thesis
      using less.prems rd Inl by (subst (asm) loop_step) auto
  next
    case (Inr bs)
    note f = read_some_Inr [OF rd [unfolded Inr]]
    show ?thesis
    proof (cases bs)
      case Nil
      then show ?thesis
        using less.prems rd Inr f(4,5) by (subst (asm) loop_step) auto
    next
      case (Cons b bs')
      have eq: "acc @ concat (rx s) = (acc @ b # bs') @ concat (rx s1)"
        using f(1) Cons by simp
      consider (got) r rest where "dec (acc @ b # bs') = Inr (r, rest)" | (wait) e where "dec (acc @ b # bs') = Inl e" "more e"
        | (fail) e where "dec (acc @ b # bs') = Inl e" "\<not> more e"
        by (cases "dec (acc @ b # bs')") auto
      then show ?thesis
      proof cases
        case got
        then show ?thesis
          using less.prems rd Inr Cons f(4,5) dec_ok [OF got, of "concat (rx s1)"] eq by (subst (asm) loop_step) auto
      next
        case wait
        then have "loop (acc @ b # bs') s1 = (res, s')"
          using less.prems rd Inr Cons by (subst (asm) loop_step) simp
        from less.hyps [OF _ this] show ?thesis
          using read_some_shorter [OF rd [unfolded Inr Cons]] f(4,5) eq by simp
      next
        case fail
        then show ?thesis
          using less.prems rd Inr Cons f(4,5) by (subst (asm) loop_step) auto
      qed
    qed
  qed
qed

end

section \<open>Replaying what was read\<close>

record Prefixed =
  pf_prefix :: bytes
  pf_pos :: nat
  pf_inner :: TcpStream

definition prefixed_new :: "bytes \<Rightarrow> TcpStream \<Rightarrow> Prefixed" where
  "prefixed_new pfx inner = \<lparr>pf_prefix = pfx, pf_pos = 0, pf_inner = inner\<rparr>"

definition pf_poll_read :: "nat \<Rightarrow> (Prefixed, ErrorKind, bytes) act" where
  "pf_poll_read room s =
    (if pf_pos s < length (pf_prefix s) then
       let rem = drop (pf_pos s) (pf_prefix s); n = min (length rem) room
       in (Inr (take n rem), s\<lparr>pf_pos := pf_pos s + n\<rparr>)
     else case read_some room (pf_inner s) of (r, i) \<Rightarrow> (r, s\<lparr>pf_inner := i\<rparr>))"

definition pf_poll_write :: "bytes \<Rightarrow> (Prefixed, ErrorKind, unit) act" where
  "pf_poll_write bs s = (case write_all bs (pf_inner s) of (r, i) \<Rightarrow> (r, s\<lparr>pf_inner := i\<rparr>))"

text \<open>The plain stream a replayed one behaves like.\<close>

definition pf_stream :: "Prefixed \<Rightarrow> TcpStream" where
  "pf_stream p = (pf_inner p)\<lparr>rx := drop (pf_pos p) (pf_prefix p) # rx (pf_inner p)\<rparr>"

section \<open>Construction\<close>

record VeilDialer =
  vd_veil :: VeilClientConfig
  vd_server_name :: rstr

datatype Dialer = DialVeil VeilDialer

record ChainOutbound =
  co_tag :: rstr
  co_server :: rstr
  co_uuid :: UserId
  co_dialer :: Dialer

record Outbounds =
  ob_map :: "rstr \<rightharpoonup> ChainOutbound"
  ob_fragment :: "FragmentParams option"

datatype BuildError =
    BuildConfig ConfigError
  | BuildNoReality
  | BuildFingerprint rstr
  | BuildServerName rstr
  | BuildTransport rstr
  | BuildIn rstr BuildError

definition chain_build :: "Decoders \<Rightarrow> (rstr \<Rightarrow> bool) \<Rightarrow> OutboundConfig \<Rightarrow> BuildError + ChainOutbound" where
  "chain_build dc name_ok c =
    rbind (map_err BuildConfig (outbound_user_id dc c)) (\<lambda>uuid.
    rbind
      (if oc_transport c = str ''veil'' then
         rbind (ok_or (oc_reality c) BuildNoReality) (\<lambda>r.
         rbind (map_err BuildConfig (public_key_bytes dc r)) (\<lambda>public_key.
         rbind (map_err BuildConfig (short_id_value dc r)) (\<lambda>short_id.
         rbind (map_err BuildFingerprint (fingerprint_from_str (rk_fingerprint r))) (\<lambda>fingerprint.
         let veil = with_fingerprint fingerprint (veil_client_config_new public_key short_id (rk_version r)) in
         if name_ok (rk_server_name r)
         then Inr (DialVeil \<lparr>vd_veil = veil, vd_server_name = rk_server_name r\<rparr>)
         else Inl (BuildServerName (rk_server_name r))))))
       else Inl (BuildTransport (oc_transport c))) (\<lambda>dialer.
    Inr \<lparr>co_tag = oc_tag c, co_server = oc_server c, co_uuid = uuid, co_dialer = dialer\<rparr>))"

fun outbounds_insert ::
    "Decoders \<Rightarrow> (rstr \<Rightarrow> bool) \<Rightarrow> (rstr \<rightharpoonup> ChainOutbound) \<Rightarrow> OutboundConfig list
      \<Rightarrow> BuildError + (rstr \<rightharpoonup> ChainOutbound)" where
  "outbounds_insert dc name_ok m [] = Inr m"
| "outbounds_insert dc name_ok m (c # cs) =
    rbind (map_err (BuildIn (oc_tag c)) (chain_build dc name_ok c)) (\<lambda>outbound.
    outbounds_insert dc name_ok (m(oc_tag c \<mapsto> outbound)) cs)"

definition outbounds_build ::
    "Decoders \<Rightarrow> (rstr \<Rightarrow> bool) \<Rightarrow> OutboundConfig list \<Rightarrow> FragmentParams option \<Rightarrow> BuildError + Outbounds" where
  "outbounds_build dc name_ok cfgs frag =
    rbind (outbounds_insert dc name_ok Map.empty cfgs) (\<lambda>m. Inr \<lparr>ob_map = m, ob_fragment = frag\<rparr>)"

definition outbounds_default :: Outbounds where
  "outbounds_default = \<lparr>ob_map = Map.empty, ob_fragment = None\<rparr>"

definition outbounds_get :: "Outbounds \<Rightarrow> rstr \<Rightarrow> ChainOutbound option" where
  "outbounds_get ob tag = ob_map ob tag"

definition outbounds_fragment :: "Outbounds \<Rightarrow> FragmentParams option" where
  "outbounds_fragment ob = ob_fragment ob"

section \<open>Dialling\<close>

record ChainNet =
  cn_crypto :: VeilCrypto
  cn_lookup :: "rstr \<Rightarrow> ErrorKind + SocketAddr list"
  cn_tls :: "VeilDialer \<Rightarrow> SocketAddr \<Rightarrow> ErrorKind + bytes option \<times> TcpStream"
  cn_carrier :: "ClientConfig \<Rightarrow> TcpStream \<Rightarrow> CarrierError + TcpStream"

definition vd_connect :: "ChainNet \<Rightarrow> VeilDialer \<Rightarrow> SocketAddr \<Rightarrow> ErrorKind + TcpStream" where
  "vd_connect nw d addr =
    rbind (cn_tls nw d addr) (\<lambda>(sink, tls).
    case check_server_proof (cn_crypto nw) sink tls of
      (Inl e, _) \<Rightarrow> Inl e
    | (Inr _, tls) \<Rightarrow> Inr tls)"

function read_response :: "bytes \<Rightarrow> (TcpStream, ErrorKind, bytes) act" where
  "read_response acc s =
    (case read_some 64 s of
       (Inl e, s') \<Rightarrow> (Inl e, s')
     | (Inr [], s') \<Rightarrow> (Inl UnexpectedEof, s')
     | (Inr (b # bs), s') \<Rightarrow>
         (case response_decode (acc @ b # bs) of
            Inr (_, rest) \<Rightarrow> (Inr rest, s')
          | Inl e \<Rightarrow> if is_truncated e then read_response (acc @ b # bs) s' else (Inl InvalidData, s')))"
  by pat_completeness auto
termination
  by (relation "measure (\<lambda>(p, s). length (concat (rx s)))") (auto dest: read_some_shorter [OF sym])

declare read_response.simps [simp del]

definition chain_request :: "ChainOutbound \<Rightarrow> Endpoint \<Rightarrow> Command \<Rightarrow> Request" where
  "chain_request c target command =
    \<lparr>req_user = co_uuid c, req_flow = FlowNone, req_command = command,
     req_target = Some target, req_seed = []\<rparr>"

definition chain_carrier_config :: ClientConfig where
  "chain_carrier_config = client_config_default\<lparr>cc_mode := StreamOne\<rparr>"

definition dial_command :: "ChainNet \<Rightarrow> ChainOutbound \<Rightarrow> Endpoint \<Rightarrow> Command \<Rightarrow> ErrorKind + Prefixed" where
  "dial_command nw c target command =
    rbind (cn_lookup nw (co_server c)) (\<lambda>addrs.
    rbind (case addrs of [] \<Rightarrow> Inl NotFound | addr # _ \<Rightarrow> Inr addr) (\<lambda>addr.
    rbind (case co_dialer c of DialVeil d \<Rightarrow> vd_connect nw d addr) (\<lambda>tls.
    rbind (map_err (\<lambda>_. OtherKind) (cn_carrier nw chain_carrier_config tls)) (\<lambda>carrier.
    case abind (write_all (request_bytes (chain_request c target command))) (\<lambda>_. read_response []) carrier of
      (Inl e, _) \<Rightarrow> Inl e
    | (Inr leftover, carrier) \<Rightarrow> Inr (prefixed_new leftover carrier)))))"

definition chain_dial :: "ChainNet \<Rightarrow> ChainOutbound \<Rightarrow> Endpoint \<Rightarrow> ErrorKind + Prefixed" where
  "chain_dial nw c target = dial_command nw c target Tcp"

definition chain_dial_udp :: "ChainNet \<Rightarrow> ChainOutbound \<Rightarrow> Endpoint \<Rightarrow> ErrorKind + Prefixed" where
  "chain_dial_udp nw c target = dial_command nw c target Udp"

section \<open>Lemmas\<close>

interpretation upstream_response: header_reader response_decode is_truncated response_encode
    "\<lambda>r. addons_ok (resp_addons r)" 64 "\<lambda>e. e" "\<lambda>_. InvalidData" "\<lambda>_ rest. rest" read_response
proof unfold_locales
  show "read_response acc s =
      (case read_some 64 s of
         (Inl e, s') \<Rightarrow> (Inl e, s')
       | (Inr [], s') \<Rightarrow> (Inl UnexpectedEof, s')
       | (Inr (b # bs), s') \<Rightarrow>
           (case response_decode (acc @ b # bs) of
              Inr (r, rest) \<Rightarrow> (Inr rest, s')
            | Inl e \<Rightarrow> if is_truncated e then read_response (acc @ b # bs) s' else (Inl InvalidData, s')))" for acc s
    by (rule read_response.simps)
qed simp

lemma pf_poll_read_stream:
  assumes "0 < room"
  shows "case pf_poll_read room p of
    (Inr bs, p') \<Rightarrow> \<exists>s'. read_some room (pf_stream p) = (Inr bs, s') \<and>
      concat (rx s') = concat (rx (pf_stream p')) \<and> tx s' = tx (pf_stream p')
  | (Inl e, p') \<Rightarrow> fst (read_some room (pf_stream p)) = Inl e"
proof (cases "pf_pos p < length (pf_prefix p)")
  case True
  then show ?thesis
    using assms by (auto simp: pf_poll_read_def pf_stream_def read_some_def Let_def min_def drop_drop add.commute
        split: option.splits)
next
  case False
  then show ?thesis
    using assms by (auto simp: pf_poll_read_def pf_stream_def read_some_def Let_def
        split: option.splits list.splits prod.splits)
qed

lemma find_append: "find P (xs @ ys) = (case find P xs of None \<Rightarrow> find P ys | Some x \<Rightarrow> Some x)"
  by (induction xs) auto

lemma outbounds_insert_get:
  "outbounds_insert dc ok m cs = Inr m' \<Longrightarrow>
   m' tag = (case find (\<lambda>c. oc_tag c = tag) (rev cs) of
     None \<Rightarrow> m tag
   | Some c \<Rightarrow> (case chain_build dc ok c of Inr q \<Rightarrow> Some q | Inl _ \<Rightarrow> None))"
proof (induction cs arbitrary: m)
  case (Cons c cs)
  then obtain q where q: "chain_build dc ok c = Inr q"
      "outbounds_insert dc ok (m(oc_tag c \<mapsto> q)) cs = Inr m'"
    by (auto simp: rbind_eq_Inr_iff map_err_eq_Inr_iff)
  show ?case
    using Cons.IH [OF q(2)] q(1) by (auto simp: find_append split: option.splits)
qed simp

text \<open>The request a chain presents is one the exit's decoder accepts.\<close>

lemma chain_request_ok:
  "\<lbrakk>command \<noteq> Mux; address_ok (address target)\<rbrakk> \<Longrightarrow> request_ok (chain_request c target command)"
  by (simp add: chain_request_def request_ok_def request_addons_def addons_ok_def addons_encoded_len_def)

lemma response_nonempty: "strict_prefix [] (response_encode r)"
  by (simp add: response_encode_def)

lemma dial_command_ok:
  assumes "cn_lookup nw (co_server c) = Inr (addr # more_addrs)"
    and "co_dialer c = DialVeil d" and "vd_connect nw d addr = Inr tls"
    and "cn_carrier nw chain_carrier_config tls = Inr carrier" and "tx_room carrier = None"
    and "concat (rx carrier) = response_encode r @ m" and "addons_ok (resp_addons r)"
  shows "\<exists>p. dial_command nw c target command = Inr p \<and> concat (rx (pf_stream p)) = m \<and>
    tx (pf_stream p) = tx carrier @ request_bytes (chain_request c target command) \<and> tx_room (pf_stream p) = None"
proof -
  let ?s = "carrier\<lparr>tx := tx carrier @ request_bytes (chain_request c target command)\<rparr>"
  have "[] @ concat (rx ?s) = response_encode r @ m"
    using assms(6) by simp
  from upstream_response.loop_exact [OF this assms(7) response_nonempty]
  obtain rest s' where "read_response [] ?s = (Inr rest, s')" "rest @ concat (rx s') = m"
      "tx s' = tx ?s" "tx_room s' = tx_room ?s"
    by blast
  then show ?thesis
    using assms(1-5)
    by (simp add: dial_command_def abind_def write_all_open prefixed_new_def pf_stream_def)
qed

section \<open>Properties\<close>

text \<open>
  C27.  A cascade hop is exact and authenticated.  When the exit answers, however its bytes
  are cut, the dialler has sent the exit nothing but the request for the original target
  under this node's credential, which the exit's decoder reads back, and the stream it
  hands on yields exactly what the exit sent after its response.  An exit that does not
  prove the shared key is refused with \<open>InvalidData\<close>, whatever it sends.
\<close>

theorem chain_dial_exact:
  assumes "cn_lookup nw (co_server c) = Inr (addr # more_addrs)" and "co_dialer c = DialVeil d"
    and "command \<noteq> Mux" and "address_ok (address target)" and "cn_tls nw d addr = Inr (Some key, tls)"
    and "length (server_proof (cn_crypto nw) key) = PROOF_LEN"
  shows "(concat (rx tls) = server_proof (cn_crypto nw) key @ inner \<and>
      (\<forall>tls'. concat (rx tls') = inner \<longrightarrow> cn_carrier nw chain_carrier_config tls' = Inr carrier) \<and>
      tx_room carrier = None \<and> tx carrier = [] \<and> addons_ok (resp_addons r) \<and>
      concat (rx carrier) = response_encode r @ m \<longrightarrow>
      (\<exists>p. dial_command nw c target command = Inr p \<and> concat (rx (pf_stream p)) = m \<and>
        request_decode (tx (pf_stream p) @ payload) =
          Inr (\<lparr>req_user = co_uuid c, req_flow = FlowNone, req_command = command, req_target = Some target,
            req_seed = []\<rparr>, payload))) \<and>
    (PROOF_LEN \<le> length (concat (rx tls)) \<and>
      take PROOF_LEN (concat (rx tls)) \<noteq> server_proof (cn_crypto nw) key \<longrightarrow>
      dial_command nw c target command = Inl InvalidData)" (is "(?A \<longrightarrow> ?B) \<and> (?C \<longrightarrow> ?D)")
proof (rule conjI)
  have rd: "vd_connect nw d addr = (case read_exact PROOF_LEN tls of
      (Inl e, _) \<Rightarrow> Inl e
    | (Inr proof, t) \<Rightarrow> if proof \<noteq> server_proof (cn_crypto nw) key then Inl InvalidData else Inr t)"
    using assms(5) by (auto simp: vd_connect_def check_server_proof_def abind_def split: prod.splits sum.splits)
  show "?A \<longrightarrow> ?B"
  proof
    assume a: ?A
    then obtain t where "read_exact PROOF_LEN tls = (Inr (server_proof (cn_crypto nw) key), t)" "concat (rx t) = inner"
      using read_exact_enough [of PROOF_LEN tls] assms(6) by auto
    with rd a have "vd_connect nw d addr = Inr t" "cn_carrier nw chain_carrier_config t = Inr carrier"
      by simp_all
    from dial_command_ok [OF assms(1,2) this] a
    show ?B
      using request.round_trip [OF chain_request_ok [OF assms(3,4), of c], of payload]
      by (fastforce simp: chain_request_def)
  qed
  show "?C \<longrightarrow> ?D"
    using read_exact_enough [of PROOF_LEN tls] rd assms(1,2) by (auto simp: dial_command_def)
qed

theorem chain_dial_exact_witness:
  "\<exists>p. dial_command
      \<lparr>cn_crypto = sample_crypto,
       cn_lookup = \<lambda>_. Inr [\<lparr>sa_ip = V4 1, sa_port = 443\<rparr>],
       cn_tls = \<lambda>_ _. Inr (Some (replicate 32 1),
         \<lparr>rx = [server_proof sample_crypto (replicate 32 1), [9]], rx_end = None, tx = [], tx_room = None\<rparr>),
       cn_carrier = \<lambda>_ _. Inr \<lparr>rx = [[0], [0, 7]], rx_end = None, tx = [], tx_room = None\<rparr>\<rparr>
      \<lparr>co_tag = [], co_server = [], co_uuid = 5, co_dialer = DialVeil \<lparr>vd_veil = veil_client_config_new [] 0 [], vd_server_name = []\<rparr>\<rparr>
      \<lparr>address = Ip (V4 2), port = 80\<rparr> Tcp = Inr p \<and> concat (rx (pf_stream p)) = [7]"
proof -
  have "length (server_proof sample_crypto (replicate 32 1)) = PROOF_LEN"
    using sample_crypto_ok by (simp add: crypto_ok_def server_proof_def PROOF_LEN_def)
  with chain_dial_exact [of
      "\<lparr>cn_crypto = sample_crypto,
        cn_lookup = \<lambda>_. Inr [\<lparr>sa_ip = V4 1, sa_port = 443\<rparr>],
        cn_tls = \<lambda>_ _. Inr (Some (replicate 32 1),
          \<lparr>rx = [server_proof sample_crypto (replicate 32 1), [9]], rx_end = None, tx = [], tx_room = None\<rparr>),
        cn_carrier = \<lambda>_ _. Inr \<lparr>rx = [[0], [0, 7]], rx_end = None, tx = [], tx_room = None\<rparr>\<rparr>"
      "\<lparr>co_tag = [], co_server = [], co_uuid = 5, co_dialer = DialVeil \<lparr>vd_veil = veil_client_config_new [] 0 [], vd_server_name = []\<rparr>\<rparr>"
      "\<lparr>sa_ip = V4 1, sa_port = 443\<rparr>" "[]" "\<lparr>vd_veil = veil_client_config_new [] 0 [], vd_server_name = []\<rparr>"
      Tcp "\<lparr>address = Ip (V4 2), port = 80\<rparr>" "replicate 32 1"
      "\<lparr>rx = [server_proof sample_crypto (replicate 32 1), [9]], rx_end = None, tx = [], tx_room = None\<rparr>"
      "[9]" "\<lparr>rx = [[0], [0, 7]], rx_end = None, tx = [], tx_room = None\<rparr>" response_default "[7]"]
  show ?thesis
    by (auto simp: response_default_def response_encode_def addons_ok_def addons_default_def
        addons_encoded_len_def addons_encode_def VERSION_def)
qed

end
