(* ===== verification/Mux_Relay.thy ===== *)
theory Mux_Relay
  imports Mux_Codec Outbound Routing
begin

text \<open>
  The Mux.Cool relay (\<^verbatim>\<open>donut-server/src/mux.rs\<close>): the sub-sessions of one connection, the egress the
  routing table picks for each datagram, and the loop that carries frames both ways.

  The relay's task and the receive tasks of its links run concurrently; an execution is a list of
  events, each one step of one task.  What the network answers (name lookups, dials, binds) may
  change over time: it is indexed by a clock that advances with every datagram sent.  The calls
  that hand a datagram to the network are logged in \<open>mx_egress\<close>.
\<close>

declare concat_eq_Nil_conv [simp del] Nil_eq_concat_conv [simp del]

section \<open>Sub-sessions\<close>

record MuxNet =
  mn_lookup :: "rstr \<Rightarrow> u16 \<Rightarrow> ErrorKind + SocketAddr list"
  mn_bind :: "bool \<Rightarrow> bool"
  mn_chain :: ChainNet

record DirectLink =
  dk_ipv6 :: bool
  dk_peer :: "SocketAddr option"

record ChainLink =
  cl_stream :: Prefixed
  cl_acc :: bytes
  cl_live :: bool

record UdpSession =
  us_direct :: "DirectLink option"
  us_chain :: "(SocketAddr \<times> ChainLink) list"

definition udp_session_default :: UdpSession where
  "udp_session_default = \<lparr>us_direct = None, us_chain = []\<rparr>"

datatype Egress =
    Dialled ChainOutbound Endpoint
  | Chained SocketAddr bytes
  | Local SocketAddr bytes

definition mux_resolve :: "(rstr \<Rightarrow> u16 \<Rightarrow> ErrorKind + SocketAddr list) \<Rightarrow> MuxAddr \<Rightarrow> ErrorKind + SocketAddr" where
  "mux_resolve lookup addr =
    (case addr of
       MuxIp s \<Rightarrow> Inr s
     | MuxDomain h p \<Rightarrow> rbind (lookup h p) (\<lambda>addrs. case addrs of [] \<Rightarrow> Inl NotFound | s # _ \<Rightarrow> Inr s))"

fun endpoint_of :: "MuxAddr \<Rightarrow> Endpoint" where
  "endpoint_of (MuxIp s) = \<lparr>address = Ip (sa_ip s), port = sa_port s\<rparr>"
| "endpoint_of (MuxDomain h p) = \<lparr>address = Domain h, port = p\<rparr>"

definition write_datagram :: "bytes \<Rightarrow> (Prefixed, ErrorKind, unit) act" where
  "write_datagram data = pf_poll_write (datagram_frame data)"

definition link_write :: "bytes \<Rightarrow> ChainLink \<Rightarrow> ChainLink" where
  "link_write data link = link\<lparr>cl_stream := snd (write_datagram data (cl_stream link))\<rparr>"

definition dial_chain :: "ChainNet \<Rightarrow> ChainOutbound \<Rightarrow> Endpoint \<Rightarrow> ChainLink option" where
  "dial_chain nw c ep =
    (case chain_dial_udp nw c ep of
       Inl _ \<Rightarrow> None
     | Inr up \<Rightarrow> Some \<lparr>cl_stream = up, cl_acc = [], cl_live = True\<rparr>)"

definition open_direct :: "(bool \<Rightarrow> bool) \<Rightarrow> bool \<Rightarrow> DirectLink option" where
  "open_direct bind ipv6 = (if bind ipv6 then Some \<lparr>dk_ipv6 = ipv6, dk_peer = None\<rparr> else None)"

text \<open>\<^verbatim>\<open>sock.send\<close> hands a datagram to the connected peer; without one it is an error.\<close>

definition sock_send :: "DirectLink \<Rightarrow> bytes \<Rightarrow> Egress list" where
  "sock_send d data = (case dk_peer d of Some p \<Rightarrow> [Local p data] | None \<Rightarrow> [])"

definition is_ipv6 :: "SocketAddr \<Rightarrow> bool" where
  "is_ipv6 s = (case sa_ip s of V4 _ \<Rightarrow> False | V6 _ \<Rightarrow> True)"

definition chain_write :: "SocketAddr \<Rightarrow> bytes \<Rightarrow> UdpSession \<Rightarrow> UdpSession \<times> Egress list" where
  "chain_write addr data sess =
    (case map_of (us_chain sess) addr of
       None \<Rightarrow> (sess, [])
     | Some link \<Rightarrow> (sess\<lparr>us_chain := AList.update addr (link_write data link) (us_chain sess)\<rparr>, [Chained addr data]))"

definition send_untargeted :: "bytes \<Rightarrow> UdpSession \<Rightarrow> UdpSession \<times> Egress list" where
  "send_untargeted data sess =
    (case us_chain sess of
       [(addr, _)] \<Rightarrow> chain_write addr data sess
     | _ \<Rightarrow> (case us_direct sess of
              Some d \<Rightarrow> (sess, sock_send d data)
            | None \<Rightarrow> (sess, [])))"

definition send_chained ::
    "MuxNet \<Rightarrow> ChainOutbound \<Rightarrow> MuxAddr \<Rightarrow> bytes \<Rightarrow> UdpSession \<Rightarrow> UdpSession \<times> Egress list" where
  "send_chained nw c t data sess =
    (case mux_resolve (mn_lookup nw) t of
       Inl _ \<Rightarrow> (sess, [])
     | Inr addr \<Rightarrow>
         if map_of (us_chain sess) addr = None then
           (case dial_chain (mn_chain nw) c (endpoint_of t) of
              None \<Rightarrow> (sess, [Dialled c (endpoint_of t)])
            | Some link \<Rightarrow>
                map_prod id (\<lambda>out. Dialled c (endpoint_of t) # out)
                  (chain_write addr data (sess\<lparr>us_chain := AList.update addr link (us_chain sess)\<rparr>)))
         else chain_write addr data sess)"

definition send_local :: "MuxNet \<Rightarrow> MuxAddr \<Rightarrow> bytes \<Rightarrow> UdpSession \<Rightarrow> UdpSession \<times> Egress list" where
  "send_local nw t data sess =
    (case mux_resolve (mn_lookup nw) t of
       Inl _ \<Rightarrow> (sess, [])
     | Inr addr \<Rightarrow>
         let sess = (if us_direct sess = None then sess\<lparr>us_direct := open_direct (mn_bind nw) (is_ipv6 addr)\<rparr> else sess)
         in (sess, if us_direct sess = None then [] else [Local addr data]))"

definition send_datagram ::
    "MuxNet \<Rightarrow> Router \<Rightarrow> Outbounds \<Rightarrow> MuxAddr option \<Rightarrow> bytes \<Rightarrow> UdpSession \<Rightarrow> UdpSession \<times> Egress list" where
  "send_datagram nw router outbounds target data sess =
    (case target of
       None \<Rightarrow> send_untargeted data sess
     | Some t \<Rightarrow>
         (case outbounds_get outbounds (route router (endpoint_of t)) of
            Some c \<Rightarrow> send_chained nw c t data sess
          | None \<Rightarrow> send_local nw t data sess))"

section \<open>The relay\<close>

record 't MuxEnv =
  me_io :: "'t MuxIo"
  me_net :: "nat \<Rightarrow> MuxNet"
  me_router :: Router
  me_outbounds :: Outbounds
  me_draws :: "nat \<Rightarrow> nat"

datatype MuxPhase = Draining | Waiting | Ended "ErrorKind + unit"

record 't MuxState =
  mx_tunnel :: 't
  mx_unp :: "Unpadder option"
  mx_downlink_pad :: "bytes option"
  mx_inbuf :: bytes
  mx_sessions :: "u16 \<Rightarrow> UdpSession option"
  mx_resp :: "(u16 \<times> SocketAddr \<times> bytes) list"
  mx_metrics :: Metrics
  mx_clock :: nat
  mx_egress :: "(u16 \<times> Egress) list"
  mx_phase :: MuxPhase

definition RESP_CAPACITY :: nat where "RESP_CAPACITY = 512"

definition mux_start :: "'t \<Rightarrow> bytes \<Rightarrow> Metrics \<Rightarrow> bytes option \<Rightarrow> 't MuxState" where
  "mux_start tunnel leftover metrics vision_uuid =
    (let unp = map_option unpadder_new vision_uuid;
         (unp, inbuf) = devision unp leftover
     in \<lparr>mx_tunnel = tunnel, mx_unp = unp, mx_downlink_pad = vision_uuid, mx_inbuf = inbuf,
         mx_sessions = Map.empty, mx_resp = [], mx_metrics = metrics, mx_clock = 0, mx_egress = [],
         mx_phase = Draining\<rparr>)"

definition mux_data :: "'t MuxEnv \<Rightarrow> u16 \<Rightarrow> MuxAddr option \<Rightarrow> bytes \<Rightarrow> UdpSession \<Rightarrow> 't MuxState \<Rightarrow> 't MuxState" where
  "mux_data env sid target data sess st =
    (let (sess, out) = send_datagram (me_net env (mx_clock st)) (me_router env) (me_outbounds env) target data sess
     in st\<lparr>mx_sessions := (mx_sessions st)(sid \<mapsto> sess), mx_clock := Suc (mx_clock st),
           mx_egress := mx_egress st @ map (Pair sid) out, mx_metrics := add_bytes (length data) 0 (mx_metrics st)\<rparr>)"

definition mux_fail :: "ErrorKind \<Rightarrow> 't MuxState \<Rightarrow> 't MuxState" where
  "mux_fail e st = st\<lparr>mx_sessions := Map.empty, mx_phase := Ended (Inl e)\<rparr>"

definition mux_frame_in :: "'t MuxEnv \<Rightarrow> Frame \<Rightarrow> 't MuxState \<Rightarrow> 't MuxState" where
  "mux_frame_in env f st =
    (if fr_status f = STATUS_NEW \<or> fr_status f = STATUS_KEEP then
       (let sess = (case mx_sessions st (fr_sid f) of Some s \<Rightarrow> s | None \<Rightarrow> udp_session_default) in
        case fr_data f of
          Some data \<Rightarrow> mux_data env (fr_sid f) (fr_target f) data sess st
        | None \<Rightarrow> st\<lparr>mx_sessions := (mx_sessions st)(fr_sid f \<mapsto> sess)\<rparr>)
     else if fr_status f = STATUS_END then st\<lparr>mx_sessions := (mx_sessions st)(fr_sid f := None)\<rparr>
     else if fr_status f = STATUS_KEEPALIVE then st
     else mux_fail InvalidData st)"

definition mux_drain :: "'t MuxEnv \<Rightarrow> 't MuxState \<Rightarrow> 't MuxState" where
  "mux_drain env st =
    (case parse_frame (mx_inbuf st) of
       Inl e \<Rightarrow> mux_fail e st
     | Inr None \<Rightarrow> st\<lparr>mx_phase := Waiting\<rparr>
     | Inr (Some (f, rest)) \<Rightarrow> mux_frame_in env f (st\<lparr>mx_inbuf := rest\<rparr>))"

definition mux_close :: "'t MuxEnv \<Rightarrow> 't MuxState \<Rightarrow> 't MuxState" where
  "mux_close env st = st\<lparr>mx_tunnel := mi_close (me_io env) (mx_tunnel st), mx_sessions := Map.empty, mx_phase := Ended (Inr ())\<rparr>"

definition mux_tunnel :: "'t MuxEnv \<Rightarrow> 't MuxState \<Rightarrow> 't MuxState" where
  "mux_tunnel env st =
    (case mi_read (me_io env) (mx_tunnel st) of
       (Inl e, t) \<Rightarrow> mux_fail e (st\<lparr>mx_tunnel := t\<rparr>)
     | (Inr None, t) \<Rightarrow> mux_close env (st\<lparr>mx_tunnel := t\<rparr>)
     | (Inr (Some pt), t) \<Rightarrow>
         let (unp, d) = devision (mx_unp st) pt
         in st\<lparr>mx_tunnel := t, mx_unp := unp, mx_inbuf := mx_inbuf st @ d, mx_phase := Draining\<rparr>)"

definition mux_respond :: "'t MuxEnv \<Rightarrow> 't MuxState \<Rightarrow> 't MuxState" where
  "mux_respond env st =
    (case mx_resp st of
       [] \<Rightarrow> st
     | (sid, src, data) # resp \<Rightarrow>
         let frame = keep_frame sid src data;
             out = (case mx_downlink_pad st of Some uuid \<Rightarrow> revision uuid frame (me_draws env) | None \<Rightarrow> frame);
             st = st\<lparr>mx_resp := resp, mx_downlink_pad := None\<rparr>
         in case mi_write (me_io env) out (mx_tunnel st) of
              (Inl e, t) \<Rightarrow> mux_fail e (st\<lparr>mx_tunnel := t\<rparr>)
            | (Inr _, t) \<Rightarrow>
                st\<lparr>mx_tunnel := t, mx_metrics := add_bytes 0 (length data) (mx_metrics st), mx_phase := Draining\<rparr>)"

text \<open>
  One step of the receive task of a cascade link: it hands over a buffered datagram when the
  response channel has room, and reads when none is complete.
\<close>

definition chain_task :: "u16 \<Rightarrow> SocketAddr \<Rightarrow> 't MuxState \<Rightarrow> 't MuxState" where
  "chain_task sid label st =
    (case mx_sessions st sid of
       None \<Rightarrow> st
     | Some sess \<Rightarrow>
         (case map_of (us_chain sess) label of
            None \<Rightarrow> st
          | Some link \<Rightarrow>
              let put = (\<lambda>link. st\<lparr>mx_sessions := (mx_sessions st)(sid \<mapsto>
                    sess\<lparr>us_chain := AList.update label link (us_chain sess)\<rparr>)\<rparr>) in
              if \<not> cl_live link then st
              else case take_datagram (cl_acc link) of
                Some (dg, rest) \<Rightarrow>
                  if length (mx_resp st) < RESP_CAPACITY
                  then (put (link\<lparr>cl_acc := rest\<rparr>))\<lparr>mx_resp := mx_resp st @ [(sid, label, dg)]\<rparr>
                  else st
              | None \<Rightarrow>
                  (case pf_poll_read 65535 (cl_stream link) of
                     (Inr (b # bs), s) \<Rightarrow> put (link\<lparr>cl_stream := s, cl_acc := cl_acc link @ b # bs\<rparr>)
                   | (_, s) \<Rightarrow> put (link\<lparr>cl_stream := s, cl_live := False\<rparr>))))"

text \<open>The receive task of the local socket: a datagram that arrived goes to the response channel.\<close>

definition direct_task :: "u16 \<Rightarrow> SocketAddr \<Rightarrow> bytes \<Rightarrow> 't MuxState \<Rightarrow> 't MuxState" where
  "direct_task sid src data st =
    (case mx_sessions st sid of
       Some sess \<Rightarrow>
         if us_direct sess \<noteq> None \<and> length (mx_resp st) < RESP_CAPACITY
         then st\<lparr>mx_resp := mx_resp st @ [(sid, src, take 65535 data)]\<rparr>
         else st
     | None \<Rightarrow> st)"

datatype MuxEvent =
    EvFrame
  | EvTimeout
  | EvTunnel
  | EvResp
  | EvChain u16 SocketAddr
  | EvDirect u16 SocketAddr bytes

definition mux_step :: "'t MuxEnv \<Rightarrow> MuxEvent \<Rightarrow> 't MuxState \<Rightarrow> 't MuxState" where
  "mux_step env ev st =
    (case ev of
       EvFrame \<Rightarrow> if mx_phase st = Draining then mux_drain env st else st
     | EvTimeout \<Rightarrow> if mx_phase st = Waiting then mux_close env st else st
     | EvTunnel \<Rightarrow> if mx_phase st = Waiting then mux_tunnel env st else st
     | EvResp \<Rightarrow> if mx_phase st = Waiting then mux_respond env st else st
     | EvChain sid label \<Rightarrow> chain_task sid label st
     | EvDirect sid src data \<Rightarrow> direct_task sid src data st)"

definition mux_relay ::
    "'t MuxEnv \<Rightarrow> 't \<Rightarrow> bytes \<Rightarrow> Metrics \<Rightarrow> bytes option \<Rightarrow> MuxEvent list \<Rightarrow> 't MuxState" where
  "mux_relay env tunnel leftover metrics vision_uuid evs =
    foldl (\<lambda>st ev. mux_step env ev st) (mux_start tunnel leftover metrics vision_uuid) evs"

section \<open>What the relay is meant to send\<close>

text \<open>
  The plan forgets the streams: of a sub-session it keeps whether a local socket is open and the
  addresses that have a cascade link.
\<close>

type_synonym view = "bool \<times> SocketAddr list"

record MuxPlan =
  mp_clock :: nat
  mp_sessions :: "u16 \<Rightarrow> view option"
  mp_log :: "(u16 \<times> Egress) list"

definition plan_datagram ::
    "MuxNet \<Rightarrow> Router \<Rightarrow> Outbounds \<Rightarrow> MuxAddr option \<Rightarrow> bytes \<Rightarrow> view \<Rightarrow> view \<times> Egress list" where
  "plan_datagram nw router outbounds target data v =
    (case target of
       None \<Rightarrow> (v, case snd v of [a] \<Rightarrow> [Chained a data] | _ \<Rightarrow> [])
     | Some t \<Rightarrow>
         (case mux_resolve (mn_lookup nw) t of
            Inl _ \<Rightarrow> (v, [])
          | Inr a \<Rightarrow>
              (case outbounds_get outbounds (route router (endpoint_of t)) of
                 Some c \<Rightarrow>
                   if a \<in> set (snd v) then (v, [Chained a data])
                   else if dial_chain (mn_chain nw) c (endpoint_of t) = None then (v, [Dialled c (endpoint_of t)])
                   else ((fst v, snd v @ [a]), [Dialled c (endpoint_of t), Chained a data])
               | None \<Rightarrow>
                   if fst v \<or> mn_bind nw (is_ipv6 a) then ((True, snd v), [Local a data]) else (v, []))))"

definition plan_frame :: "'t MuxEnv \<Rightarrow> MuxPlan \<Rightarrow> Frame \<Rightarrow> MuxPlan" where
  "plan_frame env p f =
    (if fr_status f = STATUS_NEW \<or> fr_status f = STATUS_KEEP then
       (let v = (case mp_sessions p (fr_sid f) of Some v \<Rightarrow> v | None \<Rightarrow> (False, [])) in
        case fr_data f of
          Some data \<Rightarrow>
            (let (v, out) = plan_datagram (me_net env (mp_clock p)) (me_router env) (me_outbounds env) (fr_target f) data v
             in \<lparr>mp_clock = Suc (mp_clock p), mp_sessions = (mp_sessions p)(fr_sid f \<mapsto> v),
                 mp_log = mp_log p @ map (Pair (fr_sid f)) out\<rparr>)
        | None \<Rightarrow> p\<lparr>mp_sessions := (mp_sessions p)(fr_sid f \<mapsto> v)\<rparr>)
     else if fr_status f = STATUS_END then p\<lparr>mp_sessions := (mp_sessions p)(fr_sid f := None)\<rparr>
     else p)"

definition mux_plan :: "'t MuxEnv \<Rightarrow> Frame list \<Rightarrow> MuxPlan" where
  "mux_plan env fs = foldl (plan_frame env) \<lparr>mp_clock = 0, mp_sessions = Map.empty, mp_log = []\<rparr> fs"

section \<open>The relay implements the plan\<close>

definition sess_view :: "UdpSession \<Rightarrow> view" where
  "sess_view s = (us_direct s \<noteq> None, map fst (us_chain s))"

definition sess_ok :: "UdpSession \<Rightarrow> bool" where
  "sess_ok s \<longleftrightarrow> distinct (map fst (us_chain s)) \<and> (\<forall>d. us_direct s = Some d \<longrightarrow> dk_peer d = None)"

lemma update_present: "a \<in> set (map fst xs) \<Longrightarrow> map fst (AList.update a b xs) = map fst xs"
  by (simp add: update_keys)

lemma update_absent: "a \<notin> set (map fst xs) \<Longrightarrow> map fst (AList.update a b xs) = map fst xs @ [a]"
  by (simp add: update_keys)

lemma map_of_key: "map_of xs a = None \<longleftrightarrow> a \<notin> set (map fst xs)"
  by (simp add: map_of_eq_None_iff)

lemma chain_write_view:
  assumes "sess_ok s" and "chain_write a data s = (s', out)" and "a \<in> set (map fst (us_chain s))"
  shows "sess_ok s'" and "sess_view s' = sess_view s" and "out = [Chained a data]"
proof -
  obtain link where "map_of (us_chain s) a = Some link"
    using assms(3) map_of_key [of "us_chain s" a] by auto
  then show "sess_ok s'" and "sess_view s' = sess_view s" and "out = [Chained a data]"
    using assms update_present [OF assms(3)] by (auto simp: chain_write_def sess_ok_def sess_view_def)
qed

lemma send_untargeted_plan:
  assumes "sess_ok s" and "send_untargeted data s = (s', out)"
  shows "sess_ok s' \<and> (sess_view s', out) = plan_datagram nw router ob None data (sess_view s)"
proof -
  consider a l where "us_chain s = [(a, l)]" | "\<nexists>a l. us_chain s = [(a, l)]"
    by blast
  then show ?thesis
  proof cases
    case 1
    then show ?thesis
      using assms chain_write_view [of s a data s' out]
      by (simp add: send_untargeted_def plan_datagram_def sess_view_def)
  next
    case 2
    then have "s' = s \<and> out = []"
      using assms by (auto simp: send_untargeted_def sock_send_def sess_ok_def split: list.splits option.splits prod.splits)
    moreover have "(case map fst (us_chain s) of [a] \<Rightarrow> [Chained a data] | _ \<Rightarrow> []) = []"
      using 2 by (auto split: list.splits)
    ultimately show ?thesis
      using assms(1) by (simp add: plan_datagram_def sess_view_def)
  qed
qed

lemma send_chained_plan:
  assumes "sess_ok s" and "outbounds_get ob (route router (endpoint_of t)) = Some c"
    and "send_chained nw c t data s = (s', out)"
  shows "sess_ok s' \<and> (sess_view s', out) = plan_datagram nw router ob (Some t) data (sess_view s)"
proof (cases "mux_resolve (mn_lookup nw) t")
  case (Inl e)
  then show ?thesis
    using assms by (simp add: send_chained_def plan_datagram_def)
next
  case (Inr a)
  note r = this
  show ?thesis
  proof (cases "map_of (us_chain s) a")
    case (Some l)
    then have "a \<in> set (map fst (us_chain s))"
      using map_of_key [of "us_chain s" a] by simp
    then show ?thesis
      using assms r Some chain_write_view [of s a data s' out]
      by (simp add: send_chained_def plan_datagram_def) (simp add: sess_view_def)
  next
    case None
    then have a: "a \<notin> set (map fst (us_chain s))"
      by (simp add: map_of_key)
    show ?thesis
    proof (cases "dial_chain (mn_chain nw) c (endpoint_of t)")
      case None
      then show ?thesis
        using assms r a \<open>map_of (us_chain s) a = None\<close>
        by (simp add: send_chained_def plan_datagram_def) (simp add: sess_view_def)
    next
      case (Some link)
      let ?s = "s\<lparr>us_chain := AList.update a link (us_chain s)\<rparr>"
      obtain w where w: "chain_write a data ?s = (s', w)" "out = Dialled c (endpoint_of t) # w"
        using assms(3) r Some \<open>map_of (us_chain s) a = None\<close>
        by (cases "chain_write a data ?s") (auto simp: send_chained_def)
      have "sess_ok ?s" "sess_view ?s = (fst (sess_view s), snd (sess_view s) @ [a])"
        using assms(1) a update_absent [OF a, of link] by (simp_all add: sess_ok_def sess_view_def)
      then show ?thesis
        using chain_write_view [OF _ w(1)] a w(2) assms(2) r Some update_absent [OF a, of link]
        by (simp add: plan_datagram_def) (simp add: sess_view_def)
    qed
  qed
qed

lemma send_local_plan:
  assumes "sess_ok s" and "outbounds_get ob (route router (endpoint_of t)) = None"
    and "send_local nw t data s = (s', out)"
  shows "sess_ok s' \<and> (sess_view s', out) = plan_datagram nw router ob (Some t) data (sess_view s)"
  using assms
  by (auto simp: send_local_def plan_datagram_def Let_def open_direct_def sess_ok_def sess_view_def
      split: sum.splits if_splits)

lemma send_datagram_plan:
  assumes "sess_ok s" and "send_datagram nw router ob target data s = (s', out)"
  shows "sess_ok s' \<and> (sess_view s', out) = plan_datagram nw router ob target data (sess_view s)"
  using assms send_untargeted_plan [of s data s' out nw router ob] send_chained_plan [of s ob router _ _ nw data s' out]
    send_local_plan [of s ob router _ nw data s' out]
  by (cases target) (auto simp: send_datagram_def split: option.splits)

definition mux_abs :: "'t MuxState \<Rightarrow> MuxPlan" where
  "mux_abs st = \<lparr>mp_clock = mx_clock st, mp_sessions = (\<lambda>sid. map_option sess_view (mx_sessions st sid)), mp_log = mx_egress st\<rparr>"

definition sessions_ok :: "'t MuxState \<Rightarrow> bool" where
  "sessions_ok st \<longleftrightarrow> (\<forall>sid s. mx_sessions st sid = Some s \<longrightarrow> sess_ok s)"

lemma mux_data_plan:
  assumes "sessions_ok st" and "sess_ok sess"
  shows "sessions_ok (mux_data env sid target data sess st)"
    and "mux_abs (mux_data env sid target data sess st) =
      (let (v, out) = plan_datagram (me_net env (mx_clock st)) (me_router env) (me_outbounds env) target data (sess_view sess)
       in \<lparr>mp_clock = Suc (mx_clock st), mp_sessions = (mp_sessions (mux_abs st))(sid \<mapsto> v),
           mp_log = mx_egress st @ map (Pair sid) out\<rparr>)"
proof -
  obtain s' out where s: "send_datagram (me_net env (mx_clock st)) (me_router env) (me_outbounds env) target data sess = (s', out)"
    by fastforce
  note p = send_datagram_plan [OF assms(2) s]
  show "sessions_ok (mux_data env sid target data sess st)"
    using assms(1) p s by (simp add: mux_data_def sessions_ok_def)
  show "mux_abs (mux_data env sid target data sess st) =
      (let (v, out) = plan_datagram (me_net env (mx_clock st)) (me_router env) (me_outbounds env) target data (sess_view sess)
       in \<lparr>mp_clock = Suc (mx_clock st), mp_sessions = (mp_sessions (mux_abs st))(sid \<mapsto> v),
           mp_log = mx_egress st @ map (Pair sid) out\<rparr>)"
    using p s by (auto simp: mux_data_def mux_abs_def fun_eq_iff split: prod.splits)
qed

lemma mux_frame_in_plan:
  assumes "sessions_ok st" and "mx_phase st = Draining"
  shows "sessions_ok (mux_frame_in env f st)"
    and "mx_phase (mux_frame_in env f st) = Draining \<Longrightarrow> mux_abs (mux_frame_in env f st) = plan_frame env (mux_abs st) f"
    and "mx_egress (mux_frame_in env f st) = mp_log (plan_frame env (mux_abs st) f)"
    and "mx_phase (mux_frame_in env f st) = Draining \<or> (\<exists>e. mx_phase (mux_frame_in env f st) = Ended (Inl e))"
    and "mx_inbuf (mux_frame_in env f st) = mx_inbuf st" and "mx_unp (mux_frame_in env f st) = mx_unp st"
    and "mx_tunnel (mux_frame_in env f st) = mx_tunnel st"
proof -
  define sess where "sess = (case mx_sessions st (fr_sid f) of Some s \<Rightarrow> s | None \<Rightarrow> udp_session_default)"
  have ok: "sess_ok sess"
    using assms(1) by (auto simp: sess_def sessions_ok_def udp_session_default_def sess_ok_def split: option.splits)
  have view: "sess_view sess = (case mp_sessions (mux_abs st) (fr_sid f) of Some v \<Rightarrow> v | None \<Rightarrow> (False, []))"
    by (simp add: sess_def mux_abs_def udp_session_default_def sess_view_def split: option.splits)
  have d: "mux_abs (mux_data env (fr_sid f) (fr_target f) data sess st) = plan_frame env (mux_abs st) f"
    if "fr_status f = STATUS_NEW \<or> fr_status f = STATUS_KEEP" "fr_data f = Some data" for data
    using mux_data_plan(2) [OF assms(1) ok] that view by (auto simp: plan_frame_def mux_abs_def Let_def split: prod.splits)
  then have l: "mx_egress (mux_data env (fr_sid f) (fr_target f) data sess st) = mp_log (plan_frame env (mux_abs st) f)"
    if "fr_status f = STATUS_NEW \<or> fr_status f = STATUS_KEEP" "fr_data f = Some data" for data
    using arg_cong [OF d [OF that], of mp_log] by (simp add: mux_abs_def)
  have m: "mx_phase (mux_data env sid t data s st) = mx_phase st" "mx_inbuf (mux_data env sid t data s st) = mx_inbuf st"
      "mx_unp (mux_data env sid t data s st) = mx_unp st" "mx_tunnel (mux_data env sid t data s st) = mx_tunnel st" for sid t data s
    by (simp_all add: mux_data_def split: prod.splits)
  note simps = mux_frame_in_def sess_def [symmetric] Let_def
  show "sessions_ok (mux_frame_in env f st)"
    using assms(1) ok mux_data_plan(1) [OF assms(1) ok] by (auto simp: simps mux_fail_def sessions_ok_def split: option.splits)
  show "mx_phase (mux_frame_in env f st) = Draining \<Longrightarrow> mux_abs (mux_frame_in env f st) = plan_frame env (mux_abs st) f"
    using d view by (auto simp: simps mux_fail_def plan_frame_def mux_abs_def fun_eq_iff split: option.splits if_splits)
  show "mx_egress (mux_frame_in env f st) = mp_log (plan_frame env (mux_abs st) f)"
    using l view by (auto simp: simps mux_fail_def plan_frame_def mux_abs_def split: option.splits)
  show "mx_phase (mux_frame_in env f st) = Draining \<or> (\<exists>e. mx_phase (mux_frame_in env f st) = Ended (Inl e))"
      "mx_inbuf (mux_frame_in env f st) = mx_inbuf st" "mx_unp (mux_frame_in env f st) = mx_unp st"
      "mx_tunnel (mux_frame_in env f st) = mx_tunnel st"
    using assms(2) m by (auto simp: simps mux_fail_def split: option.splits)
qed

text \<open>The receive tasks touch neither the plan nor the uplink.\<close>

lemma put_link_abs:
  assumes "mx_sessions st sid = Some sess" and "map_of (us_chain sess) label = Some link"
    and "mx_sessions st' = (mx_sessions st)(sid \<mapsto> sess\<lparr>us_chain := AList.update label link' (us_chain sess)\<rparr>)"
    and "mx_clock st' = mx_clock st" and "mx_egress st' = mx_egress st"
  shows "mux_abs st' = mux_abs st" and "sessions_ok st \<Longrightarrow> sessions_ok st'"
proof -
  have "label \<in> set (map fst (us_chain sess))"
    using assms(2) map_of_key [of "us_chain sess" label] by simp
  note u = update_present [OF this, of link']
  then have "sess_view (sess\<lparr>us_chain := AList.update label link' (us_chain sess)\<rparr>) = sess_view sess"
    by (simp add: sess_view_def)
  then show "mux_abs st' = mux_abs st"
    using assms by (auto simp: mux_abs_def fun_eq_iff)
  show "sessions_ok st \<Longrightarrow> sessions_ok st'"
    using assms u by (auto simp: sessions_ok_def sess_ok_def)
qed

lemma chain_task_cases:
  obtains (same) "chain_task sid label st = st"
  | (put) sess link link' where "mx_sessions st sid = Some sess" "map_of (us_chain sess) label = Some link"
      "chain_task sid label st = st\<lparr>mx_sessions := (mx_sessions st)(sid \<mapsto>
        sess\<lparr>us_chain := AList.update label link' (us_chain sess)\<rparr>)\<rparr>"
  | (push) sess link link' dg where "mx_sessions st sid = Some sess" "map_of (us_chain sess) label = Some link"
      "chain_task sid label st = st\<lparr>mx_sessions := (mx_sessions st)(sid \<mapsto>
        sess\<lparr>us_chain := AList.update label link' (us_chain sess)\<rparr>), mx_resp := mx_resp st @ [(sid, label, dg)]\<rparr>"
      "take_datagram (cl_acc link) = Some (dg, cl_acc link')"
proof -
  consider (none) "mx_sessions st sid = None"
    | (nolink) sess where "mx_sessions st sid = Some sess" "map_of (us_chain sess) label = None"
    | (link) sess link where "mx_sessions st sid = Some sess" "map_of (us_chain sess) label = Some link"
    by (cases "mx_sessions st sid"; cases "map_of (us_chain (the (mx_sessions st sid))) label") auto
  then show thesis
  proof cases
    case (link sess l)
    note simps = link chain_task_def Let_def
    show thesis
    proof (cases "cl_live l")
      case True
      show thesis
      proof (cases "take_datagram (cl_acc l)")
        case None
        obtain r q where rd: "pf_poll_read 65535 (cl_stream l) = (r, q)"
          by fastforce
        show thesis
        proof (rule put [OF link])
          show "chain_task sid label st = st\<lparr>mx_sessions := (mx_sessions st)(sid \<mapsto>
            sess\<lparr>us_chain := AList.update label
              (case r of Inr (b # bs) \<Rightarrow> l\<lparr>cl_stream := q, cl_acc := cl_acc l @ b # bs\<rparr> | _ \<Rightarrow> l\<lparr>cl_stream := q, cl_live := False\<rparr>)
              (us_chain sess)\<rparr>)\<rparr>"
            using None True rd by (simp add: simps split: sum.splits list.splits)
        qed
      next
        case (Some x)
        then obtain dg rest where x: "take_datagram (cl_acc l) = Some (dg, rest)"
          by (cases x) simp
        show thesis
        proof (cases "length (mx_resp st) < RESP_CAPACITY")
          case room: True
          show thesis
            by (rule push [OF link, of dg "l\<lparr>cl_acc := rest\<rparr>"]) (use x True room in \<open>simp_all add: simps\<close>)
        qed (use same x True in \<open>simp add: simps\<close>)
      qed
    qed (use same in \<open>simp add: simps\<close>)
  qed (use same in \<open>simp_all add: chain_task_def\<close>)
qed

lemma chain_task_keeps:
  "mux_abs (chain_task sid label st) = mux_abs st" "sessions_ok st \<Longrightarrow> sessions_ok (chain_task sid label st)"
  "mx_phase (chain_task sid label st) = mx_phase st" "mx_inbuf (chain_task sid label st) = mx_inbuf st"
  "mx_unp (chain_task sid label st) = mx_unp st" "mx_tunnel (chain_task sid label st) = mx_tunnel st"
  "mx_downlink_pad (chain_task sid label st) = mx_downlink_pad st"
proof -
  have "mux_abs (chain_task sid label st) = mux_abs st \<and> (sessions_ok st \<longrightarrow> sessions_ok (chain_task sid label st)) \<and>
    mx_phase (chain_task sid label st) = mx_phase st \<and> mx_inbuf (chain_task sid label st) = mx_inbuf st \<and>
    mx_unp (chain_task sid label st) = mx_unp st \<and> mx_tunnel (chain_task sid label st) = mx_tunnel st \<and>
    mx_downlink_pad (chain_task sid label st) = mx_downlink_pad st"
  proof (cases rule: chain_task_cases [of sid label st])
    case (put sess link link')
    then show ?thesis
      using put_link_abs [OF put(1,2), of "chain_task sid label st" link'] by simp
  next
    case (push sess link link' dg)
    then show ?thesis
      using put_link_abs [OF push(1,2), of "chain_task sid label st" link'] by simp
  qed simp
  then show "mux_abs (chain_task sid label st) = mux_abs st" "sessions_ok st \<Longrightarrow> sessions_ok (chain_task sid label st)"
    "mx_phase (chain_task sid label st) = mx_phase st" "mx_inbuf (chain_task sid label st) = mx_inbuf st"
    "mx_unp (chain_task sid label st) = mx_unp st" "mx_tunnel (chain_task sid label st) = mx_tunnel st"
    "mx_downlink_pad (chain_task sid label st) = mx_downlink_pad st"
    by simp_all
qed

lemma direct_task_keeps:
  "mux_abs (direct_task sid src data st) = mux_abs st" "sessions_ok (direct_task sid src data st) = sessions_ok st"
  "mx_phase (direct_task sid src data st) = mx_phase st" "mx_inbuf (direct_task sid src data st) = mx_inbuf st"
  "mx_unp (direct_task sid src data st) = mx_unp st" "mx_tunnel (direct_task sid src data st) = mx_tunnel st"
  "mx_downlink_pad (direct_task sid src data st) = mx_downlink_pad st"
  by (auto simp: direct_task_def mux_abs_def sessions_ok_def split: option.splits)

lemmas tasks_keep = chain_task_keeps direct_task_keeps

section \<open>Unpadding as the bytes arrive\<close>

text \<open>The plaintext \<open>p\<close> that the remaining bytes \<open>r\<close> of the tunnel stand for.\<close>

definition unpads :: "bytes option \<Rightarrow> Unpadder option \<Rightarrow> bytes \<Rightarrow> bytes \<Rightarrow> bool" where
  "unpads vision unp r p \<longleftrightarrow>
    (case vision of
       None \<Rightarrow> unp = None \<and> p = r
     | Some uuid \<Rightarrow> \<exists>u. unp = Some u \<and> unpadder_inv uuid u \<and> snd (vrun uuid (up_abs u) r) = p)"

lemma unpads_devision:
  assumes "unpads vision unp (a @ r) p" and "devision unp a = (unp', d)"
  shows "\<exists>p'. p = d @ p' \<and> unpads vision unp' r p'"
proof (cases vision)
  case None
  then show ?thesis
    using assms by (auto simp: unpads_def)
next
  case (Some uuid)
  then obtain u where u: "unp = Some u" "unpadder_inv uuid u" "snd (vrun uuid (up_abs u) (a @ r)) = p"
    using assms(1) by (auto simp: unpads_def)
  obtain u' where push: "unpadder_push u a = (u', d)" "unp' = Some u'"
    using assms(2) u(1) by (auto simp: devision_def split: prod.splits)
  then show ?thesis
    using unpadder_push_refines [OF u(2) push(1)] u Some by (auto simp: unpads_def run_bytes_append split: prod.splits)
qed

lemma unpads_start:
  "unpads vision (map_option unpadder_new vision) r (snd (devision (map_option unpadder_new vision) r))"
proof (cases vision)
  case (Some uuid)
  obtain u' d where "unpadder_push (unpadder_new uuid) r = (u', d)"
    by fastforce
  then show ?thesis
    using Some unpadder_push_refines [OF unpadder_new_inv, of uuid r u' d]
    by (auto simp: unpads_def devision_def unpadder_new_inv)
qed (simp add: unpads_def)

section \<open>The invariant of the uplink\<close>

lemma frames_next:
  "parse_frame b = Inr (Some (f, rest)) \<Longrightarrow> frames (b @ p) = (f # fst (frames (rest @ p)), snd (frames (rest @ p)))"
  using parse_frame_append(1) [of b f rest p] by (subst frames.simps) (simp split: prod.splits)

lemma mux_plan_snoc: "mux_plan env (fs @ [f]) = plan_frame env (mux_plan env fs) f"
  by (simp add: mux_plan_def)

definition running :: "'t MuxState \<Rightarrow> bool" where
  "running st \<longleftrightarrow> mx_phase st = Draining \<or> mx_phase st = Waiting"

section \<open>The downlink\<close>

definition keep_wire :: "bytes option \<Rightarrow> (nat \<Rightarrow> nat) \<Rightarrow> (u16 \<times> SocketAddr \<times> bytes) list \<Rightarrow> bytes" where
  "keep_wire vision draws rs =
    (case rs of
       [] \<Rightarrow> []
     | (sid, src, data) # rs \<Rightarrow>
         (case vision of Some uuid \<Rightarrow> revision uuid (keep_frame sid src data) draws | None \<Rightarrow> keep_frame sid src data) @
         concat (map (\<lambda>(sid, src, data). keep_frame sid src data) rs))"

lemma keep_wire_snoc:
  "keep_wire vision draws (sent @ [(sid, src, data)]) = keep_wire vision draws sent @
    (case if sent = [] then vision else None of
       Some uuid \<Rightarrow> revision uuid (keep_frame sid src data) draws | None \<Rightarrow> keep_frame sid src data)"
  by (cases sent) (auto simp: keep_wire_def split: option.splits prod.splits)

text \<open>What the receive tasks hand over along an execution.\<close>

definition pushed_by :: "'t MuxEnv \<Rightarrow> MuxEvent \<Rightarrow> 't MuxState \<Rightarrow> (u16 \<times> SocketAddr \<times> bytes) list" where
  "pushed_by env ev st =
    (case ev of
       EvChain _ _ \<Rightarrow> drop (length (mx_resp st)) (mx_resp (mux_step env ev st))
     | EvDirect _ _ _ \<Rightarrow> drop (length (mx_resp st)) (mx_resp (mux_step env ev st))
     | _ \<Rightarrow> [])"

fun mux_pushed :: "'t MuxEnv \<Rightarrow> 't MuxState \<Rightarrow> MuxEvent list \<Rightarrow> (u16 \<times> SocketAddr \<times> bytes) list" where
  "mux_pushed env st [] = []"
| "mux_pushed env st (ev # evs) = pushed_by env ev st @ mux_pushed env (mux_step env ev st) evs"

lemma chain_task_resp: "mx_resp (chain_task sid label st) = mx_resp st @ drop (length (mx_resp st)) (mx_resp (chain_task sid label st))"
  by (cases rule: chain_task_cases [of sid label st]) simp_all

lemma direct_task_resp: "mx_resp (direct_task sid src data st) = mx_resp st @ drop (length (mx_resp st)) (mx_resp (direct_task sid src data st))"
  by (simp add: direct_task_def split: option.splits)

lemma mux_frame_in_downlink:
  "mx_resp (mux_frame_in env f st) = mx_resp st" "mx_downlink_pad (mux_frame_in env f st) = mx_downlink_pad st"
  "mx_tunnel (mux_frame_in env f st) = mx_tunnel st"
  by (auto simp: mux_frame_in_def mux_data_def mux_fail_def Let_def split: option.splits prod.splits)

lemma mux_drain_downlink:
  "mx_resp (mux_drain env st) = mx_resp st" "mx_downlink_pad (mux_drain env st) = mx_downlink_pad st"
  "mx_tunnel (mux_drain env st) = mx_tunnel st"
  by (auto simp: mux_drain_def mux_frame_in_downlink mux_fail_def split: option.splits sum.splits prod.splits)

text \<open>The client's unpadder and parser read the frames back.\<close>

definition keep_of :: "u16 \<times> SocketAddr \<times> bytes \<Rightarrow> Frame" where
  "keep_of r = (case r of (sid, src, data) \<Rightarrow>
    \<lparr>fr_sid = sid, fr_status = STATUS_KEEP, fr_target = Some (MuxIp src), fr_data = Some data\<rparr>)"

lemma frames_keep:
  "\<forall>(sid, src, data) \<in> set rs. length data < 65536 \<Longrightarrow>
   frames (concat (map (\<lambda>(sid, src, data). keep_frame sid src data) rs)) = (map keep_of rs, Inr [])"
proof (induction rs)
  case Nil
  then show ?case
    by (simp add: frames.simps parse_frame_def)
next
  case (Cons r rs)
  then show ?case
    by (cases r) (simp add: frames.simps [of "keep_frame _ _ _ @ _"] parse_keep_frame keep_of_def)
qed

lemma keep_wire_read:
  assumes "\<forall>(sid, src, data) \<in> set rs. length data < 65536" and "case vision of None \<Rightarrow> True | Some uuid \<Rightarrow> length uuid = 16"
  shows "frames (snd (devision (map_option unpadder_new vision) (keep_wire vision draws rs))) = (map keep_of rs, Inr [])"
proof -
  have "snd (devision (map_option unpadder_new vision) (keep_wire vision draws rs)) =
      concat (map (\<lambda>(sid, src, data). keep_frame sid src data) rs)"
  proof (cases vision)
    case None
    then show ?thesis
      by (cases rs) (auto simp: keep_wire_def)
  next
    case (Some uuid)
    obtain u out where push: "unpadder_push (unpadder_new uuid) (keep_wire vision draws rs) = (u, out)"
      by fastforce
    have "snd (vrun uuid (VDetect []) (keep_wire vision draws rs)) = concat (map (\<lambda>(sid, src, data). keep_frame sid src data) rs)"
      using Some assms(2) vrun_revision [of uuid] by (cases rs) (auto simp: keep_wire_def)
    then show ?thesis
      using Some push unpadder_push_refines [OF unpadder_new_inv push] by (auto simp: devision_def unpadder_new_abs)
  qed
  then show ?thesis
    using frames_keep [OF assms(1)] by simp
qed

section \<open>Every execution follows the plan\<close>

context mux_io
begin

definition uplink_live :: "'t MuxEnv \<Rightarrow> bytes option \<Rightarrow> bytes \<Rightarrow> Frame list \<Rightarrow> 't MuxState \<Rightarrow> bool" where
  "uplink_live env vision plain sent st \<longleftrightarrow>
    sessions_ok st \<and> mux_abs st = mux_plan env sent \<and>
    (\<exists>inp out p. ok inp out (mx_tunnel st) \<and> unpads vision (mx_unp st) inp p \<and>
      frames plain = (sent @ fst (frames (mx_inbuf st @ p)), snd (frames (mx_inbuf st @ p)))) \<and>
    (mx_phase st = Waiting \<longrightarrow> parse_frame (mx_inbuf st) = Inr None)"

definition mux_inv :: "'t MuxEnv \<Rightarrow> bytes option \<Rightarrow> bytes \<Rightarrow> 't MuxState \<Rightarrow> bool" where
  "mux_inv env vision plain st \<longleftrightarrow>
    (\<exists>sent. prefix sent (fst (frames plain)) \<and> mx_egress st = mp_log (mux_plan env sent) \<and>
      (running st \<longrightarrow> uplink_live env vision plain sent st))"

lemma live_egress: "uplink_live env vision plain sent st \<Longrightarrow> mx_egress st = mp_log (mux_plan env sent)"
  by (metis MuxPlan.select_convs(3) mux_abs_def uplink_live_def)

lemma live_prefix: "uplink_live env vision plain sent st \<Longrightarrow> prefix sent (fst (frames plain))"
  by (auto simp: uplink_live_def)

lemma live_inv: "uplink_live env vision plain sent st \<Longrightarrow> mux_inv env vision plain st"
  unfolding mux_inv_def using live_egress live_prefix by blast

lemma ended_inv:
  "\<lbrakk>uplink_live env vision plain sent st; mx_egress st' = mx_egress st; \<not> running st'\<rbrakk> \<Longrightarrow> mux_inv env vision plain st'"
  unfolding mux_inv_def using live_egress [of env vision plain sent st] live_prefix [of env vision plain sent st] by auto

lemma live_drain:
  assumes "uplink_live env vision plain sent st" and "mx_phase st = Draining"
  shows "mux_inv env vision plain (mux_drain env st)"
proof -
  consider (err) e where "parse_frame (mx_inbuf st) = Inl e" | (wait) "parse_frame (mx_inbuf st) = Inr None"
    | (frame) f rest where "parse_frame (mx_inbuf st) = Inr (Some (f, rest))"
    by (cases "parse_frame (mx_inbuf st)"; cases "projr (parse_frame (mx_inbuf st))") auto
  then show ?thesis
  proof cases
    case err
    then show ?thesis
      by (intro ended_inv [OF assms(1)]) (simp_all add: mux_drain_def mux_fail_def running_def)
  next
    case wait
    then have "uplink_live env vision plain sent (mux_drain env st)"
      using assms by (simp add: uplink_live_def mux_drain_def sessions_ok_def mux_abs_def)
    then show ?thesis
      by (rule live_inv)
  next
    case frame
    let ?st = "st\<lparr>mx_inbuf := rest\<rparr>"
    let ?st' = "mux_frame_in env f ?st"
    have "sessions_ok ?st" and ph: "mx_phase ?st = Draining" and abs: "mux_abs ?st = mux_plan env sent"
      using assms by (simp_all add: uplink_live_def sessions_ok_def mux_abs_def)
    note m = mux_frame_in_plan [OF this(1,2), of env f]
    obtain inp out p where io: "ok inp out (mx_tunnel st)" "unpads vision (mx_unp st) inp p"
        "frames plain = (sent @ fst (frames (mx_inbuf st @ p)), snd (frames (mx_inbuf st @ p)))"
      using assms(1) unfolding uplink_live_def by blast
    then have fr: "frames plain = ((sent @ [f]) @ fst (frames (rest @ p)), snd (frames (rest @ p)))"
      using frames_next [OF frame, of p] by simp
    have eq: "mux_drain env st = ?st'"
      using frame by (simp add: mux_drain_def)
    have eg: "mx_egress ?st' = mp_log (mux_plan env (sent @ [f]))"
      using m(3) abs by (simp add: mux_plan_snoc)
    have "uplink_live env vision plain (sent @ [f]) ?st'" if "running ?st'"
    proof -
      have ph': "mx_phase ?st' = Draining"
        using m(4) that by (auto simp: running_def)
      show ?thesis
        unfolding uplink_live_def m(5-7)
        using m(1) m(2) [OF ph'] ph' io(1,2) fr abs
        by (intro conjI exI [of _ inp] exI [of _ out] exI [of _ p]) (simp_all add: mux_plan_snoc)
    qed
    then show ?thesis
      unfolding mux_inv_def eq using eg fr by (intro exI [of _ "sent @ [f]"]) auto
  qed
qed

lemma live_tunnel:
  assumes "me_io env = io" and "uplink_live env vision plain sent st" and "mx_phase st = Waiting"
  shows "mux_inv env vision plain (mux_tunnel env st)"
proof -
  obtain inp out p where o: "ok inp out (mx_tunnel st)" "unpads vision (mx_unp st) inp p"
      "frames plain = (sent @ fst (frames (mx_inbuf st @ p)), snd (frames (mx_inbuf st @ p)))"
    using assms(2) unfolding uplink_live_def by blast
  from read_ok [OF o(1)] show ?thesis
  proof (elim disjE exE conjE)
    fix t'
    assume "mi_read io (mx_tunnel st) = (Inr None, t')"
    then show ?thesis
      using assms(1) by (intro ended_inv [OF assms(2)]) (simp_all add: mux_tunnel_def mux_close_def running_def)
  next
    fix pt rest t'
    assume r: "mi_read io (mx_tunnel st) = (Inr (Some pt), t')" "inp = pt @ rest" "ok rest out t'"
    obtain unp' d where d: "devision (mx_unp st) pt = (unp', d)"
      by fastforce
    obtain p' where p': "p = d @ p'" "unpads vision unp' rest p'"
      using unpads_devision [OF _ d] o(2) r(2) by blast
    have "uplink_live env vision plain sent (mux_tunnel env st)"
      unfolding uplink_live_def
    proof (intro conjI exI)
      show "ok rest out (mx_tunnel (mux_tunnel env st))" "unpads vision (mx_unp (mux_tunnel env st)) rest p'"
        using r d p' assms(1) by (simp_all add: mux_tunnel_def)
      show "frames plain = (sent @ fst (frames (mx_inbuf (mux_tunnel env st) @ p')), snd (frames (mx_inbuf (mux_tunnel env st) @ p')))"
        using o(3) r d p'(1) assms(1) by (simp add: mux_tunnel_def)
    qed (use assms r d in \<open>simp_all add: mux_tunnel_def uplink_live_def sessions_ok_def mux_abs_def\<close>)
    then show ?thesis
      by (rule live_inv)
  qed
qed

lemma write_cases:
  assumes "ok inp out t" and "p \<noteq> []"
  obtains (written) t' where "mi_write io p t = (Inr (), t')" "ok inp (out @ p) t'"
  | (refused) e n where "mi_write io p t = (Inl e, t)" "limit = Some n" "n < length p"
proof (cases "case limit of None \<Rightarrow> True | Some n \<Rightarrow> length p \<le> n")
  case True
  then show ?thesis
    using write_ok [OF assms(1)] assms(2) written by blast
next
  case False
  then obtain n where "limit = Some n" "n < length p"
    by (auto split: option.splits)
  then show ?thesis
    using write_refused [OF assms(1)] refused by blast
qed

lemma live_respond:
  assumes "me_io env = io" and "uplink_live env vision plain sent st" and "mx_phase st = Waiting"
  shows "mux_inv env vision plain (mux_respond env st)"
proof (cases "mx_resp st")
  case Nil
  then show ?thesis
    using live_inv [OF assms(2)] by (simp add: mux_respond_def)
next
  case (Cons r resp)
  obtain sid src data where r: "r = (sid, src, data)"
    by (cases r)
  define w where "w = (case mx_downlink_pad st of Some uuid \<Rightarrow> revision uuid (keep_frame sid src data) (me_draws env)
    | None \<Rightarrow> keep_frame sid src data)"
  have "w \<noteq> []"
    by (auto simp: w_def keep_frame_length revision_nonempty split: option.splits)
  obtain inp out p where o: "ok inp out (mx_tunnel st)" "unpads vision (mx_unp st) inp p"
      "frames plain = (sent @ fst (frames (mx_inbuf st @ p)), snd (frames (mx_inbuf st @ p)))"
    using assms(2) unfolding uplink_live_def by blast
  from o(1) \<open>w \<noteq> []\<close> show ?thesis
  proof (cases rule: write_cases)
    case (written t')
    let ?st = "mux_respond env st"
    have st: "?st = st\<lparr>mx_resp := resp, mx_downlink_pad := None, mx_tunnel := t', mx_metrics := add_bytes 0 (length data) (mx_metrics st), mx_phase := Draining\<rparr>"
      using Cons r written(1) assms(1) by (simp add: mux_respond_def w_def [symmetric] Let_def)
    have "uplink_live env vision plain sent ?st"
      unfolding uplink_live_def st using assms(2) o written(2)
      by (intro conjI exI [of _ inp] exI [of _ "out @ w"] exI [of _ p])
        (simp_all add: uplink_live_def sessions_ok_def mux_abs_def)
    then show ?thesis
      by (rule live_inv)
  next
    case (refused e n)
    then have "mux_respond env st = mux_fail e (st\<lparr>mx_resp := resp, mx_downlink_pad := None\<rparr>)"
      using Cons r assms(1) by (simp add: mux_respond_def w_def [symmetric] Let_def)
    then show ?thesis
      by (intro ended_inv [OF assms(2)]) (simp_all add: mux_fail_def running_def)
  qed
qed

lemma mux_step_inv:
  assumes "me_io env = io" and "mux_inv env vision plain st"
  shows "mux_inv env vision plain (mux_step env ev st)"
proof -
  obtain sent where s: "prefix sent (fst (frames plain))" "mx_egress st = mp_log (mux_plan env sent)"
      "running st \<Longrightarrow> uplink_live env vision plain sent st"
    using assms(2) by (auto simp: mux_inv_def)
  show ?thesis
  proof (cases ev)
    case EvFrame
    then show ?thesis
      using live_drain [OF s(3)] assms(2) by (simp add: mux_step_def running_def)
  next
    case EvTimeout
    show ?thesis
    proof (cases "mx_phase st = Waiting")
      case True
      then show ?thesis
        using EvTimeout by (intro ended_inv [OF s(3)]) (simp_all add: mux_step_def mux_close_def running_def)
    qed (use EvTimeout assms(2) in \<open>simp add: mux_step_def\<close>)
  next
    case EvTunnel
    then show ?thesis
      using live_tunnel [OF assms(1) s(3)] assms(2) by (simp add: mux_step_def running_def)
  next
    case EvResp
    then show ?thesis
      using live_respond [OF assms(1) s(3)] assms(2) by (simp add: mux_step_def running_def)
  next
    case (EvChain sid label)
    have "mx_egress (chain_task sid label st) = mx_egress st"
      using tasks_keep(1) [of sid label st] by (simp add: mux_abs_def)
    moreover have "running (chain_task sid label st) = running st"
      by (simp add: running_def tasks_keep)
    moreover have "uplink_live env vision plain sent (chain_task sid label st)" if "uplink_live env vision plain sent st"
      using that by (simp add: uplink_live_def tasks_keep)
    ultimately show ?thesis
      unfolding mux_inv_def using EvChain s by (intro exI [of _ sent]) (simp add: mux_step_def)
  next
    case (EvDirect sid src data)
    have "mx_egress (direct_task sid src data st) = mx_egress st"
      using tasks_keep(8) [of sid src data st] by (simp add: mux_abs_def)
    moreover have "running (direct_task sid src data st) = running st"
      by (simp add: running_def tasks_keep)
    moreover have "uplink_live env vision plain sent (direct_task sid src data st)" if "uplink_live env vision plain sent st"
      using that by (simp add: uplink_live_def tasks_keep)
    ultimately show ?thesis
      unfolding mux_inv_def using EvDirect s by (intro exI [of _ sent]) (simp add: mux_step_def)
  qed
qed

lemma mux_start_inv:
  assumes "ok input out tunnel" and "plain = snd (devision (map_option unpadder_new vision) (leftover @ input))"
  shows "mux_inv env vision plain (mux_start tunnel leftover metrics vision)"
proof -
  obtain unp' d where d: "devision (map_option unpadder_new vision) leftover = (unp', d)"
    by fastforce
  from unpads_devision [OF unpads_start d, of input] assms(2)
  obtain p' where "plain = d @ p'" "unpads vision unp' input p'"
    by blast
  then have "uplink_live env vision plain [] (mux_start tunnel leftover metrics vision)"
    unfolding uplink_live_def using assms(1) d
    by (auto simp: mux_start_def sessions_ok_def mux_abs_def mux_plan_def Let_def)
  then show ?thesis
    by (rule live_inv)
qed

lemma mux_run_inv:
  assumes "me_io env = io" and "mux_inv env vision plain st"
  shows "mux_inv env vision plain (foldl (\<lambda>st ev. mux_step env ev st) st evs)"
  using assms(2) by (induction evs arbitrary: st) (simp_all add: mux_step_inv [OF assms(1)])

text \<open>At the end of the tunnel a waiting relay has handled every frame.\<close>

lemma mux_inv_eof:
  assumes "mux_inv env vision plain st" and "mx_phase st = Waiting" and "mi_read io (mx_tunnel st) = (Inr None, t)"
  shows "mx_egress st = mp_log (mux_plan env (fst (frames plain)))"
proof -
  obtain sent where s: "uplink_live env vision plain sent st" "mx_egress st = mp_log (mux_plan env sent)"
    using assms(1,2) by (auto simp: mux_inv_def running_def)
  then obtain inp out p where o: "ok inp out (mx_tunnel st)" "unpads vision (mx_unp st) inp p"
      "frames plain = (sent @ fst (frames (mx_inbuf st @ p)), snd (frames (mx_inbuf st @ p)))"
    unfolding uplink_live_def by blast
  from read_ok [OF o(1)] assms(3) have "inp = []"
    by auto
  then have "p = []"
    using o(2) by (auto simp: unpads_def split: option.splits)
  moreover have "parse_frame (mx_inbuf st) = Inr None"
    using s(1) assms(2) by (simp add: uplink_live_def)
  then have "fst (frames (mx_inbuf st)) = []"
    by (simp add: frames.simps)
  ultimately show ?thesis
    using o(3) s(2) by simp
qed

definition down_inv :: "'t MuxEnv \<Rightarrow> bytes option \<Rightarrow> (u16 \<times> SocketAddr \<times> bytes) list \<Rightarrow> 't MuxState \<Rightarrow> bool" where
  "down_inv env vision rs st \<longleftrightarrow>
    (\<exists>sent inp. rs = sent @ mx_resp st \<and> ok inp (keep_wire vision (me_draws env) sent) (mx_tunnel st) \<and>
      mx_downlink_pad st = (if sent = [] then vision else None))"

lemma down_keep:
  assumes "down_inv env vision rs st" and "mx_resp st' = mx_resp st @ more_resp" and "mx_downlink_pad st' = mx_downlink_pad st"
    and "\<And>inp out. ok inp out (mx_tunnel st) \<Longrightarrow> \<exists>inp'. ok inp' out (mx_tunnel st')"
  shows "down_inv env vision (rs @ more_resp) st'"
proof -
  obtain sent inp where "rs = sent @ mx_resp st" "ok inp (keep_wire vision (me_draws env) sent) (mx_tunnel st)"
      "mx_downlink_pad st = (if sent = [] then vision else None)"
    using assms(1) unfolding down_inv_def by blast
  moreover then obtain inp' where "ok inp' (keep_wire vision (me_draws env) sent) (mx_tunnel st')"
    using assms(4) by blast
  ultimately show ?thesis
    unfolding down_inv_def using assms(2,3) by (intro exI [of _ sent] exI [of _ inp']) simp
qed

lemma down_respond:
  assumes "me_io env = io" and "down_inv env vision rs st"
    and "\<forall>(sid, src, data) \<in> set rs. length data \<le> 65340"
    and "case vision of None \<Rightarrow> True | Some uuid \<Rightarrow> length uuid = 16"
    and "case limit of None \<Rightarrow> True | Some n \<Rightarrow> 65536 \<le> n"
  shows "down_inv env vision rs (mux_respond env st)"
proof (cases "mx_resp st")
  case Nil
  then show ?thesis
    using assms(2) by (simp add: mux_respond_def)
next
  case (Cons r resp)
  obtain sid src data where r: "r = (sid, src, data)"
    by (cases r)
  obtain sent inp where s: "rs = sent @ mx_resp st" "ok inp (keep_wire vision (me_draws env) sent) (mx_tunnel st)"
      "mx_downlink_pad st = (if sent = [] then vision else None)"
    using assms(2) unfolding down_inv_def by blast
  define w where "w = (case mx_downlink_pad st of Some uuid \<Rightarrow> revision uuid (keep_frame sid src data) (me_draws env)
    | None \<Rightarrow> keep_frame sid src data)"
  have "length (keep_frame sid src data) \<le> 65368"
    using keep_frame_length(1) [of sid src data] assms(3) s(1) Cons r by simp
  then have w: "w \<noteq> []" "length w \<le> 65536"
    using s(3) assms(4) revision_length [OF keep_frame_length(2)]
    by (auto simp: w_def keep_frame_length(2) revision_nonempty split: option.splits if_splits)
  from s(2) w(1) show ?thesis
  proof (cases rule: write_cases)
    case (written t')
    have "mux_respond env st = st\<lparr>mx_resp := resp, mx_downlink_pad := None, mx_tunnel := t', mx_metrics := add_bytes 0 (length data) (mx_metrics st), mx_phase := Draining\<rparr>"
      using Cons r written(1) assms(1) by (simp add: mux_respond_def w_def [symmetric] Let_def)
    then show ?thesis
      unfolding down_inv_def using s Cons r written(2)
      by (intro exI [of _ "sent @ [(sid, src, data)]"] exI [of _ inp]) (simp add: keep_wire_snoc w_def [unfolded s(3)])
  next
    case (refused e n)
    then show ?thesis
      using assms(5) w(2) by simp
  qed
qed

lemma down_step:
  assumes "me_io env = io" and "down_inv env vision rs st"
    and "\<forall>(sid, src, data) \<in> set rs. length data \<le> 65340"
    and "case vision of None \<Rightarrow> True | Some uuid \<Rightarrow> length uuid = 16"
    and "case limit of None \<Rightarrow> True | Some n \<Rightarrow> 65536 \<le> n"
  shows "down_inv env vision (rs @ pushed_by env ev st) (mux_step env ev st)"
proof (cases ev)
  case EvFrame
  then show ?thesis
    using down_keep [OF assms(2), of "mux_drain env st" "[]"] assms(2)
    by (auto simp: mux_step_def pushed_by_def mux_drain_downlink)
next
  case EvTimeout
  then show ?thesis
    using down_keep [OF assms(2), of "mux_close env st" "[]"] assms(1,2) close_ok
    by (auto simp: mux_step_def pushed_by_def mux_close_def)
next
  case EvTunnel
  have "\<exists>inp'. ok inp' out (mx_tunnel (mux_tunnel env st))" if "ok inp out (mx_tunnel st)" for inp out
    using read_ok [OF that]
  proof (elim disjE exE conjE)
    fix t'
    assume "mi_read io (mx_tunnel st) = (Inr None, t')" "ok [] out t'"
    then show ?thesis
      using close_ok [of "[]" out t'] assms(1) by (intro exI [of _ "[]"]) (simp add: mux_tunnel_def mux_close_def)
  next
    fix p rest t'
    assume "mi_read io (mx_tunnel st) = (Inr (Some p), t')" "ok rest out t'"
    then show ?thesis
      using assms(1) by (intro exI [of _ rest]) (simp add: mux_tunnel_def split: prod.splits)
  qed
  moreover have "mx_resp (mux_tunnel env st) = mx_resp st" "mx_downlink_pad (mux_tunnel env st) = mx_downlink_pad st"
    by (auto simp: mux_tunnel_def mux_close_def mux_fail_def split: prod.splits sum.splits option.splits)
  ultimately show ?thesis
    using down_keep [OF assms(2), of "mux_tunnel env st" "[]"] assms(2) EvTunnel by (auto simp: mux_step_def pushed_by_def)
next
  case EvResp
  then show ?thesis
    using down_respond [OF assms] assms(2) by (simp add: mux_step_def pushed_by_def)
next
  case (EvChain sid label)
  then show ?thesis
    using down_keep [OF assms(2) chain_task_resp [of sid label st]] by (auto simp: mux_step_def pushed_by_def tasks_keep)
next
  case (EvDirect sid src data)
  then show ?thesis
    using down_keep [OF assms(2) direct_task_resp [of sid src data st]] by (auto simp: mux_step_def pushed_by_def tasks_keep)
qed

lemma down_run:
  assumes "me_io env = io" and "down_inv env vision rs st"
    and "\<forall>(sid, src, data) \<in> set (rs @ mux_pushed env st evs). length data \<le> 65340"
    and "case vision of None \<Rightarrow> True | Some uuid \<Rightarrow> length uuid = 16"
    and "case limit of None \<Rightarrow> True | Some n \<Rightarrow> 65536 \<le> n"
  shows "down_inv env vision (rs @ mux_pushed env st evs) (foldl (\<lambda>st ev. mux_step env ev st) st evs)"
  using assms(2,3)
proof (induction evs arbitrary: st rs)
  case (Cons ev evs)
  have small: "\<forall>(sid, src, data) \<in> set rs. length data \<le> 65340"
    using Cons.prems(2) by simp
  show ?case
    using Cons.IH [OF down_step [OF assms(1) Cons.prems(1) small assms(4,5), of ev]] Cons.prems(2) by simp
qed simp

end

section \<open>Routing\<close>

text \<open>Why each datagram left the way it did, in terms of the frames that were handled.\<close>

definition egress_just :: "'t MuxEnv \<Rightarrow> Frame list \<Rightarrow> (u16 \<times> Egress) list \<Rightarrow> u16 \<times> Egress \<Rightarrow> bool" where
  "egress_just env fs log x \<longleftrightarrow>
    (case x of
       (sid, Local a d) \<Rightarrow>
         \<exists>f \<in> set fs. \<exists>t n. fr_sid f = sid \<and> fr_target f = Some t \<and> fr_data f = Some d \<and>
           mux_resolve (mn_lookup (me_net env n)) t = Inr a \<and>
           outbounds_get (me_outbounds env) (route (me_router env) (endpoint_of t)) = None
     | (sid, Dialled c ep) \<Rightarrow>
         outbounds_get (me_outbounds env) (route (me_router env) ep) = Some c \<and>
         (\<exists>f \<in> set fs. \<exists>t. fr_sid f = sid \<and> fr_target f = Some t \<and> endpoint_of t = ep)
     | (sid, Chained a d) \<Rightarrow>
         (\<exists>f \<in> set fs. fr_sid f = sid \<and> fr_data f = Some d) \<and>
         (\<exists>t c n. (sid, Dialled c (endpoint_of t)) \<in> set log \<and> mux_resolve (mn_lookup (me_net env n)) t = Inr a))"

definition view_just :: "'t MuxEnv \<Rightarrow> (u16 \<times> Egress) list \<Rightarrow> u16 \<Rightarrow> view \<Rightarrow> bool" where
  "view_just env log sid v \<longleftrightarrow>
    (\<forall>a \<in> set (snd v). \<exists>t c n. (sid, Dialled c (endpoint_of t)) \<in> set log \<and> mux_resolve (mn_lookup (me_net env n)) t = Inr a)"

lemma just_mono:
  "egress_just env fs log x \<Longrightarrow> egress_just env (fs @ gs) (log @ more_log) x"
  by (fastforce simp: egress_just_def split: prod.splits Egress.splits)

lemma view_just_mono: "view_just env log sid v \<Longrightarrow> view_just env (log @ more_log) sid v"
  by (fastforce simp: view_just_def)

lemma view_just_cong: "snd v' = snd v \<Longrightarrow> view_just env log sid v' = view_just env log sid v"
  by (simp add: view_just_def)

lemma view_just_Nil [simp]: "view_just env log sid (b, [])"
  by (simp add: view_just_def)

lemma plan_datagram_cases:
  assumes "plan_datagram nw router ob target d v = (v', out)"
  obtains (quiet) "snd v' = snd v" "out = []"
  | (reuse) a where "v' = v" "out = [Chained a d]" "a \<in> set (snd v)"
  | (here) t a where "target = Some t" "mux_resolve (mn_lookup nw) t = Inr a" "snd v' = snd v" "out = [Local a d]"
      "outbounds_get ob (route router (endpoint_of t)) = None"
  | (failed) t c where "target = Some t" "v' = v" "out = [Dialled c (endpoint_of t)]"
      "outbounds_get ob (route router (endpoint_of t)) = Some c"
  | (dialled) t c a where "target = Some t" "mux_resolve (mn_lookup nw) t = Inr a" "snd v' = snd v @ [a]"
      "out = [Dialled c (endpoint_of t), Chained a d]" "outbounds_get ob (route router (endpoint_of t)) = Some c"
proof (cases target)
  case None
  then have "v' = v" "out = [] \<or> (\<exists>a. snd v = [a] \<and> out = [Chained a d])"
    using assms by (auto simp: plan_datagram_def split: list.splits)
  then show thesis
    using quiet reuse by auto
next
  case (Some t)
  note t = this
  show thesis
  proof (cases "mux_resolve (mn_lookup nw) t")
    case (Inl e)
    then show thesis
      using assms t quiet by (simp add: plan_datagram_def)
  next
    case (Inr a)
    show thesis
    proof (cases "outbounds_get ob (route router (endpoint_of t))")
      case None
      then show thesis
        using assms t Inr quiet here [OF t Inr] by (auto simp: plan_datagram_def split: if_splits)
    next
      case (Some c)
      then show thesis
        using assms t Inr reuse [of a] failed [OF t, of c] dialled [OF t Inr, of c]
        by (auto simp: plan_datagram_def split: if_splits)
    qed
  qed
qed

lemma plan_datagram_just:
  fixes env :: "'t MuxEnv" and fs :: "Frame list"
  assumes "view_just env log (fr_sid f) v" and "fr_data f = Some d"
    and "plan_datagram (me_net env n) (me_router env) (me_outbounds env) (fr_target f) d v = (v', out)"
  defines "new_log \<equiv> log @ map (Pair (fr_sid f)) out"
  shows "view_just env new_log (fr_sid f) v' \<and> (\<forall>x \<in> set out. egress_just env (fs @ [f]) new_log (fr_sid f, x))"
proof -
  have v: "view_just env new_log (fr_sid f) v"
    unfolding new_log_def by (rule view_just_mono [OF assms(1)])
  from assms(3) show ?thesis
  proof (cases rule: plan_datagram_cases)
    case quiet
    then show ?thesis
      using v view_just_cong [of v' v env new_log "fr_sid f"] by simp
  next
    case (reuse a)
    then show ?thesis
      using v assms(2) by (auto simp: egress_just_def view_just_def)
  next
    case (here t a)
    then show ?thesis
      using v view_just_cong [of v' v env new_log "fr_sid f"] assms(2) by (auto simp: egress_just_def)
  next
    case (failed t c)
    then show ?thesis
      using v by (auto simp: egress_just_def)
  next
    case (dialled t c a)
    have "\<exists>t' c' m. (fr_sid f, Dialled c' (endpoint_of t')) \<in> set new_log \<and> mux_resolve (mn_lookup (me_net env m)) t' = Inr a"
      using dialled(2,4) by (intro exI [of _ t] exI [of _ c] exI [of _ n]) (simp add: new_log_def)
    then show ?thesis
      using v dialled assms(2) unfolding view_just_def egress_just_def by auto
  qed
qed

definition plan_just :: "'t MuxEnv \<Rightarrow> Frame list \<Rightarrow> MuxPlan \<Rightarrow> bool" where
  "plan_just env fs p \<longleftrightarrow>
    (\<forall>x \<in> set (mp_log p). egress_just env fs (mp_log p) x) \<and>
    (\<forall>sid v. mp_sessions p sid = Some v \<longrightarrow> view_just env (mp_log p) sid v)"

lemma plan_frame_just:
  assumes "plan_just env fs p"
  shows "plan_just env (fs @ [f]) (plan_frame env p f)"
proof (cases "(fr_status f = STATUS_NEW \<or> fr_status f = STATUS_KEEP) \<and> fr_data f \<noteq> None")
  case True
  then obtain d where d: "fr_data f = Some d"
    by auto
  define v where "v = (case mp_sessions p (fr_sid f) of Some v \<Rightarrow> v | None \<Rightarrow> (False, []))"
  have v: "view_just env (mp_log p) (fr_sid f) v"
    using assms by (auto simp: v_def plan_just_def split: option.splits)
  obtain v' out where o: "plan_datagram (me_net env (mp_clock p)) (me_router env) (me_outbounds env) (fr_target f) d v = (v', out)"
    by fastforce
  note j = plan_datagram_just [OF v d o, of fs]
  have "plan_frame env p f = \<lparr>mp_clock = Suc (mp_clock p), mp_sessions = (mp_sessions p)(fr_sid f \<mapsto> v'),
      mp_log = mp_log p @ map (Pair (fr_sid f)) out\<rparr>"
    using True d o by (simp add: plan_frame_def v_def [symmetric])
  then show ?thesis
    using j assms just_mono [of env fs "mp_log p" _ "[f]" "map (Pair (fr_sid f)) out"]
      view_just_mono [of env "mp_log p" _ _ "map (Pair (fr_sid f)) out"]
    by (auto simp: plan_just_def)
next
  case False
  then have log: "mp_log (plan_frame env p f) = mp_log p"
    by (auto simp: plan_frame_def Let_def)
  have "mp_sessions (plan_frame env p f) sid = Some v \<Longrightarrow> view_just env (mp_log p) sid v" for sid v
    using assms False
    by (cases v) (auto simp: plan_frame_def plan_just_def Let_def split: if_splits option.splits)
  then show ?thesis
    using assms just_mono [of env fs "mp_log p" _ "[f]" "[]"] by (simp add: plan_just_def log)
qed

lemma mux_plan_just: "plan_just env fs (mux_plan env fs)"
proof (induction fs rule: rev_induct)
  case Nil
  then show ?case
    by (simp add: mux_plan_def plan_just_def)
next
  case (snoc f fs)
  then show ?case
    using plan_frame_just by (simp add: mux_plan_snoc)
qed

text \<open>The plan is followed even when the tunnel breaks.\<close>

definition plan_inv :: "'t MuxEnv \<Rightarrow> 't MuxState \<Rightarrow> bool" where
  "plan_inv env st \<longleftrightarrow>
    (\<exists>fs. mx_egress st = mp_log (mux_plan env fs) \<and> (running st \<longrightarrow> sessions_ok st \<and> mux_abs st = mux_plan env fs))"

lemma plan_inv_keep:
  assumes "plan_inv env st" and "mux_abs st' = mux_abs st" and "sessions_ok st \<Longrightarrow> sessions_ok st'"
    and "running st' \<Longrightarrow> running st"
  shows "plan_inv env st'"
  using assms by (auto simp: plan_inv_def mux_abs_def)

lemma plan_inv_ended: "\<lbrakk>plan_inv env st; mx_egress st' = mx_egress st; \<not> running st'\<rbrakk> \<Longrightarrow> plan_inv env st'"
  by (auto simp: plan_inv_def)

lemma plan_inv_drain:
  assumes "plan_inv env st" and ph: "mx_phase st = Draining"
  shows "plan_inv env (mux_drain env st)"
proof (cases "\<exists>f rest. parse_frame (mx_inbuf st) = Inr (Some (f, rest))")
  case True
  then obtain f rest where f: "parse_frame (mx_inbuf st) = Inr (Some (f, rest))"
    by blast
  obtain fs where fs: "sessions_ok st \<and> mux_abs st = mux_plan env fs"
    using assms unfolding plan_inv_def running_def by blast
  let ?st = "st\<lparr>mx_inbuf := rest\<rparr>"
  have "sessions_ok ?st" "mx_phase ?st = Draining" and abs: "mux_abs ?st = mux_plan env fs"
    using fs ph by (simp_all add: sessions_ok_def mux_abs_def)
  note m = mux_frame_in_plan [OF this(1,2), of env f]
  have "running (mux_frame_in env f ?st) \<Longrightarrow> mx_phase (mux_frame_in env f ?st) = Draining"
    using m(4) by (auto simp: running_def)
  then show ?thesis
    unfolding plan_inv_def using m(1-3) abs f
    by (intro exI [of _ "fs @ [f]"]) (simp add: mux_drain_def mux_plan_snoc)
next
  case False
  then have "(\<exists>e. parse_frame (mx_inbuf st) = Inl e) \<or> parse_frame (mx_inbuf st) = Inr None"
    by (metis not_None_eq surj_pair sum.exhaust)
  then show ?thesis
    using plan_inv_ended [OF assms(1), of "mux_drain env st"] plan_inv_keep [OF assms(1), of "mux_drain env st"] ph
    by (auto simp: mux_drain_def mux_fail_def running_def mux_abs_def sessions_ok_def)
qed

lemma plan_inv_tunnel:
  assumes "plan_inv env st" and ph: "mx_phase st = Waiting"
  shows "plan_inv env (mux_tunnel env st)"
proof (cases "running (mux_tunnel env st)")
  case True
  then show ?thesis
    by (intro plan_inv_keep [OF assms(1)]) (use ph in \<open>auto simp: mux_tunnel_def mux_fail_def mux_close_def running_def
        mux_abs_def sessions_ok_def split: prod.splits sum.splits option.splits\<close>)
next
  case False
  then show ?thesis
    by (rule plan_inv_ended [OF assms(1), rotated])
       (auto simp: mux_tunnel_def mux_fail_def mux_close_def split: prod.splits sum.splits option.splits)
qed

lemma plan_inv_respond:
  assumes "plan_inv env st" and ph: "mx_phase st = Waiting"
  shows "plan_inv env (mux_respond env st)"
proof (cases "running (mux_respond env st)")
  case True
  then show ?thesis
    by (intro plan_inv_keep [OF assms(1)]) (use ph in \<open>auto simp: mux_respond_def mux_fail_def running_def mux_abs_def
        sessions_ok_def Let_def split: prod.splits sum.splits list.splits\<close>)
next
  case False
  then show ?thesis
    by (rule plan_inv_ended [OF assms(1), rotated])
       (auto simp: mux_respond_def mux_fail_def Let_def split: prod.splits sum.splits list.splits)
qed

lemma plan_inv_step:
  assumes "plan_inv env st"
  shows "plan_inv env (mux_step env ev st)"
proof -
  have "plan_inv env (mux_close env st)"
    by (rule plan_inv_ended [OF assms]) (simp_all add: mux_close_def running_def)
  moreover have "plan_inv env (chain_task sid label st)" "plan_inv env (direct_task sid src data st)" for sid label src data
    by (rule plan_inv_keep [OF assms]; simp add: tasks_keep running_def)+
  ultimately show ?thesis
    using assms plan_inv_drain [OF assms] plan_inv_tunnel [OF assms] plan_inv_respond [OF assms] by (cases ev) (simp_all add: mux_step_def)
qed

lemma plan_inv_run: "plan_inv env (mux_relay env tunnel leftover metrics vision evs)"
proof -
  have "plan_inv env (mux_start tunnel leftover metrics vision)"
    by (auto simp: plan_inv_def mux_start_def sessions_ok_def mux_abs_def mux_plan_def Let_def
        intro: exI [of _ "[]"] split: prod.splits)
  then have "plan_inv env (foldl (\<lambda>st ev. mux_step env ev st) (mux_start tunnel leftover metrics vision) evs)"
    by (induction evs rule: rev_induct) (simp_all add: plan_inv_step)
  then show ?thesis
    by (simp add: mux_relay_def)
qed

text \<open>Without cascade links, all that is handed over arrived on the local sockets.\<close>

lemma pushed_direct:
  assumes "\<forall>ev \<in> set evs. \<forall>sid label. ev \<noteq> EvChain sid label"
    and "(sid, src, data) \<in> set (mux_pushed env st evs)"
  shows "\<exists>d. EvDirect sid src d \<in> set evs \<and> data = take 65535 d"
  using assms
proof (induction evs arbitrary: st)
  case (Cons ev evs)
  then show ?case
    by (cases ev) (auto simp: pushed_by_def mux_step_def direct_task_def split: option.splits if_splits)
qed simp

section \<open>Properties\<close>

text \<open>
  C30.  The uplink implements the routing plan, whatever the schedule.  Let \<open>plain\<close> be what the
  tunnel's bytes unpad to as a whole.  However the tunnel cuts them and however the receive
  tasks and responses interleave, the datagrams the relay has handed to local sockets and
  cascade links are, in order, those the plan prescribes for a prefix of the frames of
  \<open>plain\<close>; when the tunnel is at its end, for all of them.
\<close>

theorem mux_uplink_refines:
  assumes "mux_io (me_io env) ok limit" and "ok input out tunnel"
    and "plain = snd (devision (map_option unpadder_new vision) (leftover @ input))"
    and "st = mux_relay env tunnel leftover metrics vision evs"
  shows "\<exists>sent. prefix sent (fst (frames plain)) \<and> mx_egress st = mp_log (mux_plan env sent) \<and>
    (mx_phase st = Waiting \<and> fst (mi_read (me_io env) (mx_tunnel st)) = Inr None \<longrightarrow> sent = fst (frames plain))"
proof -
  have inv: "mux_io.mux_inv ok env vision plain st"
    unfolding assms(4) mux_relay_def
    by (intro mux_io.mux_run_inv [OF assms(1) refl] mux_io.mux_start_inv [OF assms(1,2,3)])
  show ?thesis
  proof (cases "mx_phase st = Waiting \<and> fst (mi_read (me_io env) (mx_tunnel st)) = Inr None")
    case True
    then have "mx_egress st = mp_log (mux_plan env (fst (frames plain)))"
      using mux_io.mux_inv_eof [OF assms(1) inv, of "snd (mi_read (me_io env) (mx_tunnel st))"]
      by (cases "mi_read (me_io env) (mx_tunnel st)") simp
    then show ?thesis
      by (intro exI [of _ "fst (frames plain)"]) simp
  next
    case False
    then show ?thesis
      using inv by (auto simp: mux_io.mux_inv_def [OF assms(1)])
  qed
qed

definition sample_mux_net :: MuxNet where
  "sample_mux_net =
    \<lparr>mn_lookup = (\<lambda>_ p. Inr [\<lparr>sa_ip = V4 9, sa_port = p\<rparr>]), mn_bind = (\<lambda>_. True),
     mn_chain = \<lparr>cn_crypto = sample_crypto, cn_lookup = (\<lambda>_. Inr []), cn_tls = (\<lambda>_ _. Inl ConnectionRefused),
       cn_carrier = (\<lambda>_ s. Inr s)\<rparr>\<rparr>"

definition sample_mux_env :: "Socket MuxEnv" where
  "sample_mux_env =
    \<lparr>me_io = carrier_mux_io, me_net = (\<lambda>_. sample_mux_net), me_router = \<lparr>rules = [], default_outbound = []\<rparr>,
     me_outbounds = outbounds_default, me_draws = (\<lambda>_. 0)\<rparr>"

definition sample_frame :: Frame where
  "sample_frame = \<lparr>fr_sid = 7, fr_status = STATUS_NEW, fr_target = Some (MuxIp \<lparr>sa_ip = V4 8, sa_port = 53\<rparr>), fr_data = Some [1]\<rparr>"

lemma sample_frames: "frames (mux_frame sample_frame []) = ([sample_frame], Inr [])"
  using frames_mux [of "[(sample_frame, [])]"] by (simp add: sample_frame_def frame_ok_def STATUS_NEW_def STATUS_KEEP_def)

theorem mux_uplink_refines_witness:
  "\<exists>sent. prefix sent [sample_frame] \<and>
    mx_egress (mux_relay sample_mux_env
        \<lparr>rx = [drop 5 (mux_frame sample_frame [])], rx_end = None, tx = [], tx_room = None, sk_shut = False\<rparr>
        (take 5 (mux_frame sample_frame [])) metrics_new None [EvFrame, EvTunnel, EvFrame, EvFrame]) =
      mp_log (mux_plan sample_mux_env sent)"
  using mux_uplink_refines [of sample_mux_env carrier_ok None "drop 5 (mux_frame sample_frame [])" "[]"
      "\<lparr>rx = [drop 5 (mux_frame sample_frame [])], rx_end = None, tx = [], tx_room = None, sk_shut = False\<rparr>"
      "mux_frame sample_frame []" None "take 5 (mux_frame sample_frame [])" _ metrics_new "[EvFrame, EvTunnel, EvFrame, EvFrame]"]
    carrier_io.mux_io_axioms sample_frames
  by (auto simp: sample_mux_env_def carrier_ok_def)

text \<open>
  C31.  The downlink is exact.  The responses the receive tasks handed over are, in their order,
  those the client has been sent followed by those that still wait in the channel; and the
  client's own unpadder and frame parser, run over everything the tunnel carried down, yield
  exactly the former, each labelled with its sub-session and source, whatever the schedule
  and with or without Vision.
\<close>

theorem mux_downlink_exact:
  assumes "mux_io (me_io env) ok limit" and "ok input [] tunnel"
    and "case limit of None \<Rightarrow> True | Some n \<Rightarrow> 65536 \<le> n"
    and "case vision of None \<Rightarrow> True | Some uuid \<Rightarrow> length uuid = 16"
    and "\<forall>(sid, src, data) \<in> set (mux_pushed env (mux_start tunnel leftover metrics vision) evs). length data \<le> 65340"
    and "st = mux_relay env tunnel leftover metrics vision evs"
  shows "\<exists>got inp out. mux_pushed env (mux_start tunnel leftover metrics vision) evs = got @ mx_resp st \<and>
    ok inp out (mx_tunnel st) \<and>
    frames (snd (devision (map_option unpadder_new vision) out)) = (map keep_of got, Inr [])"
proof -
  let ?st = "mux_start tunnel leftover metrics vision" and ?rs = "mux_pushed env (mux_start tunnel leftover metrics vision) evs"
  have "mux_io.down_inv ok env vision [] ?st"
    unfolding mux_io.down_inv_def [OF assms(1)] using assms(2)
    by (intro exI [of _ "[]"] exI [of _ input]) (simp add: mux_start_def keep_wire_def Let_def split: prod.splits)
  from mux_io.down_run [OF assms(1) refl this _ assms(4,3), of evs]
  have "mux_io.down_inv ok env vision ?rs st"
    using assms(5,6) by (simp add: mux_relay_def)
  then obtain got inp where g: "?rs = got @ mx_resp st" "ok inp (keep_wire vision (me_draws env) got) (mx_tunnel st)"
    unfolding mux_io.down_inv_def [OF assms(1)] by blast
  have "\<forall>x \<in> set got. length (snd (snd x)) \<le> 65340"
    using assms(5) unfolding g(1) by (simp add: case_prod_unfold)
  then have "\<forall>(sid, src, data) \<in> set got. length data < 65536"
    by fastforce
  from keep_wire_read [OF this assms(4)] g show ?thesis
    by blast
qed

theorem mux_downlink_exact_witness:
  "\<exists>got inp out. mux_pushed sample_mux_env (mux_start
        \<lparr>rx = [], rx_end = None, tx = [], tx_room = None, sk_shut = False\<rparr> (mux_frame sample_frame []) metrics_new (Some (replicate 16 3)))
        [EvFrame, EvDirect 7 \<lparr>sa_ip = V4 8, sa_port = 53\<rparr> [4], EvFrame, EvResp] =
      got @ mx_resp (mux_relay sample_mux_env
        \<lparr>rx = [], rx_end = None, tx = [], tx_room = None, sk_shut = False\<rparr> (mux_frame sample_frame []) metrics_new (Some (replicate 16 3))
        [EvFrame, EvDirect 7 \<lparr>sa_ip = V4 8, sa_port = 53\<rparr> [4], EvFrame, EvResp]) \<and>
    carrier_ok inp out (mx_tunnel (mux_relay sample_mux_env
        \<lparr>rx = [], rx_end = None, tx = [], tx_room = None, sk_shut = False\<rparr> (mux_frame sample_frame []) metrics_new (Some (replicate 16 3))
        [EvFrame, EvDirect 7 \<lparr>sa_ip = V4 8, sa_port = 53\<rparr> [4], EvFrame, EvResp])) \<and>
    frames (snd (devision (Some (unpadder_new (replicate 16 3))) out)) = (map keep_of got, Inr [])"
proof -
  let ?evs = "[EvFrame, EvDirect 7 \<lparr>sa_ip = V4 8, sa_port = 53\<rparr> [4], EvFrame, EvResp]"
  let ?t = "\<lparr>rx = [], rx_end = None, tx = [], tx_room = None, sk_shut = False\<rparr>"
  have "\<forall>(sid, src, data) \<in> set (mux_pushed sample_mux_env (mux_start ?t (mux_frame sample_frame []) metrics_new (Some (replicate 16 3))) ?evs).
      length data \<le> 65340"
  proof clarify
    fix sid src data
    assume m: "(sid, src, data) \<in> set (mux_pushed sample_mux_env
      (mux_start ?t (mux_frame sample_frame []) metrics_new (Some (replicate 16 3))) ?evs)"
    from pushed_direct [OF _ m] show "length data \<le> 65340"
      by auto
  qed
  then show ?thesis
    using mux_downlink_exact [of sample_mux_env carrier_ok None "[]" ?t "Some (replicate 16 3)" "mux_frame sample_frame []" metrics_new ?evs]
      carrier_io.mux_io_axioms
    by (simp add: sample_mux_env_def carrier_ok_def)
qed


text \<open>
  C33.  Cascade links are keyed by the address a target resolves to, not by the target.  When
  two names resolve to one address and the router sends them to different exits, the second
  name's datagram is written to the link that was dialled for the first: its own exit is
  never dialled, and the exit that receives it was asked for the other name.
\<close>

theorem mux_shared_address_misroutes:
  assumes "mx_sessions st sid = None" and "mx_phase st = Draining"
    and "outbounds_get (me_outbounds env) (route (me_router env) \<lparr>address = Domain h1, port = p\<rparr>) = Some c1"
    and "outbounds_get (me_outbounds env) (route (me_router env) \<lparr>address = Domain h2, port = p\<rparr>) = Some c2"
    and "\<forall>n. mn_lookup (me_net env n) h1 p = Inr [a] \<and> mn_lookup (me_net env n) h2 p = Inr [a]"
    and "chain_dial_udp (mn_chain (me_net env (mx_clock st))) c1 \<lparr>address = Domain h1, port = p\<rparr> = Inr link"
  shows "mx_egress (mux_frame_in env
      \<lparr>fr_sid = sid, fr_status = STATUS_KEEP, fr_target = Some (MuxDomain h2 p), fr_data = Some d2\<rparr>
      (mux_frame_in env \<lparr>fr_sid = sid, fr_status = STATUS_NEW, fr_target = Some (MuxDomain h1 p), fr_data = Some d1\<rparr> st)) =
    mx_egress st @ [(sid, Dialled c1 \<lparr>address = Domain h1, port = p\<rparr>), (sid, Chained a d1), (sid, Chained a d2)]"
  using assms by (simp add: mux_frame_in_def mux_data_def send_datagram_def send_chained_def mux_resolve_def
      dial_chain_def chain_write_def udp_session_default_def Let_def)

definition sample_cascade :: ChainNet where
  "sample_cascade =
    \<lparr>cn_crypto = sample_crypto, cn_lookup = (\<lambda>_. Inr [\<lparr>sa_ip = V4 1, sa_port = 443\<rparr>]),
     cn_tls = (\<lambda>_ _. Inr (Some (replicate 32 1),
       \<lparr>rx = [server_proof sample_crypto (replicate 32 1)], rx_end = None, tx = [], tx_room = None\<rparr>)),
     cn_carrier = (\<lambda>_ _. Inr \<lparr>rx = [[0, 0]], rx_end = None, tx = [], tx_room = None\<rparr>)\<rparr>"

lemma sample_cascade_dials: "\<exists>p. chain_dial_udp sample_cascade c ep = Inr p"
proof -
  obtain d where d: "co_dialer c = DialVeil d"
    by (cases "co_dialer c")
  let ?proof = "server_proof sample_crypto (replicate 32 1)"
  let ?tls = "\<lparr>rx = [?proof], rx_end = None, tx = [], tx_room = None\<rparr>"
  have "length ?proof = PROOF_LEN"
    using sample_crypto_ok by (simp add: crypto_ok_def server_proof_def PROOF_LEN_def)
  then obtain t where "read_exact PROOF_LEN ?tls = (Inr ?proof, t)"
    using read_exact_enough [of PROOF_LEN ?tls] by auto
  then have "vd_connect sample_cascade d \<lparr>sa_ip = V4 1, sa_port = 443\<rparr> = Inr t"
    by (simp add: vd_connect_def sample_cascade_def check_server_proof_def abind_def)
  then show ?thesis
    using dial_command_ok [OF _ d, of sample_cascade _ "[]" t _ response_default "[]" ep Udp]
    by (fastforce simp: sample_cascade_def chain_dial_udp_def response_default_def response_encode_def addons_ok_def
        addons_default_def addons_encoded_len_def addons_encode_def VERSION_def)
qed

definition sample_exit :: "rstr \<Rightarrow> ChainOutbound" where
  "sample_exit tag = \<lparr>co_tag = tag, co_server = tag, co_uuid = 5,
    co_dialer = DialVeil \<lparr>vd_veil = veil_client_config_new [] 0 [], vd_server_name = []\<rparr>\<rparr>"

definition sample_two_exits :: "Socket MuxEnv" where
  "sample_two_exits =
    \<lparr>me_io = carrier_mux_io, me_net = (\<lambda>_. sample_mux_net\<lparr>mn_chain := sample_cascade\<rparr>),
     me_router = \<lparr>rules = [rule_domain (rule_to (str ''b'')) (Full (str ''two''))], default_outbound = str ''a''\<rparr>,
     me_outbounds = \<lparr>ob_map = (\<lambda>tag. Some (sample_exit tag)), ob_fragment = None\<rparr>, me_draws = (\<lambda>_. 0)\<rparr>"

theorem mux_shared_address_misroutes_witness:
  "mx_egress (mux_frame_in sample_two_exits
      \<lparr>fr_sid = 1, fr_status = STATUS_KEEP, fr_target = Some (MuxDomain (str ''two'') 53), fr_data = Some [2]\<rparr>
      (mux_frame_in sample_two_exits
        \<lparr>fr_sid = 1, fr_status = STATUS_NEW, fr_target = Some (MuxDomain (str ''one'') 53), fr_data = Some [1]\<rparr>
        (mux_start \<lparr>rx = [], rx_end = None, tx = [], tx_room = None, sk_shut = False\<rparr> [] metrics_new None))) =
    [(1, Dialled (sample_exit (str ''a'')) \<lparr>address = Domain (str ''one''), port = 53\<rparr>),
     (1, Chained \<lparr>sa_ip = V4 9, sa_port = 53\<rparr> [1]), (1, Chained \<lparr>sa_ip = V4 9, sa_port = 53\<rparr> [2])]"
proof -
  let ?st = "mux_start \<lparr>rx = [], rx_end = None, tx = [], tx_room = None, sk_shut = False\<rparr> [] metrics_new None"
  have r: "outbounds_get (me_outbounds sample_two_exits) (route (me_router sample_two_exits) \<lparr>address = Domain (str ''one''), port = 53\<rparr>) =
        Some (sample_exit (str ''a''))"
      "outbounds_get (me_outbounds sample_two_exits) (route (me_router sample_two_exits) \<lparr>address = Domain (str ''two''), port = 53\<rparr>) =
        Some (sample_exit (str ''b''))"
    by (simp_all add: sample_two_exits_def outbounds_get_def route_def rule_matches_def rule_domain_def rule_to_def
        condition_matches_def domain_match_def) code_simp+
  obtain link where "chain_dial_udp (mn_chain (me_net sample_two_exits (mx_clock ?st))) (sample_exit (str ''a''))
      \<lparr>address = Domain (str ''one''), port = 53\<rparr> = Inr link"
    using sample_cascade_dials by (auto simp: sample_two_exits_def)
  from mux_shared_address_misroutes [OF _ _ r _ this, of 1 "\<lparr>sa_ip = V4 9, sa_port = 53\<rparr>" "[2]" "[1]"]
  show ?thesis
    by (simp add: mux_start_def sample_two_exits_def sample_mux_net_def)
qed

end
