(* ===== verification/Idle_Timeout.thy ===== *)
theory Idle_Timeout
  imports Fragmentation
begin

text \<open>
  The idle timer around a relayed stream (\<^verbatim>\<open>donut-io/src/idle.rs\<close>).  Time is a natural number;
  what the inner stream answers to a poll is an argument.  A relay's life is a list of
  timed polls; \<open>last_activity\<close> says when the last byte moved.
\<close>

record IdleTimeout =
  it_idle :: nat
  it_deadline :: nat

definition it_new :: "nat \<Rightarrow> nat \<Rightarrow> IdleTimeout" where
  "it_new now idle = \<lparr>it_idle = idle, it_deadline = now + idle\<rparr>"

definition it_enabled :: "IdleTimeout \<Rightarrow> bool" where
  "it_enabled s \<longleftrightarrow> it_idle s \<noteq> 0"

definition it_touch :: "nat \<Rightarrow> IdleTimeout \<Rightarrow> IdleTimeout" where
  "it_touch now s = (if it_enabled s then s\<lparr>it_deadline := now + it_idle s\<rparr> else s)"

definition poll_idle :: "nat \<Rightarrow> IdleTimeout \<Rightarrow> (ErrorKind + 'a) Poll" where
  "poll_idle now s =
    (if \<not> it_enabled s then Pending
     else if it_deadline s \<le> now then Ready (Inl TimedOut)
     else Pending)"

definition it_poll_read ::
    "nat \<Rightarrow> (ErrorKind + bytes) Poll \<Rightarrow> IdleTimeout \<Rightarrow> (ErrorKind + bytes) Poll \<times> IdleTimeout" where
  "it_poll_read now inner s =
    (case inner of
       Ready res \<Rightarrow> (Ready res, case res of Inr (_ # _) \<Rightarrow> it_touch now s | _ \<Rightarrow> s)
     | Pending \<Rightarrow> (poll_idle now s, s))"

definition it_poll_write ::
    "nat \<Rightarrow> (ErrorKind + nat) Poll \<Rightarrow> IdleTimeout \<Rightarrow> (ErrorKind + nat) Poll \<times> IdleTimeout" where
  "it_poll_write now inner s =
    (case inner of
       Ready (Inr n) \<Rightarrow> (Ready (Inr n), if n > 0 then it_touch now s else s)
     | Ready (Inl e) \<Rightarrow> (Ready (Inl e), s)
     | Pending \<Rightarrow> (poll_idle now s, s))"

text \<open>Flushing and shutting down are forwarded as they are.\<close>

definition it_poll_flush :: "(ErrorKind + unit) Poll \<Rightarrow> IdleTimeout \<Rightarrow> (ErrorKind + unit) Poll \<times> IdleTimeout" where
  "it_poll_flush inner s = (inner, s)"

section \<open>A relay's life\<close>

datatype IdleOp = IoRead "(ErrorKind + bytes) Poll" | IoWrite "(ErrorKind + nat) Poll" | IoFlush "(ErrorKind + unit) Poll"

text \<open>Whether the poll failed for silence, and the state after it.\<close>

fun it_poll :: "nat \<times> IdleOp \<Rightarrow> IdleTimeout \<Rightarrow> bool \<times> IdleTimeout" where
  "it_poll (now, IoRead inner) s = (case it_poll_read now inner s of (r, s) \<Rightarrow> (inner = Pending \<and> r = Ready (Inl TimedOut), s))"
| "it_poll (now, IoWrite inner) s = (case it_poll_write now inner s of (r, s) \<Rightarrow> (inner = Pending \<and> r = Ready (Inl TimedOut), s))"
| "it_poll (now, IoFlush inner) s = (case it_poll_flush inner s of (r, s) \<Rightarrow> (inner = Pending \<and> r = Ready (Inl TimedOut), s))"

definition it_run :: "(nat \<times> IdleOp) list \<Rightarrow> IdleTimeout \<Rightarrow> IdleTimeout" where
  "it_run polls s = foldl (\<lambda>s p. snd (it_poll p s)) s polls"

fun moves_bytes :: "IdleOp \<Rightarrow> bool" where
  "moves_bytes (IoRead (Ready (Inr (_ # _)))) = True"
| "moves_bytes (IoWrite (Ready (Inr n))) = (n > 0)"
| "moves_bytes _ = False"

definition last_activity :: "nat \<Rightarrow> (nat \<times> IdleOp) list \<Rightarrow> nat" where
  "last_activity start polls = last (start # map fst (filter (moves_bytes \<circ> snd) polls))"

fun is_waiting :: "IdleOp \<Rightarrow> bool" where
  "is_waiting (IoRead Pending) = True"
| "is_waiting (IoWrite Pending) = True"
| "is_waiting _ = False"

lemma last_activity_snoc:
  "last_activity start (polls @ [(now, x)]) = (if moves_bytes x then now else last_activity start polls)"
  by (simp add: last_activity_def)

lemma it_poll_state:
  "snd (it_poll (now, x) s) = (if moves_bytes x then it_touch now s else s)"
  by (cases x rule: moves_bytes.cases) (auto simp: it_poll_read_def it_poll_write_def it_poll_flush_def)

lemma it_run_state:
  "it_idle (it_run polls (it_new start idle)) = idle \<and>
   (idle \<noteq> 0 \<longrightarrow> it_deadline (it_run polls (it_new start idle)) = last_activity start polls + idle)"
proof (induction polls rule: rev_induct)
  case Nil
  then show ?case
    by (simp add: it_run_def it_new_def last_activity_def)
next
  case (snoc p polls)
  then show ?case
    by (cases p) (auto simp: it_run_def it_poll_state last_activity_snoc it_touch_def it_enabled_def)
qed

section \<open>Properties\<close>

text \<open>
  C40.  The timer fires on silence and on nothing else.  After any history of reads, writes
  and flushes, a poll at time \<open>now\<close> fails with \<open>TimedOut\<close> exactly when reaping is enabled, the
  inner stream has nothing to say, and no byte has moved in either direction for the whole
  idle period; in particular a relay that keeps moving bytes is never cut, and with a
  period of zero no relay is.
\<close>

theorem idle_fires_iff_silent:
  "fst (it_poll (now, x) (it_run polls (it_new start idle))) \<longleftrightarrow>
    idle \<noteq> 0 \<and> is_waiting x \<and> last_activity start polls + idle \<le> now"
  using it_run_state [of polls start idle]
  by (cases x rule: is_waiting.cases)
     (auto simp: it_poll_read_def it_poll_write_def it_poll_flush_def poll_idle_def it_enabled_def case_prod_unfold)

end
