(* ===== verification/Framed_Copy.thy ===== *)
theory Framed_Copy
  imports Record_Tls
begin

text \<open>
  The padded copy between two donut ends (\<^verbatim>\<open>donut-io/src/vision.rs\<close>): the first chunks of each
  direction travel in frames with random padding, the rest raw.  \<^verbatim>\<open>tokio::io::copy\<close> is the argument
  \<open>cp\<close>; \<open>io_copy_ok\<close> says that it moves everything up to the end of its source.  The random draw of
  the \<open>k\<close>-th frame is \<open>draws k\<close>.
\<close>

declare concat_eq_Nil_conv [simp del] Nil_eq_concat_conv [simp del]

section \<open>Frames\<close>

definition KIND_MORE :: u8 where "KIND_MORE = 0"
definition KIND_END :: u8 where "KIND_END = 1"
definition MAX_DATA :: nat where "MAX_DATA = 16 * 1024"

record VisionConfig =
  vc_pad_frames :: nat
  vc_max_pad :: nat

definition vision_config_default :: VisionConfig where
  "vision_config_default = \<lparr>vc_pad_frames = 4, vc_max_pad = 900\<rparr>"

definition pad_len :: "VisionConfig \<Rightarrow> nat \<Rightarrow> nat" where
  "pad_len cfg draw = (if vc_max_pad cfg = 0 then 0 else draw mod (vc_max_pad cfg + 1))"

definition write_frame :: "u8 \<Rightarrow> bytes \<Rightarrow> nat \<Rightarrow> (Socket, ErrorKind, unit) act" where
  "write_frame kind data pad =
    abind (write_all ([kind] @ be16 (of_nat (length data)) @ be16 (of_nat pad))) (\<lambda>_.
    abind (if data \<noteq> [] then write_all data else aret ()) (\<lambda>_.
    if pad > 0 then write_all (replicate pad 0) else aret ()))"

section \<open>The two directions\<close>

type_synonym io_copy = "Socket \<Rightarrow> Socket \<Rightarrow> (ErrorKind + nat) \<times> Socket \<times> Socket"

text \<open>The end of a direction after the raw phase.\<close>

definition copy_rest :: "io_copy \<Rightarrow> Socket \<Rightarrow> Socket \<Rightarrow> (ErrorKind + unit) \<times> Socket \<times> Socket" where
  "copy_rest cp src dst =
    (case cp src dst of
       (Inl e, src, dst) \<Rightarrow> (Inl e, src, dst)
     | (Inr _, src, dst) \<Rightarrow> (Inr (), src, sock_shutdown dst))"

function encode_frames ::
    "io_copy \<Rightarrow> VisionConfig \<Rightarrow> (nat \<Rightarrow> nat) \<Rightarrow> nat \<Rightarrow> Socket \<Rightarrow> Socket \<Rightarrow> (ErrorKind + unit) \<times> Socket \<times> Socket" where
  "encode_frames cp cfg draws frames src dst =
    (let pad_frames = max (vc_pad_frames cfg) 1 in
     case read_some MAX_DATA src of
       (Inl e, src) \<Rightarrow> (Inl e, src, dst)
     | (Inr [], src) \<Rightarrow>
         (case (if frames < pad_frames then write_frame KIND_END [] (pad_len cfg (draws frames)) else aret ()) dst of
            (Inl e, dst) \<Rightarrow> (Inl e, src, dst)
          | (Inr _, dst) \<Rightarrow> (Inr (), src, sock_shutdown dst))
     | (Inr (b # bs), src') \<Rightarrow>
         (case write_frame (if Suc frames \<ge> pad_frames then KIND_END else KIND_MORE) (b # bs) (pad_len cfg (draws frames)) dst of
            (Inl e, dst) \<Rightarrow> (Inl e, src', dst)
          | (Inr _, dst) \<Rightarrow>
              if Suc frames \<ge> pad_frames then copy_rest cp src' dst
              else encode_frames cp cfg draws (Suc frames) src' dst))"
  by pat_completeness auto
termination
  by (relation "measure (\<lambda>(cp, cfg, draws, frames, src, dst). length (concat (rx src)))")
     (auto dest: read_some_shorter [OF sym])

declare encode_frames.simps [simp del]

definition encode_copy ::
    "io_copy \<Rightarrow> (nat \<Rightarrow> nat) \<Rightarrow> Socket \<Rightarrow> Socket \<Rightarrow> VisionConfig \<Rightarrow> (ErrorKind + unit) \<times> Socket \<times> Socket" where
  "encode_copy cp draws src dst cfg = encode_frames cp cfg draws 0 src dst"

text \<open>One frame: its data goes to the other side, its padding nowhere.\<close>

definition decode_frame :: "bytes \<Rightarrow> Socket \<Rightarrow> Socket \<Rightarrow> (ErrorKind + unit) \<times> Socket \<times> Socket" where
  "decode_frame hdr src dst =
    (let data_len = unat (from_be16 (hdr ! 1) (hdr ! 2)); pad_len = unat (from_be16 (hdr ! 3) (hdr ! 4)) in
     case (if data_len > 0 then read_exact data_len else aret []) src of
       (Inl e, src) \<Rightarrow> (Inl e, src, dst)
     | (Inr data, src) \<Rightarrow>
         (case (if data_len > 0 then write_all data else aret ()) dst of
            (Inl e, dst) \<Rightarrow> (Inl e, src, dst)
          | (Inr _, dst) \<Rightarrow>
              (case (if pad_len > 0 then read_exact pad_len else aret []) src of
                 (Inl e, src) \<Rightarrow> (Inl e, src, dst)
               | (Inr _, src) \<Rightarrow> (Inr (), src, dst))))"

lemma read_exact_le: "read_exact n s = (r, s') \<Longrightarrow> length (concat (rx s')) \<le> length (concat (rx s))"
proof -
  assume r: "read_exact n s = (r, s')"
  show ?thesis
  proof (cases r)
    case (Inl e)
    then show ?thesis
      using r by (auto simp: read_exact_def split: option.splits)
  next
    case (Inr bs)
    then show ?thesis
      using read_exact_Inr [of n s bs s'] r by auto
  qed
qed

lemma read_or_skip_le:
  "(if b then read_exact n else aret x) s = (r, s') \<Longrightarrow> length (concat (rx s')) \<le> length (concat (rx s))"
  by (auto simp: aret_def split: if_splits dest: read_exact_le)

lemma decode_frame_le:
  assumes "decode_frame hdr src dst = (r, src', dst')"
  shows "length (concat (rx src')) \<le> length (concat (rx src))"
proof -
  let ?n = "unat (from_be16 (hdr ! 1) (hdr ! 2))" and ?m = "unat (from_be16 (hdr ! 3) (hdr ! 4))"
  obtain q s where 1: "(if ?n > 0 then read_exact ?n else aret []) src = (q, s)"
    by fastforce
  obtain q' s' where 2: "(if ?m > 0 then read_exact ?m else aret []) s = (q', s')"
    by fastforce
  have "src' = s \<or> src' = s'"
    using assms unfolding decode_frame_def Let_def 1 by (auto simp: 2 split: sum.splits prod.splits)
  then show ?thesis
    using read_or_skip_le [OF 1] read_or_skip_le [OF 2] by auto
qed

lemma read_exact_shorter:
  "\<lbrakk>read_exact n s = (Inr bs, s'); 0 < n\<rbrakk> \<Longrightarrow> length (concat (rx s')) < length (concat (rx s))"
  using read_exact_Inr [of n s bs s'] by auto

function decode_copy :: "io_copy \<Rightarrow> Socket \<Rightarrow> Socket \<Rightarrow> (ErrorKind + unit) \<times> Socket \<times> Socket" where
  "decode_copy cp src dst =
    (case read_exact 5 src of
       (Inl e, src) \<Rightarrow> if e = UnexpectedEof then (Inr (), src, sock_shutdown dst) else (Inl e, src, dst)
     | (Inr hdr, src) \<Rightarrow>
         (case decode_frame hdr src dst of
            (Inl e, src, dst) \<Rightarrow> (Inl e, src, dst)
          | (Inr _, src, dst) \<Rightarrow>
              if hdr ! 0 = KIND_END then copy_rest cp src dst else decode_copy cp src dst))"
  by pat_completeness auto
termination
  by (relation "measure (\<lambda>(cp, src, dst). length (concat (rx src)))")
     (auto dest!: decode_frame_le [OF sym] read_exact_shorter [OF sym])

declare decode_copy.simps [simp del]

text \<open>Both directions together; the first error ends the other one.\<close>

definition vision_copy_bidirectional ::
    "io_copy \<Rightarrow> (nat \<Rightarrow> nat) \<Rightarrow> Socket \<Rightarrow> Socket \<Rightarrow> VisionConfig \<Rightarrow> ErrorKind + Socket \<times> Socket" where
  "vision_copy_bidirectional cp draws tunnel target cfg =
    (case encode_copy cp draws target tunnel cfg of
       (Inl e, _) \<Rightarrow> Inl e
     | (Inr _, target', tunnel') \<Rightarrow>
         (case decode_copy cp tunnel target of
            (Inl e, _) \<Rightarrow> Inl e
          | (Inr _, tunnel'', target'') \<Rightarrow>
              Inr (tunnel'\<lparr>rx := rx tunnel''\<rparr>, target'\<lparr>tx := tx target'', tx_room := tx_room target'', sk_shut := sk_shut target''\<rparr>)))"

section \<open>Lemmas\<close>

definition io_copy_ok :: "io_copy \<Rightarrow> bool" where
  "io_copy_ok cp \<longleftrightarrow>
    (\<forall>src dst. rx_end src = None \<and> tx_room dst = None \<longrightarrow>
      (\<exists>n. cp src dst = (Inr n, src\<lparr>rx := []\<rparr>, dst\<lparr>tx := tx dst @ concat (rx src)\<rparr>)))"

definition frame_bytes :: "u8 \<Rightarrow> bytes \<Rightarrow> nat \<Rightarrow> bytes" where
  "frame_bytes kind data pad = [kind] @ be16 (of_nat (length data)) @ be16 (of_nat pad) @ data @ replicate pad 0"

text \<open>A wire \<open>w\<close> that carries the payload \<open>p\<close>: frames up to the last one, then raw bytes.\<close>

inductive framed :: "bytes \<Rightarrow> bytes \<Rightarrow> bool" where
  last: "\<lbrakk>length d < 65536; pad < 65536\<rbrakk> \<Longrightarrow> framed (frame_bytes KIND_END d pad @ raw) (d @ raw)"
| more: "\<lbrakk>length d < 65536; pad < 65536; framed w p\<rbrakk> \<Longrightarrow> framed (frame_bytes KIND_MORE d pad @ w) (d @ p)"

lemma write_frame_open:
  "tx_room s = None \<Longrightarrow> write_frame kind data pad s = (Inr (), s\<lparr>tx := tx s @ frame_bytes kind data pad\<rparr>)"
  by (auto simp: write_frame_def frame_bytes_def abind_def write_all_open aret_def)

lemma copy_rest_ok:
  "\<lbrakk>io_copy_ok cp; rx_end src = None; tx_room dst = None\<rbrakk> \<Longrightarrow>
   copy_rest cp src dst = (Inr (), src\<lparr>rx := []\<rparr>, dst\<lparr>tx := tx dst @ concat (rx src), sk_shut := True\<rparr>)"
  unfolding io_copy_ok_def copy_rest_def sock_shutdown_def by fastforce

lemma pad_len_bound: "vc_max_pad cfg < 65536 \<Longrightarrow> pad_len cfg draw < 65536"
proof -
  assume "vc_max_pad cfg < 65536"
  moreover have "draw mod (vc_max_pad cfg + 1) \<le> vc_max_pad cfg"
    by (metis less_Suc_eq_le mod_less_divisor Suc_eq_plus1 zero_less_Suc)
  ultimately have "draw mod (vc_max_pad cfg + 1) < 65536"
    by (rule le_less_trans [rotated])
  then show ?thesis
    by (simp add: pad_len_def)
qed

lemma encode_frames_ok:
  assumes "io_copy_ok cp" and "vc_max_pad cfg < 65536"
  shows "\<lbrakk>frames < max (vc_pad_frames cfg) 1; rx_end src = None\<rbrakk> \<Longrightarrow>
    \<exists>w src'. framed w (concat (rx src)) \<and>
      (\<forall>dst. tx_room dst = None \<longrightarrow>
        encode_frames cp cfg draws frames src dst = (Inr (), src', dst\<lparr>tx := tx dst @ w, sk_shut := True\<rparr>))"
proof (induction "length (concat (rx src))" arbitrary: frames src rule: less_induct)
  case less
  let ?pad = "pad_len cfg (draws frames)"
  note pad = pad_len_bound [OF assms(2), of "draws frames"]
  obtain bs src1 where rd: "read_some MAX_DATA src = (Inr bs, src1)"
    using read_some_eof [OF less.prems(2)] by blast
  note f = read_some_Inr [OF rd]
  then have e: "rx_end src1 = None"
    using less.prems by simp
  show ?case
  proof (cases bs)
    case Nil
    then have "concat (rx src) = []"
      using f(3) by (simp add: MAX_DATA_def)
    then have "framed (frame_bytes KIND_END [] ?pad) (concat (rx src))"
      using framed.last [of "[]" ?pad "[]"] pad by simp
    then show ?thesis
      using rd Nil less.prems
      by (subst encode_frames.simps) (auto simp: write_frame_open sock_shutdown_def)
  next
    case (Cons b bs')
    have len: "length (b # bs') < 65536"
      using f(2) Cons by (simp add: MAX_DATA_def)
    let ?dst = "\<lambda>kind dst. dst\<lparr>tx := tx dst @ frame_bytes kind (b # bs') ?pad\<rparr>"
    show ?thesis
    proof (cases "Suc frames \<ge> max (vc_pad_frames cfg) 1")
      case True
      have "encode_frames cp cfg draws frames src dst = copy_rest cp src1 (?dst KIND_END dst)" if "tx_room dst = None" for dst
        using rd Cons True that by (subst encode_frames.simps) (simp add: write_frame_open)
      then show ?thesis
        using copy_rest_ok [OF assms(1) e] framed.last [OF len pad, of "concat (rx src1)"] f(1) Cons
        by (intro exI [of _ "frame_bytes KIND_END (b # bs') ?pad @ concat (rx src1)"] exI [of _ "src1\<lparr>rx := []\<rparr>"]) simp
    next
      case False
      have step: "encode_frames cp cfg draws frames src dst = encode_frames cp cfg draws (Suc frames) src1 (?dst KIND_MORE dst)"
        if "tx_room dst = None" for dst
        using rd Cons False that by (subst encode_frames.simps) (simp add: write_frame_open)
      obtain w src' where w: "framed w (concat (rx src1))" "\<And>dst. tx_room dst = None \<Longrightarrow>
          encode_frames cp cfg draws (Suc frames) src1 dst = (Inr (), src', dst\<lparr>tx := tx dst @ w, sk_shut := True\<rparr>)"
        using less.hyps [OF _ _ e, of "Suc frames"] read_some_shorter [OF rd [unfolded Cons]] False by auto
      show ?thesis
        using framed.more [OF len pad w(1)] f(1) Cons step w(2) [of "?dst KIND_MORE _"]
        by (intro exI [of _ "frame_bytes KIND_MORE (b # bs') ?pad @ w"] exI [of _ src']) simp
    qed
  qed
qed

text \<open>Reading \<open>n\<close> bytes that are there, also when \<open>n\<close> is zero and the read is skipped.\<close>

lemma read_or_skip:
  "\<lbrakk>concat (rx s) = d @ m; length d = n\<rbrakk> \<Longrightarrow>
   \<exists>r. (if n > 0 then read_exact n else aret []) s = (Inr d, s\<lparr>rx := r\<rparr>) \<and> concat r = m"
  using read_exact_enough [of n s] by (auto simp: aret_def intro: exI [of _ "rx s"])

lemma decode_frame_ok:
  assumes "concat (rx src) = d @ replicate pad 0 @ m" and "length d < 65536" and "pad < 65536" and "tx_room dst = None"
    and "hdr = [kind] @ be16 (of_nat (length d)) @ be16 (of_nat pad)"
  shows "\<exists>r. decode_frame hdr src dst = (Inr (), src\<lparr>rx := r\<rparr>, dst\<lparr>tx := tx dst @ d\<rparr>) \<and> concat r = m"
proof -
  have n: "unat (from_be16 (hdr ! 1) (hdr ! 2)) = length d" "unat (from_be16 (hdr ! 3) (hdr ! 4)) = pad"
    using assms(2,3,5) by (simp_all add: be16_of_nat from_be16_of_nat unat_of_nat_u16)
  obtain r1 where r1: "(if length d > 0 then read_exact (length d) else aret []) src = (Inr d, src\<lparr>rx := r1\<rparr>)"
      "concat r1 = replicate pad 0 @ m"
    using read_or_skip [OF assms(1) refl] by blast
  obtain r2 where r2: "(if pad > 0 then read_exact pad else aret []) (src\<lparr>rx := r1\<rparr>) = (Inr (replicate pad 0), src\<lparr>rx := r2\<rparr>)"
      "concat r2 = m"
    using read_or_skip [of "src\<lparr>rx := r1\<rparr>" "replicate pad 0" m pad] r1(2) by auto
  have "(if length d > 0 then write_all d else aret ()) dst = (Inr (), dst\<lparr>tx := tx dst @ d\<rparr>)"
    using assms(4) by (auto simp: write_all_open aret_def)
  then show ?thesis
    unfolding decode_frame_def Let_def n r1(1) using r2 by auto
qed

lemma decode_copy_step:
  assumes "concat (rx src) = frame_bytes kind d pad @ m" and "length d < 65536" and "pad < 65536" and "tx_room dst = None"
  shows "\<exists>r. decode_copy cp src dst =
    (if kind = KIND_END then copy_rest cp (src\<lparr>rx := r\<rparr>) (dst\<lparr>tx := tx dst @ d\<rparr>)
     else decode_copy cp (src\<lparr>rx := r\<rparr>) (dst\<lparr>tx := tx dst @ d\<rparr>)) \<and> concat r = m"
proof -
  let ?hdr = "[kind] @ be16 (of_nat (length d)) @ be16 (of_nat pad)"
  have w: "concat (rx src) = ?hdr @ d @ replicate pad 0 @ m"
    using assms(1) by (simp add: frame_bytes_def)
  then obtain r0 where r0: "read_exact 5 src = (Inr ?hdr, src\<lparr>rx := r0\<rparr>)" "concat r0 = d @ replicate pad 0 @ m"
    using read_exact_enough [of 5 src] by (auto simp: be16_def)
  from decode_frame_ok [of "src\<lparr>rx := r0\<rparr>" d pad m dst, OF _ assms(2-4) refl, of kind] r0(2)
  obtain r where "decode_frame ?hdr (src\<lparr>rx := r0\<rparr>) dst = (Inr (), src\<lparr>rx := r\<rparr>, dst\<lparr>tx := tx dst @ d\<rparr>)" "concat r = m"
    by auto
  then show ?thesis
    using r0(1) by (subst decode_copy.simps) auto
qed

lemma decode_copy_ok:
  assumes "io_copy_ok cp"
  shows "framed w p \<Longrightarrow> concat (rx src) = w \<Longrightarrow> rx_end src = None \<Longrightarrow> tx_room dst = None \<Longrightarrow>
    \<exists>r. decode_copy cp src dst = (Inr (), src\<lparr>rx := r\<rparr>, dst\<lparr>tx := tx dst @ p, sk_shut := True\<rparr>)"
proof (induction w p arbitrary: src dst rule: framed.induct)
  case (last d pad raw)
  then show ?case
    using decode_copy_step [of src KIND_END d pad raw dst cp] copy_rest_ok [OF assms] by auto
next
  case (more d pad w p)
  from decode_copy_step [of src KIND_MORE d pad w dst cp] more.hyps more.prems
  obtain r where "decode_copy cp src dst = decode_copy cp (src\<lparr>rx := r\<rparr>) (dst\<lparr>tx := tx dst @ d\<rparr>)" "concat r = w"
    by (auto simp: KIND_MORE_def KIND_END_def)
  then show ?case
    using more.IH [of "src\<lparr>rx := r\<rparr>" "dst\<lparr>tx := tx dst @ d\<rparr>"] more.prems by auto
qed

section \<open>Properties\<close>

text \<open>
  C39.  The padded copy is transparent.  Whatever the applications at the two ends hand over, in
  whatever chunks and with whatever padding drawn, there are wires \<open>wa\<close> and \<open>wb\<close> such that over
  every pair of tunnel streams that carry them, however cut, both copies succeed: each end
  writes its wire, delivers exactly what the other application handed over, and closes.
\<close>

theorem padded_copy_transparent:
  assumes "io_copy_ok cp" and "vc_max_pad cfg < 65536"
    and "rx_end a_app = None" "tx_room a_app = None" "tx a_app = []"
    and "rx_end b_app = None" "tx_room b_app = None" "tx b_app = []"
  shows "\<exists>wa wb. \<forall>a_tun b_tun.
    rx_end a_tun = None \<and> tx_room a_tun = None \<and> tx a_tun = [] \<and> concat (rx a_tun) = wb \<and>
    rx_end b_tun = None \<and> tx_room b_tun = None \<and> tx b_tun = [] \<and> concat (rx b_tun) = wa \<longrightarrow>
    (\<exists>a_tun' a_app' b_tun' b_app'.
      vision_copy_bidirectional cp draws a_tun a_app cfg = Inr (a_tun', a_app') \<and>
      vision_copy_bidirectional cp draws' b_tun b_app cfg = Inr (b_tun', b_app') \<and>
      tx a_tun' = wa \<and> tx b_tun' = wb \<and>
      tx b_app' = concat (rx a_app) \<and> tx a_app' = concat (rx b_app) \<and> sk_shut a_app' \<and> sk_shut b_app')"
proof -
  obtain wa sa where a: "framed wa (concat (rx a_app))" "\<And>dst. tx_room dst = None \<Longrightarrow>
      encode_copy cp draws a_app dst cfg = (Inr (), sa, dst\<lparr>tx := tx dst @ wa, sk_shut := True\<rparr>)"
    using encode_frames_ok [OF assms(1,2) _ assms(3), of 0 draws] by (auto simp: encode_copy_def less_max_iff_disj)
  obtain wb sb where b: "framed wb (concat (rx b_app))" "\<And>dst. tx_room dst = None \<Longrightarrow>
      encode_copy cp draws' b_app dst cfg = (Inr (), sb, dst\<lparr>tx := tx dst @ wb, sk_shut := True\<rparr>)"
    using encode_frames_ok [OF assms(1,2) _ assms(6), of 0 draws'] by (auto simp: encode_copy_def less_max_iff_disj)
  show ?thesis
  proof (rule exI [of _ wa], rule exI [of _ wb], intro allI impI, elim conjE)
    fix a_tun b_tun :: Socket
    assume t: "rx_end a_tun = None" "tx_room a_tun = None" "tx a_tun = []" "concat (rx a_tun) = wb"
      "rx_end b_tun = None" "tx_room b_tun = None" "tx b_tun = []" "concat (rx b_tun) = wa"
    obtain ra rb where "decode_copy cp a_tun a_app = (Inr (), a_tun\<lparr>rx := ra\<rparr>, a_app\<lparr>tx := tx a_app @ concat (rx b_app), sk_shut := True\<rparr>)"
        "decode_copy cp b_tun b_app = (Inr (), b_tun\<lparr>rx := rb\<rparr>, b_app\<lparr>tx := tx b_app @ concat (rx a_app), sk_shut := True\<rparr>)"
      using decode_copy_ok [OF assms(1) b(1) t(4,1) assms(4)] decode_copy_ok [OF assms(1) a(1) t(8,5) assms(7)] by blast
    then show "\<exists>a_tun' a_app' b_tun' b_app'.
        vision_copy_bidirectional cp draws a_tun a_app cfg = Inr (a_tun', a_app') \<and>
        vision_copy_bidirectional cp draws' b_tun b_app cfg = Inr (b_tun', b_app') \<and>
        tx a_tun' = wa \<and> tx b_tun' = wb \<and>
        tx b_app' = concat (rx a_app) \<and> tx a_app' = concat (rx b_app) \<and> sk_shut a_app' \<and> sk_shut b_app'"
      using a(2) b(2) assms(5,8) t by (simp add: vision_copy_bidirectional_def)
  qed
qed

definition sample_copy_to :: io_copy where
  "sample_copy_to src dst = (Inr 0, src\<lparr>rx := []\<rparr>, dst\<lparr>tx := tx dst @ concat (rx src)\<rparr>)"

definition open_sock :: "bytes list \<Rightarrow> Socket" where
  "open_sock cs = \<lparr>rx = cs, rx_end = None, tx = [], tx_room = None, sk_shut = False\<rparr>"

theorem padded_copy_transparent_witness:
  "\<exists>wa wb a_tun' a_app' b_tun' b_app'.
    vision_copy_bidirectional sample_copy_to (\<lambda>k. k) (open_sock [wb]) (open_sock [[1], [2, 3]]) vision_config_default = Inr (a_tun', a_app') \<and>
    vision_copy_bidirectional sample_copy_to (\<lambda>k. 7) (open_sock [wa]) (open_sock [[4]]) vision_config_default = Inr (b_tun', b_app') \<and>
    tx a_tun' = wa \<and> tx b_tun' = wb \<and> tx b_app' = [1, 2, 3] \<and> tx a_app' = [4]"
proof -
  have "io_copy_ok sample_copy_to"
    by (simp add: io_copy_ok_def sample_copy_to_def)
  from padded_copy_transparent [OF this, of vision_config_default "open_sock [[1], [2, 3]]" "open_sock [[4]]" "\<lambda>k. k" "\<lambda>k. 7"]
  obtain wa wb where "\<forall>a_tun b_tun.
      rx_end a_tun = None \<and> tx_room a_tun = None \<and> tx a_tun = [] \<and> concat (rx a_tun) = wb \<and>
      rx_end b_tun = None \<and> tx_room b_tun = None \<and> tx b_tun = [] \<and> concat (rx b_tun) = wa \<longrightarrow>
      (\<exists>a_tun' a_app' b_tun' b_app'.
        vision_copy_bidirectional sample_copy_to (\<lambda>k. k) a_tun (open_sock [[1], [2, 3]]) vision_config_default = Inr (a_tun', a_app') \<and>
        vision_copy_bidirectional sample_copy_to (\<lambda>k. 7) b_tun (open_sock [[4]]) vision_config_default = Inr (b_tun', b_app') \<and>
        tx a_tun' = wa \<and> tx b_tun' = wb \<and> tx b_app' = [1, 2, 3] \<and> tx a_app' = [4] \<and> sk_shut a_app' \<and> sk_shut b_app')"
    by (auto simp: open_sock_def vision_config_default_def)
  from this [rule_format, of "open_sock [wb]" "open_sock [wa]"] show ?thesis
    by (simp add: open_sock_def) blast
qed

end
