(* ===== verification/Proxy_Session.thy ===== *)
theory Proxy_Session
  imports Mux_Relay Vision_Splice Framed_Copy Fragmentation
begin

text \<open>
  A session behind an opaque stream (\<^verbatim>\<open>handle_session\<close> of \<^verbatim>\<open>donut-server/src/proxy.rs\<close>): the VLESS
  request is read and checked, the routing table picks the egress, the relay of the
  request's command runs.  The world of a session is its stream, the upstream it opened,
  the dials it made and the counters; \<open>w_fragment\<close> says that the upstream's bytes pass through
  the fragmenting writer of \<open>Fragmentation\<close>.  The network (resolver, connect, dials, \<^verbatim>\<open>tokio\<close>'s copy) and
  the schedules of the relays are in the environment.
\<close>

declare concat_eq_Nil_conv [simp del] Nil_eq_concat_conv [simp del]

section \<open>Tuning, dialects, errors\<close>

record RuntimeTuning =
  rt_mux_idle :: nat
  rt_udp_idle :: nat
  rt_accept_backoff :: nat
  rt_tls_handshake_timeout :: nat
  rt_tcp_idle :: nat

datatype VisionDialect = Donut | Xray

definition dialect_parse :: "rstr \<Rightarrow> VisionDialect option" where
  "dialect_parse s =
    (if s = str ''donut'' \<or> s = [] then Some Donut
     else if s = str ''xray'' then Some Xray
     else None)"

datatype ProxyError =
    PIo ErrorKind
  | PWire WireError
  | PUnsupportedCommand
  | PResolve rstr
  | PTls rstr

text \<open>A session ends with an error or by a panic.\<close>

datatype SessFail = Fails ProxyError | Panics

abbreviation io_fail :: "ErrorKind \<Rightarrow> SessFail" where
  "io_fail e \<equiv> Fails (PIo e)"

section \<open>The world\<close>

datatype Dial = ToExit ChainOutbound Endpoint Command | ToTarget SocketAddr | ToUdp SocketAddr | ToDecoy SocketAddr

record 's World =
  w_session :: 's
  w_upstream :: "Socket option"
  w_fragment :: "FragmentParams option"
  w_dials :: "Dial list"
  w_metrics :: Metrics

record SessEnv =
  en_auth :: AuthHandle
  en_router :: Router
  en_outbounds :: Outbounds
  en_lookup :: "rstr \<Rightarrow> IpAddr list option"
  en_chain :: ChainNet
  en_connect :: "SocketAddr \<Rightarrow> ErrorKind + Socket"
  en_elapsed :: nat
  en_bind :: "bool \<Rightarrow> ErrorKind + UdpSock"
  en_udp_connect :: "SocketAddr \<Rightarrow> UdpSock \<Rightarrow> ErrorKind + UdpSock"
  en_udp_events :: "UdpEvent list"
  en_mux_net :: "nat \<Rightarrow> MuxNet"
  en_mux_events :: "MuxEvent list"
  en_copy :: "Socket \<Rightarrow> Socket \<Rightarrow> Socket \<times> Socket \<times> (nat \<times> nat) option"
  en_io_copy :: io_copy
  en_draws :: "nat \<Rightarrow> nat"
  en_frag_draws :: "nat \<Rightarrow> u32"

definition on_session :: "('s, ErrorKind, 'a) act \<Rightarrow> ('s World, SessFail, 'a) act" where
  "on_session m w = (case m (w_session w) of (r, s) \<Rightarrow> (map_err io_fail r, w\<lparr>w_session := s\<rparr>))"

definition count :: "(Metrics \<Rightarrow> Metrics) \<Rightarrow> ('s World, SessFail, unit) act" where
  "count f w = (Inr (), w\<lparr>w_metrics := f (w_metrics w)\<rparr>)"

definition log_dial :: "Dial \<Rightarrow> ('s World, SessFail, unit) act" where
  "log_dial d w = (Inr (), w\<lparr>w_dials := w_dials w @ [d]\<rparr>)"

text \<open>The gauge stays up while the session runs and goes down however it returns.\<close>

definition guarded :: "SessionKind \<Rightarrow> ('s World, SessFail, bool) act \<Rightarrow> ('s World, SessFail, bool) act" where
  "guarded kind m w =
    (case m (w\<lparr>w_metrics := tunnel_started_kind kind (w_metrics w)\<rparr>) of
       (Inr False, w) \<Rightarrow> (Inr False, w)
     | (r, w) \<Rightarrow> (r, w\<lparr>w_metrics := guard_drop kind (w_metrics w)\<rparr>))"

section \<open>The request\<close>

function read_request :: "bytes \<Rightarrow> Socket \<Rightarrow> (ProxyError + Request \<times> bytes) \<times> Socket" where
  "read_request buf s =
    (case read_some 512 s of
       (Inl e, s') \<Rightarrow> (Inl (PIo e), s')
     | (Inr [], s') \<Rightarrow> (Inl (PIo UnexpectedEof), s')
     | (Inr (b # bs), s') \<Rightarrow>
         (case request_decode (buf @ b # bs) of
            Inr (r, rest) \<Rightarrow> (Inr (r, rest), s')
          | Inl e \<Rightarrow> if is_truncated e then read_request (buf @ b # bs) s' else (Inl (PWire e), s')))"
  by pat_completeness auto
termination
  by (relation "measure (\<lambda>(buf, s). length (concat (rx s)))") (auto dest: read_some_shorter [OF sym])

declare read_request.simps [simp del]

interpretation client_request: header_reader request_decode is_truncated request_bytes request_ok
    512 PIo PWire Pair read_request
proof unfold_locales
  show "read_request acc s =
      (case read_some 512 s of
         (Inl e, s') \<Rightarrow> (Inl (PIo e), s')
       | (Inr [], s') \<Rightarrow> (Inl (PIo UnexpectedEof), s')
       | (Inr (b # bs), s') \<Rightarrow>
           (case request_decode (acc @ b # bs) of
              Inr (r, rest) \<Rightarrow> (Inr (r, rest), s')
            | Inl e \<Rightarrow> if is_truncated e then read_request (acc @ b # bs) s' else (Inl (PWire e), s')))" for acc s
    by (rule read_request.simps)
qed simp

definition response_bytes :: bytes where
  "response_bytes = response_encode response_default"

definition proxy_resolve :: "SessEnv \<Rightarrow> Endpoint \<Rightarrow> ProxyError + SocketAddr" where
  "proxy_resolve env ep =
    (case address ep of
       Ip ip \<Rightarrow> Inr \<lparr>sa_ip = ip, sa_port = port ep\<rparr>
     | Domain d \<Rightarrow> map_err (\<lambda>_. PResolve d) (resolve_one (en_lookup env) d (port ep)))"

definition is_blackhole :: "rstr \<Rightarrow> bool" where
  "is_blackhole tag \<longleftrightarrow> tag = str ''block'' \<or> tag = str ''blackhole''"

section \<open>Upstreams\<close>

text \<open>What a dialled exit's stream reads and writes like (see \<open>pf_poll_read_stream\<close>).\<close>

definition exit_socket :: "Prefixed \<Rightarrow> Socket" where
  "exit_socket p = TcpStream.extend (pf_stream p) \<lparr>sk_shut = False\<rparr>"

definition dial_exit :: "SessEnv \<Rightarrow> ChainOutbound \<Rightarrow> Endpoint \<Rightarrow> Command \<Rightarrow> ('s World, SessFail, Socket) act" where
  "dial_exit env c target command =
    abind (log_dial (ToExit c target command)) (\<lambda>_.
    alift (map_err io_fail (rbind (dial_command (en_chain env) c target command) (\<lambda>p. Inr (exit_socket p)))))"

definition dial_target :: "SessEnv \<Rightarrow> Endpoint \<Rightarrow> ('s World, SessFail, Socket) act" where
  "dial_target env target =
    abind (alift (map_err Fails (proxy_resolve env target))) (\<lambda>addr.
    abind (log_dial (ToTarget addr)) (\<lambda>_.
    alift (map_err io_fail (en_connect env addr))))"

text \<open>Both directions until they end; the counters grow when the copy ended cleanly.\<close>

definition copy_both :: "SessEnv \<Rightarrow> Socket \<Rightarrow> (Socket World, SessFail, Socket) act" where
  "copy_both env up w =
    (case en_copy env (w_session w) up of
       (s, up, res) \<Rightarrow>
         (Inr up, w\<lparr>w_session := s,
            w_metrics := (case res of Some (u, d) \<Rightarrow> add_bytes u d (w_metrics w) | None \<Rightarrow> w_metrics w)\<rparr>))"

definition set_upstream :: "Socket \<Rightarrow> ('s World, SessFail, unit) act" where
  "set_upstream up w = (Inr (), w\<lparr>w_upstream := Some up\<rparr>)"

definition upstream_write :: "bytes \<Rightarrow> Socket \<Rightarrow> ('s World, SessFail, Socket) act" where
  "upstream_write bs up w =
    (case write_all bs up of (r, up) \<Rightarrow> (rbind (map_err io_fail r) (\<lambda>_. Inr up), w\<lparr>w_upstream := Some up\<rparr>))"

definition upstream_write_fragmented :: "SessEnv \<Rightarrow> FragmentParams \<Rightarrow> bytes \<Rightarrow> Socket \<Rightarrow> ('s World, SessFail, Socket) act" where
  "upstream_write_fragmented env frag record up w =
    (case write_fragmented record frag (en_frag_draws env) (TcpStream.extend (TcpStream.truncate up) \<lparr>pauses = []\<rparr>) of
       (r, p) \<Rightarrow>
         let up = TcpStream.extend (TcpStream.truncate p) \<lparr>sk_shut = sk_shut up\<rparr>
         in (rbind (map_err (\<lambda>e. case e of Panicked \<Rightarrow> Panics | FragIo e \<Rightarrow> io_fail e) r) (\<lambda>_. Inr up),
             w\<lparr>w_upstream := Some up\<rparr>))"

section \<open>The relays of a session\<close>

definition session_mux :: "SessEnv \<Rightarrow> bytes \<Rightarrow> (Socket World, SessFail, bool) act" where
  "session_mux env leftover w =
    (let st = mux_relay
           \<lparr>me_io = carrier_mux_io, me_net = en_mux_net env, me_router = en_router env,
            me_outbounds = en_outbounds env, me_draws = en_draws env\<rparr>
           (w_session w) leftover (w_metrics w) None (en_mux_events env);
         w = w\<lparr>w_session := mx_tunnel st, w_metrics := mx_metrics st\<rparr>
     in case mx_phase st of
          Ended (Inl e) \<Rightarrow> (Inl (io_fail e), w\<lparr>w_metrics := session_error (sess_err_from_io e) (w_metrics w)\<rparr>)
        | Ended (Inr _) \<Rightarrow> (Inr True, w\<lparr>w_metrics := session_ok (w_metrics w)\<rparr>)
        | _ \<Rightarrow> (Inr False, w))"

definition session_udp :: "SessEnv \<Rightarrow> SocketAddr \<Rightarrow> bytes \<Rightarrow> (Socket World, SessFail, bool) act" where
  "session_udp env addr leftover w =
    (case vision_udp_relay carrier_mux_io (en_bind env) (en_udp_connect env) (en_udp_events env)
         (w_session w) addr leftover (w_metrics w) of
       Inl e \<Rightarrow> (Inl (io_fail e), w\<lparr>w_dials := w_dials w @ [ToUdp addr]\<rparr>)
     | Inr (r, st) \<Rightarrow>
         (map_err io_fail r, w\<lparr>w_dials := w_dials w @ [ToUdp addr], w_session := ur_tunnel st, w_metrics := ur_metrics st\<rparr>))"

definition replay :: "bytes \<Rightarrow> Socket \<Rightarrow> Socket" where
  "replay leftover s = s\<lparr>rx := leftover # rx s\<rparr>"

definition session_udp_chain :: "SessEnv \<Rightarrow> Socket \<Rightarrow> bytes \<Rightarrow> (Socket World, SessFail, bool) act" where
  "session_udp_chain env up leftover w =
    (case copy_both env up (w\<lparr>w_session := replay leftover (w_session w)\<rparr>) of
       (Inl e, w) \<Rightarrow> (Inl e, w)
     | (Inr up, w) \<Rightarrow> (Inr True, w\<lparr>w_upstream := Some up\<rparr>))"

definition session_vision :: "SessEnv \<Rightarrow> VisionDialect \<Rightarrow> Socket \<Rightarrow> bytes \<Rightarrow> (Socket World, SessFail, bool) act" where
  "session_vision env dialect up leftover w =
    (case dialect of
       Xray \<Rightarrow> (Inl Panics, w)
     | Donut \<Rightarrow>
         (case vision_copy_bidirectional (en_io_copy env) (en_draws env) (replay leftover (w_session w)) up vision_config_default of
            Inl _ \<Rightarrow> (Inr True, w)
          | Inr (s, up) \<Rightarrow> (Inr True, w\<lparr>w_session := s, w_upstream := Some up\<rparr>)))"

definition first_bytes :: "SessEnv \<Rightarrow> bool \<Rightarrow> Socket \<Rightarrow> bytes \<Rightarrow> (Socket World, SessFail, Socket) act" where
  "first_bytes env is_direct up leftover =
    (case (is_direct, outbounds_fragment (en_outbounds env)) of
       (True, Some frag) \<Rightarrow>
         abind (on_session (read_first_record leftover)) (\<lambda>(record, extra).
         abind (upstream_write_fragmented env frag record up) (\<lambda>up.
         if extra \<noteq> [] then upstream_write extra up else aret up))
     | _ \<Rightarrow> if leftover \<noteq> [] then upstream_write leftover up else aret up)"

definition session_plain :: "SessEnv \<Rightarrow> bool \<Rightarrow> Socket \<Rightarrow> bytes \<Rightarrow> (Socket World, SessFail, bool) act" where
  "session_plain env is_direct up leftover =
    abind (first_bytes env is_direct up leftover) (\<lambda>up.
    abind (copy_both env up) (\<lambda>up w.
    (Inr True, w\<lparr>w_upstream := Some (sock_shutdown up), w_session := sock_shutdown (w_session w)\<rparr>)))"

section \<open>The handler\<close>

definition request_udp :: "SessEnv \<Rightarrow> Endpoint \<Rightarrow> bytes \<Rightarrow> (Socket World, SessFail, bool) act" where
  "request_udp env target leftover =
    (let tag = route (en_router env) target in
     if is_blackhole tag then abind (count blackholed) (\<lambda>_. aret True)
     else guarded KUdp
       (case outbounds_get (en_outbounds env) tag of
          Some c \<Rightarrow>
            abind (dial_exit env c target Udp) (\<lambda>up.
            abind (on_session (write_all response_bytes)) (\<lambda>_.
            session_udp_chain env up leftover))
        | None \<Rightarrow>
            abind (alift (map_err Fails (proxy_resolve env target))) (\<lambda>addr.
            abind (on_session (write_all response_bytes)) (\<lambda>_.
            session_udp env addr leftover))))"

definition request_tcp :: "SessEnv \<Rightarrow> VisionDialect \<Rightarrow> FlowKind \<Rightarrow> Endpoint \<Rightarrow> bytes \<Rightarrow> (Socket World, SessFail, bool) act" where
  "request_tcp env dialect flow target leftover =
    (let tag = route (en_router env) target in
     if is_blackhole tag then abind (count blackholed) (\<lambda>_. aret True)
     else
       abind (case outbounds_get (en_outbounds env) tag of
           Some c \<Rightarrow> dial_exit env c target Tcp
         | None \<Rightarrow> dial_target env target) (\<lambda>up.
       abind (count (observe_dial (en_elapsed env))) (\<lambda>_.
       abind (set_upstream up) (\<lambda>_.
       abind (on_session (write_all response_bytes)) (\<lambda>_.
       case flow of
         FlowExtended \<Rightarrow> session_vision env dialect up leftover
       | FlowNone \<Rightarrow> session_plain env (outbounds_get (en_outbounds env) tag = None) up leftover)))))"

definition handle_request :: "SessEnv \<Rightarrow> VisionDialect \<Rightarrow> Request \<Rightarrow> bytes \<Rightarrow> (Socket World, SessFail, bool) act" where
  "handle_request env dialect request leftover =
    (if \<not> handle_is_authorized (en_auth env) (req_user request) then
       abind (count rejected_unauthorized) (\<lambda>_. aret True)
     else if req_command request = Mux then
       abind (on_session (write_all response_bytes)) (\<lambda>_. guarded KMux (session_mux env leftover))
     else case req_target request of
       None \<Rightarrow> afail (Fails PUnsupportedCommand)
     | Some target \<Rightarrow>
         if req_command request = Udp then request_udp env target leftover
         else request_tcp env dialect (req_flow request) target leftover)"

definition handle_session :: "SessEnv \<Rightarrow> VisionDialect \<Rightarrow> (Socket World, SessFail, bool) act" where
  "handle_session env dialect w =
    (case read_request [] (w_session w) of
       (Inl e, s) \<Rightarrow> (Inl (Fails e), w\<lparr>w_session := s\<rparr>)
     | (Inr (request, leftover), s) \<Rightarrow> handle_request env dialect request leftover (w\<lparr>w_session := s\<rparr>))"

section \<open>What a session may do\<close>

text \<open>The dials a request entitles its session to.\<close>

definition permitted :: "SessEnv \<Rightarrow> Request \<Rightarrow> Dial \<Rightarrow> bool" where
  "permitted env req d \<longleftrightarrow>
    (\<exists>target. req_target req = Some target \<and> \<not> is_blackhole (route (en_router env) target) \<and>
      (case d of
         ToExit c t command \<Rightarrow> t = target \<and> command = req_command req \<and> command \<noteq> Mux \<and>
           outbounds_get (en_outbounds env) (route (en_router env) target) = Some c
       | ToTarget a \<Rightarrow> req_command req = Tcp \<and> proxy_resolve env target = Inr a \<and>
           outbounds_get (en_outbounds env) (route (en_router env) target) = None
       | ToUdp a \<Rightarrow> req_command req = Udp \<and> proxy_resolve env target = Inr a \<and>
           outbounds_get (en_outbounds env) (route (en_router env) target) = None
       | ToDecoy a \<Rightarrow> False))"

text \<open>A program that dials nothing.\<close>

definition no_dial :: "('s World, 'e, 'a) act \<Rightarrow> bool" where
  "no_dial m \<longleftrightarrow> (\<forall>w. w_dials (snd (m w)) = w_dials w)"

text \<open>A program all of whose dials satisfy \<open>P\<close>.\<close>

definition dials_in :: "(Dial \<Rightarrow> bool) \<Rightarrow> ('s World, 'e, 'a) act \<Rightarrow> bool" where
  "dials_in P m \<longleftrightarrow> (\<forall>w. \<exists>ds. w_dials (snd (m w)) = w_dials w @ ds \<and> (\<forall>d \<in> set ds. P d))"

named_theorems dial_intros

lemma dials_in_none: "no_dial m \<Longrightarrow> dials_in P m"
  by (simp add: no_dial_def dials_in_def)

lemma dials_in_bind [dial_intros]:
  assumes "dials_in P m" and "\<And>x. dials_in P (f x)"
  shows "dials_in P (abind m f)"
  unfolding dials_in_def
proof
  fix w
  obtain ds where ds: "w_dials (snd (m w)) = w_dials w @ ds" "\<forall>d \<in> set ds. P d"
    using assms(1) unfolding dials_in_def by blast
  show "\<exists>ds. w_dials (snd (abind m f w)) = w_dials w @ ds \<and> (\<forall>d \<in> set ds. P d)"
  proof (cases "fst (m w)")
    case (Inl e)
    then show ?thesis
      using ds by (cases "m w") (auto simp: abind_def)
  next
    case (Inr x)
    obtain es where "w_dials (snd (f x (snd (m w)))) = w_dials (snd (m w)) @ es" "\<forall>d \<in> set es. P d"
      using assms(2) [of x] unfolding dials_in_def by blast
    then show ?thesis
      using ds Inr by (intro exI [of _ "ds @ es"]) (cases "m w"; auto simp: abind_def)
  qed
qed

lemma dials_in_guarded [dial_intros]: "dials_in P m \<Longrightarrow> dials_in P (guarded kind m)"
  unfolding dials_in_def
proof
  fix w
  assume "\<forall>w. \<exists>ds. w_dials (snd (m w)) = w_dials w @ ds \<and> (\<forall>d \<in> set ds. P d)"
  from this [rule_format, of "w\<lparr>w_metrics := tunnel_started_kind kind (w_metrics w)\<rparr>"]
  show "\<exists>ds. w_dials (snd (guarded kind m w)) = w_dials w @ ds \<and> (\<forall>d \<in> set ds. P d)"
    by (auto simp: guarded_def split: prod.splits sum.splits bool.splits)
qed

lemma no_dial_simps [dial_intros]:
  "dials_in P (aret x)" "dials_in P (afail e)" "dials_in P (alift r)" "dials_in P (count g)" "dials_in P (set_upstream up)"
  "dials_in P (on_session m)" "dials_in P (copy_both env up)" "dials_in P (upstream_write bs up)"
  "dials_in P (upstream_write_fragmented env frag rec up)" "dials_in P (session_mux env leftover)"
  "dials_in P (session_vision env dialect up leftover)" "dials_in P (session_udp_chain env up leftover)"
  by (auto intro!: dials_in_none simp: no_dial_def aret_def afail_def alift_def count_def set_upstream_def on_session_def
      copy_both_def upstream_write_def upstream_write_fragmented_def session_mux_def session_vision_def session_udp_chain_def Let_def
      split: prod.splits sum.splits MuxPhase.splits VisionDialect.splits)

lemma dials_in_cases [dial_intros]:
  "(\<And>a b. dials_in P (g a b)) \<Longrightarrow> dials_in P (case x of (a, b) \<Rightarrow> g a b)"
  "\<lbrakk>c \<Longrightarrow> dials_in P m; \<not> c \<Longrightarrow> dials_in P m'\<rbrakk> \<Longrightarrow> dials_in P (if c then m else m')"
  by (auto split: prod.splits)

lemma dials_in_plain [dial_intros]: "dials_in P (session_plain env direct up leftover)"
proof -
  have "dials_in P (first_bytes env direct up leftover)"
    by (cases direct; cases "outbounds_fragment (en_outbounds env)") (simp_all add: first_bytes_def dial_intros)
  moreover have "dials_in P (\<lambda>w. (Inr True, w\<lparr>w_upstream := x w, w_session := y w\<rparr>))" for x y
    by (rule dials_in_none) (simp add: no_dial_def)
  ultimately show ?thesis
    unfolding session_plain_def by (intro dials_in_bind no_dial_simps)
qed

lemma dials_in_dial [dial_intros]:
  "P (ToExit c t command) \<Longrightarrow> dials_in P (dial_exit env c t command)"
  "(\<And>a. proxy_resolve env t = Inr a \<Longrightarrow> P (ToTarget a)) \<Longrightarrow> dials_in P (dial_target env t)"
  "P (ToUdp a) \<Longrightarrow> dials_in P (session_udp env a leftover)"
  by (auto simp: dials_in_def dial_exit_def dial_target_def session_udp_def abind_def alift_def log_dial_def
      split: sum.splits prod.splits)

lemma dials_in_resolved:
  "(\<And>a. r = Inr a \<Longrightarrow> dials_in P (g a)) \<Longrightarrow> dials_in P (abind (alift (map_err h r)) g)"
  by (cases r) (auto simp: dials_in_def abind_def alift_def map_err_def)

lemma handle_request_dials:
  assumes "handle_is_authorized (en_auth env) (req_user req)"
  shows "dials_in (permitted env req) (handle_request env dialect req leftover)"
proof (cases "req_target req")
  case None
  then show ?thesis
    using assms by (auto simp: handle_request_def intro!: dial_intros)
next
  case (Some target)
  let ?tag = "route (en_router env) target"
  have udp: "dials_in (permitted env req) (request_udp env target leftover)" if "req_command req = Udp"
  proof (cases "outbounds_get (en_outbounds env) ?tag")
    case None
    then show ?thesis
      unfolding request_udp_def Let_def using Some that
      by (auto intro!: dials_in_cases dials_in_guarded dials_in_resolved dials_in_dial dials_in_bind [OF no_dial_simps(6)]
          dials_in_bind [OF no_dial_simps(4)] no_dial_simps simp: permitted_def)
  next
    case (Some c)
    then show ?thesis
      unfolding request_udp_def Let_def using \<open>req_target req = Some target\<close> that
      by (auto intro!: dial_intros simp: permitted_def)
  qed
  have tcp: "dials_in (permitted env req) (request_tcp env dialect flow target leftover)" if "req_command req = Tcp" for flow
    unfolding request_tcp_def Let_def using Some that
    by (cases flow; cases "outbounds_get (en_outbounds env) ?tag") (auto intro!: dial_intros simp: permitted_def)
  show ?thesis
    using assms Some udp tcp by (cases "req_command req") (auto simp: handle_request_def intro!: dial_intros)
qed

text \<open>An unknown credential changes nothing but a counter.\<close>

lemma handle_request_refused:
  "\<not> handle_is_authorized (en_auth env) (req_user req) \<Longrightarrow>
   handle_request env dialect req leftover w = (Inr True, w\<lparr>w_metrics := rejected_unauthorized (w_metrics w)\<rparr>)"
  by (simp add: handle_request_def abind_def count_def aret_def)

lemma handle_session_cases:
  obtains (bad) e s where "handle_session env dialect w = (Inl (Fails e), w\<lparr>w_session := s\<rparr>)" "tx s = tx (w_session w)"
  | (request) req leftover s where "handle_session env dialect w = handle_request env dialect req leftover (w\<lparr>w_session := s\<rparr>)"
      "request_decode (concat (rx (w_session w))) = Inr (req, leftover @ concat (rx s))" "tx s = tx (w_session w)"
proof -
  obtain r s where r: "read_request [] (w_session w) = (r, s)"
    by fastforce
  note f = client_request.loop_sound [OF r]
  show thesis
  proof (cases r)
    case (Inl e)
    then show thesis
      using bad r f by (simp add: handle_session_def)
  next
    case (Inr x)
    then show thesis
      using request r f by (cases x) (auto simp: handle_session_def)
  qed
qed

section \<open>Properties\<close>


lemma handle_session_request:
  assumes "request_ok req" and "concat (rx (w_session w)) = request_bytes req @ payload"
  shows "\<exists>leftover s. handle_session env dialect w = handle_request env dialect req leftover (w\<lparr>w_session := s\<rparr>) \<and>
    leftover @ concat (rx s) = payload \<and> tx s = tx (w_session w) \<and> tx_room s = tx_room (w_session w) \<and>
    rx_end s = rx_end (w_session w)"
proof -
  have "strict_prefix [] (request_bytes req)"
    using request_round_trip [OF assms(1)]
    by (cases "request_bytes req") (auto simp: request_decode_def get_u8_def get_slice_simps)
  from client_request.loop_exact [OF _ assms(1) this, of "w_session w" payload] assms(2)
  obtain leftover s where "read_request [] (w_session w) = (Inr (req, leftover), s)" "leftover @ concat (rx s) = payload"
      "tx s = tx (w_session w)" "tx_room s = tx_room (w_session w)" "rx_end s = rx_end (w_session w)"
    by auto
  then show ?thesis
    by (intro exI [of _ leftover] exI [of _ s]) (simp add: handle_session_def)
qed

lemma session_plain_exact:
  assumes "sock_copy_ok (en_copy env)" and "direct \<Longrightarrow> outbounds_fragment (en_outbounds env) = None"
    and "rx_end up = None" "tx_room up = None" "rx_end (w_session w) = None" "tx_room (w_session w) = None"
  shows "\<exists>w' u. session_plain env direct up leftover w = (Inr True, w') \<and> w_upstream w' = Some u \<and> sk_shut u \<and>
    tx u = tx up @ leftover @ concat (rx (w_session w)) \<and> tx (w_session w') = tx (w_session w) @ concat (rx up) \<and>
    sk_shut (w_session w') \<and> w_dials w' = w_dials w"
proof -
  let ?up = "up\<lparr>tx := tx up @ leftover\<rparr>"
  have "first_bytes env direct up leftover = (if leftover \<noteq> [] then upstream_write leftover up else aret up)"
    using assms(2) by (cases direct; cases "outbounds_fragment (en_outbounds env)") (simp_all add: first_bytes_def)
  then obtain w1 where w1: "first_bytes env direct up leftover w = (Inr ?up, w1)" "w_session w1 = w_session w" "w_dials w1 = w_dials w"
    using assms(4) by (cases "leftover = []") (auto simp: upstream_write_def aret_def write_all_open)
  obtain s' u' res where c: "en_copy env (w_session w) ?up = (s', u', res)"
    by (cases "en_copy env (w_session w) ?up")
  have "tx s' = tx (w_session w) @ concat (rx up)" "tx u' = tx up @ leftover @ concat (rx (w_session w))"
    using assms(1) [unfolded sock_copy_ok_def, rule_format, of "w_session w" ?up] assms(3-6) c by simp_all
  then show ?thesis
    using w1 c by (simp add: session_plain_def abind_def copy_both_def sock_shutdown_def)
qed

text \<open>
  C35.  A plain TCP session is an exact pipe to the selected egress.  For a well-formed request of
  a known user, however its bytes and the payload are cut, once the egress the router picks
  has been dialled (the exit of the tag, or the resolved target itself) the upstream
  receives exactly the payload behind the header, the client receives the response header
  and then exactly what the upstream sent, both are closed, and nothing else was dialled.
\<close>

theorem session_tcp_exact:
  assumes "request_ok req" and "req_command req = Tcp" and "req_flow req = FlowNone" and "req_target req = Some target"
    and "req_user req \<in> set (users (snapshot (en_auth env)))" and "\<not> is_blackhole (route (en_router env) target)"
    and "concat (rx (w_session w)) = request_bytes req @ payload" and "tx (w_session w) = []"
    and "rx_end (w_session w) = None" and "tx_room (w_session w) = None" and "w_dials w = []"
    and "(case outbounds_get (en_outbounds env) (route (en_router env) target) of
        Some c \<Rightarrow> dial = ToExit c target Tcp \<and> rbind (dial_command (en_chain env) c target Tcp) (\<lambda>p. Inr (exit_socket p)) = Inr up
      | None \<Rightarrow> \<exists>a. dial = ToTarget a \<and> proxy_resolve env target = Inr a \<and> en_connect env a = Inr up \<and>
          outbounds_fragment (en_outbounds env) = None)"
    and "rx_end up = None" and "tx_room up = None" and "sock_copy_ok (en_copy env)"
  shows "\<exists>w' u. handle_session env dialect w = (Inr True, w') \<and> w_dials w' = [dial] \<and>
    w_upstream w' = Some u \<and> tx u = tx up @ payload \<and> sk_shut u \<and>
    tx (w_session w') = response_bytes @ concat (rx up) \<and> sk_shut (w_session w')"
proof -
  obtain leftover s where s: "handle_session env dialect w = handle_request env dialect req leftover (w\<lparr>w_session := s\<rparr>)"
      "leftover @ concat (rx s) = payload" "tx s = []" "tx_room s = None" "rx_end s = None"
    using handle_session_request [OF assms(1,7), of env dialect] assms(8-10) by auto
  let ?direct = "outbounds_get (en_outbounds env) (route (en_router env) target) = None"
  define w1 where "w1 = w\<lparr>w_dials := [dial], w_metrics := observe_dial (en_elapsed env) (w_metrics w),
    w_upstream := Some up, w_session := s\<lparr>tx := response_bytes\<rparr>\<rparr>"
  have auth: "handle_is_authorized (en_auth env) (req_user req)"
    using assms(5) by (simp add: handle_is_authorized_def is_authorized_iff)
  have "handle_session env dialect w = session_plain env ?direct up leftover w1"
    unfolding s(1) using auth assms(2-4,6,11,12) s(3,4)
    by (auto simp: handle_request_def request_tcp_def Let_def abind_def dial_exit_def dial_target_def log_dial_def
        alift_def count_def set_upstream_def on_session_def write_all_open w1_def map_err_def split: option.splits sum.splits)
  moreover have "\<exists>w' u. session_plain env ?direct up leftover w1 = (Inr True, w') \<and> w_upstream w' = Some u \<and> sk_shut u \<and>
      tx u = tx up @ leftover @ concat (rx (w_session w1)) \<and> tx (w_session w') = tx (w_session w1) @ concat (rx up) \<and>
      sk_shut (w_session w') \<and> w_dials w' = w_dials w1"
    using assms(12) s(4,5) by (intro session_plain_exact [OF assms(15) _ assms(13,14)]) (auto simp: w1_def)
  ultimately show ?thesis
    using s(2) by (auto simp: w1_def)
qed

definition plain_request :: Request where
  "plain_request = \<lparr>req_user = 7, req_flow = FlowNone, req_command = Tcp,
    req_target = Some \<lparr>address = Ip (V4 9), port = 443\<rparr>, req_seed = []\<rparr>"

definition sample_env :: SessEnv where
  "sample_env =
    \<lparr>en_auth = \<lparr>snapshot = \<lparr>users = [7]\<rparr>\<rparr>, en_router = \<lparr>rules = [], default_outbound = str ''freedom''\<rparr>,
     en_outbounds = outbounds_default, en_lookup = (\<lambda>_. None), en_chain = sample_cascade,
     en_connect = (\<lambda>_. Inr (open_sock [[5], [6]])), en_elapsed = 0,
     en_bind = (\<lambda>_. Inl ConnectionRefused), en_udp_connect = (\<lambda>_ s. Inr s), en_udp_events = [],
     en_mux_net = (\<lambda>_. sample_mux_net), en_mux_events = [], en_copy = sample_sock_copy, en_io_copy = sample_copy_to,
     en_draws = (\<lambda>_. 0), en_frag_draws = (\<lambda>_. 0)\<rparr>"

definition sample_world :: "Socket World" where
  "sample_world = \<lparr>w_session = open_sock [take 9 (request_bytes plain_request), drop 9 (request_bytes plain_request) @ [1], [2]],
    w_upstream = None, w_fragment = None, w_dials = [], w_metrics = metrics_new\<rparr>"

lemma plain_request_ok: "request_ok plain_request"
  by (simp add: plain_request_def request_ok_def request_addons_def addons_ok_def addons_encoded_len_def)

lemma sample_session:
  "req_user plain_request \<in> set (users (snapshot (en_auth sample_env)))"
  "\<not> is_blackhole (route (en_router sample_env) \<lparr>address = Ip (V4 9), port = 443\<rparr>)"
  "concat (rx (w_session sample_world)) = request_bytes plain_request @ [1, 2]"
  "sock_copy_ok (en_copy sample_env)"
  by (simp_all add: plain_request_def sample_env_def sample_world_def is_blackhole_def route_def open_sock_def
      sock_copy_ok_def sample_sock_copy_def)

theorem session_tcp_exact_witness:
  "\<exists>w' u. handle_session sample_env Donut sample_world = (Inr True, w') \<and>
    w_dials w' = [ToTarget \<lparr>sa_ip = V4 9, sa_port = 443\<rparr>] \<and>
    w_upstream w' = Some u \<and> tx u = [1, 2] \<and> sk_shut u \<and>
    tx (w_session w') = response_bytes @ [5, 6] \<and> sk_shut (w_session w')"
  using session_tcp_exact [OF plain_request_ok _ _ _ sample_session(1,2,3), of "ToTarget \<lparr>sa_ip = V4 9, sa_port = 443\<rparr>"
      "open_sock [[5], [6]]" Donut] sample_session(4)
  by (simp add: plain_request_def sample_world_def sample_env_def open_sock_def outbounds_default_def outbounds_get_def
      outbounds_fragment_def proxy_resolve_def)

definition sample_mux_world :: "Socket World" where
  "sample_mux_world = sample_world\<lparr>w_session := open_sock [request_bytes (plain_request\<lparr>req_command := Mux, req_target := None\<rparr>)]\<rparr>"

lemma sample_mux_session: "tx (w_session (snd (handle_session sample_env Donut sample_mux_world))) = response_bytes"
proof -
  let ?req = "plain_request\<lparr>req_command := Mux, req_target := None\<rparr>"
  have "request_ok ?req"
    by (simp add: plain_request_def request_ok_def request_addons_def addons_ok_def addons_encoded_len_def)
  then obtain leftover s where h: "handle_session sample_env Donut sample_mux_world =
      handle_request sample_env Donut ?req leftover (sample_mux_world\<lparr>w_session := s\<rparr>)" "tx s = []" "tx_room s = None"
    using handle_session_request [of ?req sample_mux_world "[]" sample_env Donut]
    by (auto simp: sample_mux_world_def open_sock_def)
  then show ?thesis
    by (simp add: handle_request_def handle_is_authorized_def is_authorized_iff sample_env_def plain_request_def abind_def
        on_session_def write_all_open guarded_def session_mux_def mux_relay_def mux_start_def Let_def map_err_def)
qed


end
