(* ===== verification/Xray_Session.thy ===== *)
theory Xray_Session
  imports Proxy_Session Selfsteal Donut_Config
begin

text \<open>
  Sessions over the record-driven TLS connection (\<^verbatim>\<open>handle_xray_vision_session\<close>) and what happens
  to a connection before it is a session: the raw and the REALITY listeners of
  \<^verbatim>\<open>donut-server/src/proxy.rs\<close>, with the relay of everything else to the decoy.
\<close>

declare concat_eq_Nil_conv [simp del] Nil_eq_concat_conv [simp del]

section \<open>The first records\<close>

datatype XrayHead = HeadEof | HeadProbe bytes | HeadRequest Request bytes

lemma read_record_opt_consumes:
  assumes "read_record_opt eng t = (Inr (Some pt), t')"
  shows "length (rt_unread t') < length (rt_unread t)"
proof -
  obtain n t1 u1 t2 u2 t3 u3 t4 out where s: "ensure_one_record t = (Inr (Some n), t1)" "feed_record eng n t1 = (Inr u1, t2)"
      "process_packets eng t2 = (Inr u2, t3)" "flush_tls eng t3 = (Inr u3, t4)" "read_plaintext eng t4 = (Inr out, t')"
    using assms by (auto simp: read_record_opt_def abind_eq_Inr aret_def split: option.splits)
  have 1: "rt_unread t1 = rt_unread t" "record_total (rt_inbuf t1) = Some n"
    using ensure_one_record_Inr [OF s(1)] by simp_all
  have "rt_unread t3 = drop n (rt_inbuf t1) @ concat (rx (rt_tcp t1))"
    using s(2,3) by (auto simp: feed_record_def process_packets_def rt_unread_def split: sum.splits)
  moreover have "rt_unread t' = rt_unread t3"
    using flush_tls_Inr [OF s(4)] s(5) by (auto simp: read_plaintext_def rt_unread_def split: sum.splits)
  moreover have "length (drop n (rt_inbuf t1) @ concat (rx (rt_tcp t1))) < length (rt_unread t1)"
    using record_total_bounds [OF 1(2)] by (auto simp: rt_unread_def intro!: diff_less)
  ultimately show ?thesis
    using 1 by simp
qed

lemma read_record_consumes:
  "read_record eng t = (Inr (b # bs), t') \<Longrightarrow> length (rt_unread t') < length (rt_unread t)"
  by (auto simp: read_record_def abind_eq_Inr aret_def split: option.splits dest: read_record_opt_consumes)

function xray_head :: "'c TlsEngine \<Rightarrow> bytes \<Rightarrow> 'c RecordTlsServer \<Rightarrow> (ProxyError + XrayHead) \<times> 'c RecordTlsServer" where
  "xray_head eng buf t =
    (case read_record eng t of
       (Inl e, t') \<Rightarrow> (Inl (PIo e), t')
     | (Inr [], t') \<Rightarrow> (Inr HeadEof, t')
     | (Inr (b # bs), t') \<Rightarrow>
         let buf = buf @ b # bs in
         if hd buf \<noteq> VERSION then (Inr (HeadProbe buf), t')
         else case request_decode buf of
           Inr (r, rest) \<Rightarrow> (Inr (HeadRequest r rest), t')
         | Inl e \<Rightarrow> if is_truncated e then xray_head eng buf t' else (Inl (PWire e), t'))"
  by pat_completeness auto
termination
  by (relation "measure (\<lambda>(eng, buf, t). length (rt_unread t))") (auto dest: read_record_consumes [OF sym])

declare xray_head.simps [simp del]

section \<open>The relays\<close>

record XrayEnv = SessEnv +
  en_plain_events :: "bool list"
  en_splice_events :: "SpliceEvent list"

abbreviation sess_env :: "XrayEnv \<Rightarrow> SessEnv" where
  "sess_env \<equiv> SessEnv.truncate"

text \<open>How a relay's result is counted and returned.\<close>

definition finish :: "ErrorKind + bool \<Rightarrow> ('s World, SessFail, bool) act" where
  "finish r w =
    (case r of
       Inl e \<Rightarrow> (Inl (io_fail e), w\<lparr>w_metrics := session_error (sess_err_from_io e) (w_metrics w)\<rparr>)
     | Inr over \<Rightarrow> (Inr over, if over then w\<lparr>w_metrics := session_ok (w_metrics w)\<rparr> else w))"

definition xray_plain ::
    "'c TlsEngine \<Rightarrow> XrayEnv \<Rightarrow> Socket \<Rightarrow> bytes \<Rightarrow> ('c RecordTlsServer World, SessFail, bool) act" where
  "xray_plain eng env up leftover w =
    (case tls_plain_relay eng (en_plain_events env) (w_session w) up leftover (Some (w_metrics w)) of
       (r, st) \<Rightarrow> finish r (w\<lparr>w_session := pr_tunnel st, w_upstream := Some (pr_target st),
         w_metrics := (case pr_metrics st of Some m \<Rightarrow> m | None \<Rightarrow> w_metrics w)\<rparr>))"

definition xray_splice ::
    "'c TlsEngine \<Rightarrow> XrayEnv \<Rightarrow> Socket \<Rightarrow> bytes \<Rightarrow> bytes \<Rightarrow> ('c RecordTlsServer World, SessFail, bool) act" where
  "xray_splice eng env up leftover uuid w =
    (case vision_server_splice eng (en_copy env) (en_splice_events env) (w_session w) up leftover uuid (w_metrics w) of
       (r, st) \<Rightarrow> finish r (w\<lparr>w_session := sp_tunnel st, w_upstream := Some (sp_upstream st), w_metrics := sp_metrics st\<rparr>))"

definition xray_udp ::
    "'c TlsEngine \<Rightarrow> XrayEnv \<Rightarrow> SocketAddr \<Rightarrow> bytes \<Rightarrow> ('c RecordTlsServer World, SessFail, bool) act" where
  "xray_udp eng env addr leftover w =
    (let w = w\<lparr>w_dials := w_dials w @ [ToUdp addr]\<rparr> in
     case vision_udp_relay (record_mux_io eng) (en_bind env) (en_udp_connect env) (en_udp_events env)
         (w_session w) addr leftover (w_metrics w) of
       Inl e \<Rightarrow> finish (Inl e) w
     | Inr (r, st) \<Rightarrow> finish r (w\<lparr>w_session := ur_tunnel st, w_metrics := ur_metrics st\<rparr>))"

definition xray_mux ::
    "'c TlsEngine \<Rightarrow> XrayEnv \<Rightarrow> bytes option \<Rightarrow> bytes \<Rightarrow> ('c RecordTlsServer World, SessFail, bool) act" where
  "xray_mux eng env vision leftover w =
    (let st = mux_relay
           \<lparr>me_io = record_mux_io eng, me_net = en_mux_net env, me_router = en_router env,
            me_outbounds = en_outbounds env, me_draws = en_draws env\<rparr>
           (w_session w) leftover (w_metrics w) vision (en_mux_events env);
         w = w\<lparr>w_session := mx_tunnel st, w_metrics := mx_metrics st\<rparr>
     in case mx_phase st of
          Ended r \<Rightarrow> finish (case r of Inl e \<Rightarrow> Inl e | Inr _ \<Rightarrow> Inr True) w
        | _ \<Rightarrow> (Inr False, w))"

definition xray_decoy ::
    "'c TlsEngine \<Rightarrow> XrayEnv \<Rightarrow> SocketAddr option \<Rightarrow> bytes \<Rightarrow> ('c RecordTlsServer World, SessFail, bool) act" where
  "xray_decoy eng env decoy probe_bytes w =
    (case decoy of
       None \<Rightarrow> (Inr True, w)
     | Some d \<Rightarrow>
         let w = w\<lparr>w_metrics := forwarded (w_metrics w), w_dials := w_dials w @ [ToDecoy d]\<rparr> in
         case en_connect env d of
           Inl _ \<Rightarrow> (Inr True, w)
         | Inr up \<Rightarrow>
             (case tls_plain_relay eng (en_plain_events env) (w_session w) up probe_bytes None of
                (r, st) \<Rightarrow>
                  (Inr (case r of Inl _ \<Rightarrow> True | Inr over \<Rightarrow> over),
                   w\<lparr>w_session := pr_tunnel st, w_upstream := Some (pr_target st)\<rparr>)))"

section \<open>The handler\<close>

text \<open>A dial whose failure is counted.\<close>

definition counted_dial :: "('s World, SessFail, Socket) act \<Rightarrow> ('s World, SessFail, Socket) act" where
  "counted_dial m w =
    (case m w of
       (Inl e, w) \<Rightarrow> (Inl e, w\<lparr>w_metrics := session_error EDial (w_metrics w)\<rparr>)
     | (Inr up, w) \<Rightarrow> (Inr up, w))"

definition xray_request_udp ::
    "'c TlsEngine \<Rightarrow> XrayEnv \<Rightarrow> Endpoint \<Rightarrow> bytes \<Rightarrow> ('c RecordTlsServer World, SessFail, bool) act" where
  "xray_request_udp eng env target leftover =
    (case outbounds_get (en_outbounds env) (route (en_router env) target) of
       Some c \<Rightarrow>
         abind (counted_dial (dial_exit (sess_env env) c target Udp)) (\<lambda>up.
         abind (count (observe_dial (en_elapsed env))) (\<lambda>_.
         abind (on_session (write_plaintext eng response_bytes)) (\<lambda>_.
         guarded KUdp (xray_plain eng env up leftover))))
     | None \<Rightarrow>
         abind (alift (map_err Fails (proxy_resolve (sess_env env) target))) (\<lambda>addr.
         abind (on_session (write_plaintext eng response_bytes)) (\<lambda>_.
         guarded KUdp (xray_udp eng env addr leftover))))"

definition connect_target :: "XrayEnv \<Rightarrow> SocketAddr \<Rightarrow> ('s World, SessFail, Socket) act" where
  "connect_target env addr =
    abind (log_dial (ToTarget addr)) (\<lambda>_. alift (map_err io_fail (en_connect env addr)))"

definition wrap_fragment :: "XrayEnv \<Rightarrow> ('s World, SessFail, unit) act" where
  "wrap_fragment env w = (Inr (), w\<lparr>w_fragment := outbounds_fragment (en_outbounds env)\<rparr>)"

definition xray_request_tcp ::
    "'c TlsEngine \<Rightarrow> XrayEnv \<Rightarrow> FlowKind \<Rightarrow> bytes \<Rightarrow> Endpoint \<Rightarrow> bytes \<Rightarrow> ('c RecordTlsServer World, SessFail, bool) act" where
  "xray_request_tcp eng env flow uuid target leftover =
    abind
      (case outbounds_get (en_outbounds env) (route (en_router env) target) of
         Some c \<Rightarrow>
           abind (counted_dial (dial_exit (sess_env env) c target Tcp)) (\<lambda>up.
           abind (count (observe_dial (en_elapsed env))) (\<lambda>_. aret up))
       | None \<Rightarrow>
           abind (alift (map_err Fails (proxy_resolve (sess_env env) target))) (\<lambda>addr.
           abind (counted_dial (connect_target env addr)) (\<lambda>up.
           abind (count (observe_dial (en_elapsed env))) (\<lambda>_.
           abind (wrap_fragment env) (\<lambda>_. aret up))))) (\<lambda>up.
    abind (set_upstream up) (\<lambda>_.
    abind (on_session (write_plaintext eng response_bytes)) (\<lambda>_.
    guarded KTcp
      (case flow of
         FlowExtended \<Rightarrow> xray_splice eng env up leftover uuid
       | FlowNone \<Rightarrow> xray_plain eng env up leftover))))"

definition xray_request ::
    "'c TlsEngine \<Rightarrow> XrayEnv \<Rightarrow> Request \<Rightarrow> bytes \<Rightarrow> ('c RecordTlsServer World, SessFail, bool) act" where
  "xray_request eng env request leftover =
    (if \<not> handle_is_authorized (en_auth env) (req_user request) then
       abind (count rejected_unauthorized) (\<lambda>_. aret True)
     else
       let uuid = user_as_bytes (req_user request) in
       if req_command request = Mux then
         abind (on_session (write_plaintext eng response_bytes)) (\<lambda>_.
         guarded KMux (xray_mux eng env (if req_flow request = FlowExtended then Some uuid else None) leftover))
       else case req_target request of
         None \<Rightarrow> abind (count (session_error EUnsupported)) (\<lambda>_. afail (Fails PUnsupportedCommand))
       | Some target \<Rightarrow>
           if is_blackhole (route (en_router env) target) then abind (count blackholed) (\<lambda>_. aret True)
           else if req_command request = Udp then xray_request_udp eng env target leftover
           else xray_request_tcp eng env (req_flow request) uuid target leftover)"

definition handle_xray_vision_session ::
    "'c TlsEngine \<Rightarrow> XrayEnv \<Rightarrow> SocketAddr option \<Rightarrow> ('c RecordTlsServer World, SessFail, bool) act" where
  "handle_xray_vision_session eng env decoy w =
    (case xray_head eng [] (w_session w) of
       (Inl e, t) \<Rightarrow> (Inl (Fails e), w\<lparr>w_session := t\<rparr>)
     | (Inr HeadEof, t) \<Rightarrow> (Inr True, w\<lparr>w_session := t\<rparr>)
     | (Inr (HeadProbe p), t) \<Rightarrow> xray_decoy eng env decoy p (w\<lparr>w_session := t\<rparr>)
     | (Inr (HeadRequest request leftover), t) \<Rightarrow> xray_request eng env request leftover (w\<lparr>w_session := t\<rparr>))"

section \<open>Connections\<close>

text \<open>
  What a listener does with one accepted connection.  A session's world starts with the tunnel,
  no upstream and no dials.  The deadline of a TLS handshake is \<open>expired\<close>: the state in which it
  expired, if it did.
\<close>

datatype 'c ConnEnd =
    ConnDropped Metrics
  | ConnForwarded TcpStream TcpStream Metrics
  | ConnServed "SessFail + bool" "'c World"

definition world_of :: "'s \<Rightarrow> Metrics \<Rightarrow> 's World" where
  "world_of t m = \<lparr>w_session = t, w_upstream = None, w_fragment = None, w_dials = [], w_metrics = m\<rparr>"

definition served :: "('s World, SessFail, bool) act \<Rightarrow> 's World \<Rightarrow> 's ConnEnd" where
  "served m w = (case m w of (r, w) \<Rightarrow> ConnServed r w)"

definition handshake_within ::
    "'c TlsEngine \<Rightarrow> 'c RecordTlsServer option \<Rightarrow> ('c RecordTlsServer, ErrorKind, unit) act" where
  "handshake_within eng expired t = (case expired of Some t' \<Rightarrow> (Inl TimedOut, t') | None \<Rightarrow> handshake eng t)"

definition raw_xray_connection ::
    "'c TlsEngine \<Rightarrow> unit + 'c \<Rightarrow> XrayEnv \<Rightarrow> SocketAddr option \<Rightarrow> 'c RecordTlsServer option \<Rightarrow> Socket \<Rightarrow> Metrics
      \<Rightarrow> 'c RecordTlsServer ConnEnd" where
  "raw_xray_connection eng conn env decoy expired tcp m =
    (let m = connection_accepted m in
     case rt_new tcp conn of
       Inl _ \<Rightarrow> ConnDropped m
     | Inr tunnel \<Rightarrow>
         (case handshake_within eng expired tunnel of
            (Inl _, tunnel) \<Rightarrow>
              ConnDropped (if rt_bytes_read tunnel = 0 then probe m else session_error ETls m)
          | (Inr _, tunnel) \<Rightarrow>
              served (handle_xray_vision_session eng (env\<lparr>en_outbounds := outbounds_default\<rparr>) decoy) (world_of tunnel m)))"

text \<open>\<open>relay_to_decoy\<close>: an unreachable decoy closes the connection.\<close>

definition relay_to_decoy :: "SessEnv \<Rightarrow> SocketAddr \<Rightarrow> (Socket World, SessFail, bool) act" where
  "relay_to_decoy env decoy w =
    (let w = w\<lparr>w_dials := w_dials w @ [ToDecoy decoy]\<rparr> in
     case en_connect env decoy of
       Inl _ \<Rightarrow> (Inr True, w)
     | Inr up \<Rightarrow>
         (case en_copy env (w_session w) up of
            (client, up, _) \<Rightarrow> (Inr True, w\<lparr>w_session := client, w_upstream := Some (sock_shutdown up)\<rparr>)))"

definition raw_donut_connection ::
    "(Socket \<Rightarrow> ErrorKind + Socket) \<Rightarrow> SessEnv \<Rightarrow> SocketAddr option \<Rightarrow> Socket \<Rightarrow> Metrics \<Rightarrow> Socket ConnEnd" where
  "raw_donut_connection accept env decoy tcp m =
    (let m = connection_accepted m in
     case accept tcp of
       Inl _ \<Rightarrow> ConnDropped m
     | Inr tls \<Rightarrow>
         (case read_some 1 tls of
            (Inr (first # _), tls) \<Rightarrow>
              if first = VERSION then
                served (guarded KTcp (handle_session (env\<lparr>en_outbounds := outbounds_default\<rparr>) Donut))
                  (world_of (replay [first] tls) m)
              else (case decoy of
                  Some d \<Rightarrow> served (relay_to_decoy env d) (world_of (replay [first] tls) (forwarded m))
                | None \<Rightarrow> ConnDropped m)
          | _ \<Rightarrow> ConnDropped m))"

definition reality_connection ::
    "VeilCrypto \<Rightarrow> (TcpStream \<Rightarrow> TcpStream \<Rightarrow> TcpStream \<times> TcpStream) \<Rightarrow> VeilServerConfig \<Rightarrow> u32 \<Rightarrow> ErrorKind + TcpStream
      \<Rightarrow> 'c TlsEngine \<Rightarrow> unit + 'c \<Rightarrow> XrayEnv \<Rightarrow> SocketAddr \<Rightarrow> 'c RecordTlsServer option \<Rightarrow> TcpStream \<Rightarrow> Metrics
      \<Rightarrow> 'c RecordTlsServer ConnEnd" where
  "reality_connection cr copy veil now dest_conn eng conn env dest expired tcp m =
    (let m = connection_accepted m in
     case triage cr copy veil now dest_conn tcp of
       Inl _ \<Rightarrow> ConnDropped m
     | Inr (TriageForwarded client upstream) \<Rightarrow> ConnForwarded client upstream (forwarded m)
     | Inr (TriageTunnel client pfx _) \<Rightarrow>
         (case rt_new_with_prefix (TcpStream.extend client \<lparr>sk_shut = False\<rparr>) conn pfx of
            Inl _ \<Rightarrow> ConnDropped m
          | Inr tunnel \<Rightarrow>
              (case handshake_within eng expired tunnel of
                 (Inl _, _) \<Rightarrow> ConnDropped (session_error ETls m)
               | (Inr _, tunnel) \<Rightarrow>
                   served (guarded KTcp (handle_xray_vision_session eng env (Some dest))) (world_of tunnel m))))"

section \<open>The carrier listeners\<close>

text \<open>
  The listeners that hand over carrier sessions: each session runs \<open>handle_session\<close> on the
  carrier's stream; only the veil port has chain outbounds.
\<close>

definition tuning_from_config :: "TuningConfig \<Rightarrow> RuntimeTuning" where
  "tuning_from_config t =
    \<lparr>rt_mux_idle = unat (tu_mux_idle_secs t) * 1000, rt_udp_idle = unat (tu_udp_idle_secs t) * 1000,
     rt_accept_backoff = unat (tu_accept_backoff_ms t),
     rt_tls_handshake_timeout = unat (tu_tls_handshake_timeout_secs t) * 1000, rt_tcp_idle = unat (tu_tcp_idle_secs t) * 1000\<rparr>"

definition runtime_tuning_default :: RuntimeTuning where
  "runtime_tuning_default = tuning_from_config tuning_default"

definition carrier_proxy_session :: "SessEnv \<Rightarrow> Socket \<Rightarrow> Metrics \<Rightarrow> Socket ConnEnd" where
  "carrier_proxy_session env s m =
    served (handle_session (env\<lparr>en_router := router_new (str ''freedom''), en_outbounds := outbounds_default\<rparr>) Donut) (world_of s m)"

definition carrier_backend_session :: "SessEnv \<Rightarrow> Socket \<Rightarrow> Metrics \<Rightarrow> Socket ConnEnd" where
  "carrier_backend_session env s m =
    served (guarded KTcp (handle_session (env\<lparr>en_outbounds := outbounds_default\<rparr>) Donut)) (world_of s (connection_accepted m))"

definition quic_proxy_session :: "SessEnv \<Rightarrow> Socket \<Rightarrow> Metrics \<Rightarrow> Socket ConnEnd" where
  "quic_proxy_session env s m =
    served (guarded KTcp (handle_session (env\<lparr>en_outbounds := outbounds_default\<rparr>) Donut)) (world_of s (connection_accepted m))"

definition tls_carrier_session :: "SessEnv \<Rightarrow> Socket \<Rightarrow> Metrics \<Rightarrow> Socket ConnEnd" where
  "tls_carrier_session env s m =
    served (guarded KTcp (handle_session (env\<lparr>en_outbounds := outbounds_default\<rparr>) Donut)) (world_of s m)"

text \<open>
  A veil connection: the gauge is up for its life, the sessions the carrier finds on it run
  beside each other; what they do to their worlds is in the result.
\<close>

fun veil_sessions :: "SessEnv \<Rightarrow> Socket list \<Rightarrow> Metrics \<Rightarrow> ((SessFail + bool) \<times> Socket World) list \<times> Metrics" where
  "veil_sessions env [] m = ([], m)"
| "veil_sessions env (s # ss) m =
    (case handle_session env Donut (world_of s m) of
       (r, w) \<Rightarrow> (case veil_sessions env ss (w_metrics w) of (rs, m) \<Rightarrow> ((r, w) # rs, m)))"

definition veil_connection ::
    "VeilCrypto \<Rightarrow> (TcpStream \<Rightarrow> TcpStream \<Rightarrow> TcpStream \<times> TcpStream) \<Rightarrow> VeilServerConfig \<Rightarrow> u32
      \<Rightarrow> (PrefixedStream \<Rightarrow> ErrorKind + TcpStream) \<Rightarrow> ErrorKind + TcpStream \<Rightarrow> (TcpStream \<Rightarrow> Socket list) \<Rightarrow> SessEnv
      \<Rightarrow> TcpStream \<Rightarrow> Metrics \<Rightarrow> ((SessFail + bool) \<times> Socket World) list \<times> Metrics" where
  "veil_connection cr copy veil now accept dest serve_connection env tcp m =
    (let m = connection_accepted m in
     case veil_server_handle cr copy veil now accept dest tcp of
       Inr (Some tls) \<Rightarrow>
         (case veil_sessions env (serve_connection tls) (tunnel_started m) of (rs, m) \<Rightarrow> (rs, guard_drop KTcp m))
     | Inr None \<Rightarrow> ([], forwarded m)
     | Inl _ \<Rightarrow> ([], m))"

section \<open>What a session may do\<close>

text \<open>A run of non-empty records, one after another.\<close>

inductive reads :: "'c TlsEngine \<Rightarrow> 'c RecordTlsServer \<Rightarrow> bytes list \<Rightarrow> 'c RecordTlsServer \<Rightarrow> bool" where
  reads_nil: "reads eng t [] t"
| reads_cons: "\<lbrakk>read_record eng t = (Inr p, t1); p \<noteq> []; reads eng t1 ps t2\<rbrakk> \<Longrightarrow> reads eng t (p # ps) t2"

inductive_cases reads_NilE: "reads eng t [] t'"
inductive_cases reads_ConsE: "reads eng t (p # ps) t'"

text \<open>What the first records \<open>ps\<close> say when the read-ahead \<open>buf\<close> is in front of them.\<close>

definition head_says :: "bytes \<Rightarrow> bytes list \<Rightarrow> XrayHead \<Rightarrow> bool" where
  "head_says buf ps h \<longleftrightarrow>
    (case h of
       HeadEof \<Rightarrow> True
     | HeadProbe p \<Rightarrow> p = buf @ concat ps \<and> p \<noteq> [] \<and> hd p \<noteq> VERSION
     | HeadRequest req rest \<Rightarrow> request_decode (buf @ concat ps) = Inr (req, rest))"

lemma head_says_append: "head_says (buf @ p) ps h = head_says buf (p # ps) h"
  by (cases h) (simp_all add: head_says_def)

lemma xray_head_step:
  assumes "xray_head eng buf t = (Inr h, t')" and "h \<noteq> HeadEof"
  shows "\<exists>p t1. read_record eng t = (Inr p, t1) \<and> p \<noteq> [] \<and>
    (t' = t1 \<and> head_says buf [p] h \<or>
     hd (buf @ p) = VERSION \<and> (\<exists>e. request_decode (buf @ p) = Inl e \<and> is_truncated e) \<and> xray_head eng (buf @ p) t1 = (Inr h, t'))"
proof -
  obtain b bs t1 where rd: "read_record eng t = (Inr (b # bs), t1)"
    using assms by (auto simp: xray_head.simps [of eng buf t] split: prod.splits sum.splits list.splits)
  then show ?thesis
    using assms
    by (intro exI [of _ "b # bs"] exI [of _ t1])
       (auto simp: xray_head.simps [of eng buf t] Let_def head_says_def split: if_splits sum.splits)
qed

lemma xray_head_sound:
  "\<lbrakk>xray_head eng buf t = (Inr h, t'); h \<noteq> HeadEof\<rbrakk> \<Longrightarrow> \<exists>ps. reads eng t ps t' \<and> head_says buf ps h"
proof (induction "length (rt_unread t)" arbitrary: buf t rule: less_induct)
  case less
  from xray_head_step [OF less.prems] obtain p t1 where p: "read_record eng t = (Inr p, t1)" "p \<noteq> []"
    and c: "t' = t1 \<and> head_says buf [p] h \<or> xray_head eng (buf @ p) t1 = (Inr h, t')"
    by blast
  have "\<exists>ps. reads eng t1 ps t' \<and> head_says buf (p # ps) h"
  proof (cases "t' = t1 \<and> head_says buf [p] h")
    case True
    then show ?thesis
      using reads_nil by blast
  next
    case False
    moreover have "length (rt_unread t1) < length (rt_unread t)"
      using p read_record_consumes by (cases p) auto
    ultimately show ?thesis
      using less.hyps [of t1 "buf @ p"] less.prems(2) c by (auto simp: head_says_append)
  qed
  then show ?case
    using reads_cons [OF p] by blast
qed

lemma dials_in_xray [dial_intros]:
  "dials_in P (xray_plain eng env up leftover)" "dials_in P (xray_splice eng env up leftover uuid)"
  "dials_in P (xray_mux eng env vision leftover)" "dials_in P (wrap_fragment env)"
  "P (ToUdp a) \<Longrightarrow> dials_in P (xray_udp eng env a leftover)" "P (ToTarget a) \<Longrightarrow> dials_in P (connect_target env a)"
proof -
  have f: "w_dials (snd (finish r w)) = w_dials w" for r and w :: "'z World"
    by (simp add: finish_def split: sum.splits)
  show "dials_in P (xray_plain eng env up leftover)" "dials_in P (xray_splice eng env up leftover uuid)"
    "dials_in P (xray_mux eng env vision leftover)" "dials_in P (wrap_fragment env)"
    by (auto intro!: dials_in_none simp: no_dial_def xray_plain_def xray_splice_def xray_mux_def wrap_fragment_def f Let_def
        split: prod.splits MuxPhase.splits)
  show "dials_in P (xray_udp eng env a leftover)" if "P (ToUdp a)"
    using that by (auto simp: dials_in_def xray_udp_def f Let_def split: prod.splits sum.splits)
  show "dials_in P (connect_target env a)" if "P (ToTarget a)"
    using that by (auto simp: dials_in_def connect_target_def abind_def alift_def log_dial_def)
qed

lemma dials_in_counted [dial_intros]: "dials_in P m \<Longrightarrow> dials_in P (counted_dial m)"
  unfolding dials_in_def
proof
  fix w
  assume "\<forall>w. \<exists>ds. w_dials (snd (m w)) = w_dials w @ ds \<and> (\<forall>d \<in> set ds. P d)"
  from this [rule_format, of w] show "\<exists>ds. w_dials (snd (counted_dial m w)) = w_dials w @ ds \<and> (\<forall>d \<in> set ds. P d)"
    by (auto simp: counted_dial_def split: prod.splits sum.splits)
qed

lemma sess_env_simps [simp]:
  "en_auth (sess_env env) = en_auth env" "en_router (sess_env env) = en_router env"
  "en_outbounds (sess_env env) = en_outbounds env" "en_chain (sess_env env) = en_chain env"
  "en_lookup (sess_env env) = en_lookup env"
  by (simp_all add: SessEnv.truncate_def)

lemma xray_request_dials:
  assumes "handle_is_authorized (en_auth env) (req_user req)"
  shows "dials_in (permitted (sess_env env) req) (xray_request eng env req leftover)"
proof (cases "req_target req")
  case None
  then show ?thesis
    using assms by (auto simp: xray_request_def Let_def intro!: dial_intros)
next
  case (Some target)
  let ?tag = "route (en_router env) target" and ?P = "permitted (sess_env env) req"
  have udp: "dials_in ?P (xray_request_udp eng env target leftover)" if "req_command req = Udp" "\<not> is_blackhole ?tag"
    unfolding xray_request_udp_def using Some that
    by (cases "outbounds_get (en_outbounds env) ?tag")
       (auto intro!: dials_in_resolved dials_in_bind [OF no_dial_simps(6)] dials_in_guarded dials_in_xray dials_in_bind
         [OF dials_in_counted [OF dials_in_dial(1)]] dials_in_bind [OF no_dial_simps(4)] simp: permitted_def)
  have tcp: "dials_in ?P (xray_request_tcp eng env flow uuid target leftover)" if "req_command req = Tcp" "\<not> is_blackhole ?tag"
    for flow uuid
    unfolding xray_request_tcp_def using Some that
    by (cases flow; cases "outbounds_get (en_outbounds env) ?tag")
       (auto intro!: dials_in_bind dials_in_resolved dials_in_guarded dials_in_xray dials_in_counted dials_in_dial(1)
         no_dial_simps simp: permitted_def)
  show ?thesis
    using assms Some udp tcp by (cases "req_command req") (auto simp: xray_request_def Let_def intro!: dial_intros)
qed

lemma xray_request_refused:
  "\<not> handle_is_authorized (en_auth env) (req_user req) \<Longrightarrow>
   xray_request eng env req leftover w = (Inr True, w\<lparr>w_metrics := rejected_unauthorized (w_metrics w)\<rparr>)"
  by (simp add: xray_request_def abind_def count_def aret_def)

lemma xray_decoy_dials:
  assumes "xray_decoy eng env decoy p w = (r, w')"
  shows "w_dials w' = w_dials w \<and> w_upstream w' = w_upstream w \<or> (\<exists>d. decoy = Some d \<and> w_dials w' = w_dials w @ [ToDecoy d])"
  using assms by (auto simp: xray_decoy_def Let_def split: option.splits sum.splits prod.splits)

lemma handle_xray_cases:
  assumes "handle_xray_vision_session eng env decoy w = (r, w')"
  obtains (quiet) "w_dials w' = w_dials w" "w_upstream w' = w_upstream w"
  | (decoyed) d ps t where "decoy = Some d" "w_dials w' = w_dials w @ [ToDecoy d]" "reads eng (w_session w) ps t"
      "concat ps \<noteq> []" "hd (concat ps) \<noteq> VERSION"
  | (request) req rest ps t where "reads eng (w_session w) ps t" "request_decode (concat ps) = Inr (req, rest)"
      "handle_is_authorized (en_auth env) (req_user req)"
      "\<exists>ds. w_dials w' = w_dials w @ ds \<and> (\<forall>d \<in> set ds. permitted (sess_env env) req d)"
proof -
  obtain h t where h: "xray_head eng [] (w_session w) = (h, t)"
    by fastforce
  consider (err) e where "h = Inl e" | (eof) "h = Inr HeadEof" | (prb) p where "h = Inr (HeadProbe p)"
    | (req) req rest where "h = Inr (HeadRequest req rest)"
    by (metis XrayHead.exhaust sum.exhaust)
  then show thesis
  proof cases
    case (prb p)
    then obtain ps where "reads eng (w_session w) ps t" "head_says [] ps (HeadProbe p)"
      using xray_head_sound [OF h [unfolded prb]] by blast
    moreover have "xray_decoy eng env decoy p (w\<lparr>w_session := t\<rparr>) = (r, w')"
      using assms h prb by (simp add: handle_xray_vision_session_def)
    ultimately show thesis
      using xray_decoy_dials quiet decoyed by (fastforce simp: head_says_def)
  next
    case (req req rest)
    then obtain ps where ps: "reads eng (w_session w) ps t" "head_says [] ps (HeadRequest req rest)"
      using xray_head_sound [OF h [unfolded req]] by blast
    have run: "xray_request eng env req rest (w\<lparr>w_session := t\<rparr>) = (r, w')"
      using assms h req by (simp add: handle_xray_vision_session_def)
    show thesis
    proof (cases "handle_is_authorized (en_auth env) (req_user req)")
      case True
      have "\<exists>ds. w_dials (snd (xray_request eng env req rest (w\<lparr>w_session := t\<rparr>))) = w_dials (w\<lparr>w_session := t\<rparr>) @ ds \<and>
          (\<forall>d \<in> set ds. permitted (sess_env env) req d)"
        using xray_request_dials [OF True, of eng rest] unfolding dials_in_def by blast
      then show thesis
        using request [OF ps(1) _ True] ps(2) run by (simp add: head_says_def)
    next
      case False
      then show thesis
        using quiet run xray_request_refused [OF False, of eng rest "w\<lparr>w_session := t\<rparr>"] by auto
    qed
  qed (use assms h quiet in \<open>auto simp: handle_xray_vision_session_def\<close>)
qed

section \<open>A request in records\<close>

text \<open>The unread bytes are records that open, in order, to \<open>pts\<close>.\<close>

definition unread_records ::
    "('c \<Rightarrow> nat) \<Rightarrow> (nat \<Rightarrow> bytes \<Rightarrow> bytes option) \<Rightarrow> bytes list \<Rightarrow> 'c RecordTlsServer \<Rightarrow> bool" where
  "unread_records rseq opens pts t \<longleftrightarrow>
    (\<exists>recs. rt_unread t = concat recs \<and> length pts = length recs \<and>
      (\<forall>i < length recs. tls_record (recs ! i) \<and> opens (rseq (rt_conn t) + i) (recs ! i) = Some (pts ! i)))"

lemma read_record_next:
  assumes "engine_ok eng rseq wseq opens seals" and "unread_records rseq opens (p # pts) t"
  shows "\<exists>t'. read_record eng t = (Inr p, t') \<and> unread_records rseq opens pts t' \<and> wseq (rt_conn t') = wseq (rt_conn t) \<and>
    tx (rt_tcp t') = tx (rt_tcp t) \<and> tx_room (rt_tcp t') = tx_room (rt_tcp t) \<and> rx_end (rt_tcp t') = rx_end (rt_tcp t)"
proof -
  obtain all_recs where a: "rt_unread t = concat all_recs" "length (p # pts) = length all_recs"
      "\<forall>i < length all_recs. tls_record (all_recs ! i) \<and> opens (rseq (rt_conn t) + i) (all_recs ! i) = Some ((p # pts) ! i)"
    using assms(2) unfolding unread_records_def by blast
  then obtain rec recs where r: "all_recs = rec # recs"
    by (cases all_recs) auto
  have u: "rt_unread t = rec @ concat recs" "length pts = length recs"
    using a r by simp_all
  have 1: "tls_record rec" "opens (rseq (rt_conn t)) rec = Some p"
    using a(3) [rule_format, of 0] r by simp_all
  have 2: "tls_record (recs ! i) \<and> opens (Suc (rseq (rt_conn t)) + i) (recs ! i) = Some (pts ! i)" if "i < length recs" for i
    using a(3) [rule_format, of "Suc i"] r that by simp
  from read_record_opt_ok [OF assms(1) u(1) 1] obtain t' where t': "read_record_opt eng t = (Inr (Some p), t')"
      "rt_unread t' = concat recs" "rseq (rt_conn t') = Suc (rseq (rt_conn t))" "wseq (rt_conn t') = wseq (rt_conn t)"
      "tx (rt_tcp t') = tx (rt_tcp t)" "tx_room (rt_tcp t') = tx_room (rt_tcp t)" "rx_end (rt_tcp t') = rx_end (rt_tcp t)"
    by blast
  then have "unread_records rseq opens pts t'"
    unfolding unread_records_def using u(2) 2 by (intro exI [of _ recs]) simp
  then show ?thesis
    using t' by (simp add: read_record_def abind_def aret_def)
qed

lemma request_bytes_version: "request_ok req \<Longrightarrow> request_bytes req \<noteq> [] \<and> hd (request_bytes req) = VERSION"
  using request_round_trip [of req]
  by (cases "request_bytes req") (auto simp: request_decode_def get_u8_def get_slice_simps rbind_eq_Inr_iff split: if_splits)

lemma xray_head_complete:
  assumes "engine_ok eng rseq wseq opens seals" and "request_ok req"
  shows "\<lbrakk>unread_records rseq opens pts t; [] \<notin> set pts; buf @ concat pts = request_bytes req @ payload; strict_prefix buf (request_bytes req)\<rbrakk> \<Longrightarrow>
    \<exists>rest pts' t'. xray_head eng buf t = (Inr (HeadRequest req rest), t') \<and> rest @ concat pts' = payload \<and>
      unread_records rseq opens pts' t' \<and> wseq (rt_conn t') = wseq (rt_conn t) \<and>
      tx (rt_tcp t') = tx (rt_tcp t) \<and> tx_room (rt_tcp t') = tx_room (rt_tcp t) \<and> rx_end (rt_tcp t') = rx_end (rt_tcp t)"
proof (induction pts arbitrary: buf t)
  case Nil
  then show ?case
    using strict_prefix_length_less [OF Nil.prems(4)] arg_cong [OF Nil.prems(3), of length] by simp
next
  case (Cons p pts)
  from read_record_next [OF assms(1) Cons.prems(1)] obtain t1 where t1: "read_record eng t = (Inr p, t1)" "unread_records rseq opens pts t1"
      "wseq (rt_conn t1) = wseq (rt_conn t)" "tx (rt_tcp t1) = tx (rt_tcp t)" "tx_room (rt_tcp t1) = tx_room (rt_tcp t)"
      "rx_end (rt_tcp t1) = rx_end (rt_tcp t)"
    by blast
  obtain b bs where p: "p = b # bs"
    using Cons.prems(2) by (cases p) auto
  have eq: "(buf @ p) @ concat pts = request_bytes req @ payload"
    using Cons.prems(3) by simp
  have "hd (buf @ p) = hd (request_bytes req @ payload)"
    unfolding eq [symmetric] using p by (cases buf) simp_all
  then have v: "hd (buf @ p) = VERSION"
    using request_bytes_version [OF assms(2)] by simp
  show ?case
  proof (cases "strict_prefix (buf @ p) (request_bytes req)")
    case True
    then obtain e where "request_decode (buf @ p) = Inl e" "is_truncated e"
      using request.truncated [OF assms(2)] by blast
    then have "xray_head eng buf t = xray_head eng (buf @ p) t1"
      using t1(1) v p by (simp add: xray_head.simps [of eng buf t])
    then show ?thesis
      using Cons.IH [OF t1(2) _ eq True] Cons.prems(2) t1(3-6) by auto
  next
    case False
    then obtain rest where r: "buf @ p = request_bytes req @ rest" "payload = rest @ concat pts"
      using append_not_strict_prefix [OF eq] by blast
    then have "request_decode (buf @ p) = Inr (req, rest)"
      using request.round_trip [OF assms(2)] by simp
    then have "xray_head eng buf t = (Inr (HeadRequest req rest), t1)"
      using t1(1) v p by (simp add: xray_head.simps [of eng buf t])
    then show ?thesis
      using r t1(2-6) by blast
  qed
qed

lemma unread_records_ok:
  assumes "unread_records rseq opens pts t" and "rx_end (rt_tcp t) = None" and "tx_room (rt_tcp t) = None"
  shows "record_ok rseq wseq opens seals (tx (rt_tcp t)) (wseq (rt_conn t)) (concat pts) [] t"
proof -
  obtain recs where "rt_unread t = concat recs" "length pts = length recs"
      "\<forall>i < length recs. tls_record (recs ! i) \<and> opens (rseq (rt_conn t) + i) (recs ! i) = Some (pts ! i)"
    using assms(1) unfolding unread_records_def by blast
  then show ?thesis
    unfolding record_ok_def using assms(2,3)
    by (intro conjI exI [of _ recs] exI [of _ pts] exI [of _ "[] :: bytes list"]) simp_all
qed

section \<open>Properties\<close>


lemma xray_plain_exact:
  assumes "engine_ok eng rseq wseq opens seals" and "record_ok rseq wseq opens seals before n inp out (w_session w)"
    and "rx_end up = None" and "tx_room up = None"
  shows "\<exists>over w' u got rest. xray_plain eng env up leftover w = (Inr over, w') \<and> w_upstream w' = Some u \<and> w_dials w' = w_dials w \<and>
    prefix (tx u) (tx up @ leftover @ inp) \<and> prefix got (concat (rx up)) \<and>
    record_ok rseq wseq opens seals before n rest (out @ got) (w_session w') \<and>
    (over \<longrightarrow> tx u = tx up @ leftover @ inp \<and> got = concat (rx up))"
proof -
  from plain_relay_exact [OF assms, of "en_plain_events env" leftover "Some (w_metrics w)"] obtain over st got rest where
    "tls_plain_relay eng (en_plain_events env) (w_session w) up leftover (Some (w_metrics w)) = (Inr over, st)"
    "prefix (tx (pr_target st)) (tx up @ leftover @ inp)" "prefix got (concat (rx up))"
    "record_ok rseq wseq opens seals before n rest (out @ got) (pr_tunnel st)"
    "over \<longrightarrow> tx (pr_target st) = tx up @ leftover @ inp \<and> got = concat (rx up)"
    by blast
  then show ?thesis
    by (simp add: xray_plain_def finish_def) blast
qed

lemma xray_request_tcp_run:
  assumes "(case outbounds_get (en_outbounds env) (route (en_router env) target) of
        Some c \<Rightarrow> dial = ToExit c target Tcp \<and> rbind (dial_command (en_chain env) c target Tcp) (\<lambda>p. Inr (exit_socket p)) = Inr up
      | None \<Rightarrow> \<exists>a. dial = ToTarget a \<and> proxy_resolve (sess_env env) target = Inr a \<and> en_connect env a = Inr up)"
    and "write_plaintext eng response_bytes t = (Inr (), t1)"
    and "w1 = w\<lparr>w_session := t1, w_dials := w_dials w @ [dial], w_upstream := Some up,
      w_fragment := (case outbounds_get (en_outbounds env) (route (en_router env) target) of
          Some _ \<Rightarrow> w_fragment w | None \<Rightarrow> outbounds_fragment (en_outbounds env)),
      w_metrics := tunnel_started_kind KTcp (observe_dial (en_elapsed env) (w_metrics w))\<rparr>"
  shows "xray_request_tcp eng env FlowNone uuid target leftover (w\<lparr>w_session := t\<rparr>) =
      (case xray_plain eng env up leftover w1 of
         (Inr False, w) \<Rightarrow> (Inr False, w) | (r, w) \<Rightarrow> (r, w\<lparr>w_metrics := guard_drop KTcp (w_metrics w)\<rparr>))"
proof (cases "outbounds_get (en_outbounds env) (route (en_router env) target)")
  case None
  then obtain a where "dial = ToTarget a" "proxy_resolve (sess_env env) target = Inr a" "en_connect env a = Inr up"
    using assms(1) by auto
  then show ?thesis
    using None assms(2,3)
    by (cases w) (simp add: xray_request_tcp_def abind_def counted_dial_def connect_target_def log_dial_def alift_def count_def
        aret_def set_upstream_def wrap_fragment_def on_session_def guarded_def map_err_def)
next
  case (Some c)
  then have "dial = ToExit c target Tcp" "rbind (dial_command (en_chain env) c target Tcp) (\<lambda>p. Inr (exit_socket p)) = Inr up"
    using assms(1) by auto
  then show ?thesis
    using Some assms(2,3)
    by (cases w) (simp add: xray_request_tcp_def abind_def counted_dial_def dial_exit_def log_dial_def alift_def count_def
        aret_def set_upstream_def on_session_def guarded_def map_err_def)
qed


text \<open>
  C38.  A record without plaintext in front of the request (a zero-length application-data record or
  a key update, both legal) ends the session: it is taken for the end of the stream, and however valid the
  request behind it, nothing is dialled, nothing is answered and no counter says so.
\<close>

theorem xray_empty_record_drops:
  assumes "engine_ok eng rseq wseq opens seals" and "unread_records rseq opens ([] # pts) (w_session w)"
  shows "\<exists>t. handle_xray_vision_session eng env decoy w = (Inr True, w\<lparr>w_session := t\<rparr>) \<and>
    tx (rt_tcp t) = tx (rt_tcp (w_session w)) \<and> unread_records rseq opens pts t"
proof -
  from read_record_next [OF assms] obtain t where "read_record eng (w_session w) = (Inr [], t)"
      "tx (rt_tcp t) = tx (rt_tcp (w_session w))" "unread_records rseq opens pts t"
    by blast
  then show ?thesis
    by (intro exI [of _ t]) (simp add: handle_xray_vision_session_def xray_head.simps [of eng "[]" "w_session w"])
qed

definition sample_xray_env :: XrayEnv where
  "sample_xray_env = SessEnv.extend sample_env \<lparr>en_plain_events = [True, False, True, False], en_splice_events = []\<rparr>"

definition sample_tunnel :: "bytes list \<Rightarrow> (nat \<times> nat \<times> bytes \<times> bytes) RecordTlsServer" where
  "sample_tunnel inputs = \<lparr>rt_tcp = sample_sock inputs, rt_conn = (0, 0, [], []), rt_inbuf = [], rt_read_total = 0\<rparr>"

text \<open>The request of \<open>plain_request\<close> in one record and two bytes of payload in another.\<close>

definition sample_pts :: "bytes list" where
  "sample_pts = [request_bytes plain_request @ [1], [2]]"

definition as_record :: "bytes \<Rightarrow> bytes" where
  "as_record p = [0x17, 3, 3] @ be16 (of_nat (length p)) @ p"

lemma as_record_simps: "length p < 65536 \<Longrightarrow> tls_record (as_record p)" "drop 5 (as_record p) = p"
proof -
  obtain h l where hl: "be16 (of_nat (length p)) = [h, l]" "from_be16 h l = of_nat (length p)"
    by (simp add: be16_def)
  then have "as_record p = [0x17, 3, 3, h, l] @ p"
    by (simp add: as_record_def)
  then show "length p < 65536 \<Longrightarrow> tls_record (as_record p)" "drop 5 (as_record p) = p"
    using hl(2) by (simp_all add: tls_record_def record_total_def unat_of_nat_u16)
qed

lemma sample_unread:
  "\<forall>p \<in> set pts. length p < 65536 \<Longrightarrow> unread_records fst (\<lambda>_ r. Some (drop 5 r)) pts (sample_tunnel (map as_record pts))"
  unfolding unread_records_def
  by (rule exI [of _ "map as_record pts"])
     (simp add: sample_tunnel_def sample_sock_def rt_unread_def as_record_simps)

lemma sample_pts_facts:
  "concat sample_pts = request_bytes plain_request @ [1, 2]" "[] \<notin> set sample_pts" "\<forall>p \<in> set sample_pts. length p < 65536"
proof -
  have "length (request_bytes plain_request) < 100"
    by (simp add: plain_request_def request_bytes_def request_encode_def encode_head_def encode_target_def request_addons_def
        addons_encode_def be16_def Let_def)
  then show "\<forall>p \<in> set sample_pts. length p < 65536"
    by (simp add: sample_pts_def)
qed (simp_all add: sample_pts_def)


theorem xray_empty_record_drops_witness:
  "\<exists>t. handle_xray_vision_session sample_engine sample_xray_env None
      (world_of (sample_tunnel (map as_record ([] # sample_pts))) metrics_new) =
    (Inr True, (world_of (sample_tunnel (map as_record ([] # sample_pts))) metrics_new)\<lparr>w_session := t\<rparr>) \<and>
    unread_records fst (\<lambda>_ r. Some (drop 5 r)) sample_pts t"
  using xray_empty_record_drops [OF sample_engine_ok, of sample_pts "world_of (sample_tunnel (map as_record ([] # sample_pts))) metrics_new"
      sample_xray_env None] sample_unread [of "[] # sample_pts"] sample_pts_facts(3)
  by (auto simp: world_of_def)


end
