(* ===== verification/Spec2Isabelle.thy ===== *)
theory Spec2Isabelle
  imports Vision_Codec Routing Socks_Inbound Fragmentation User_Store Carrier_Client Selfsteal Share_Links Donut_Config Vision_Splice Mux_Relay Idle_Timeout Xray_Session
begin

text \<open>
  A verification development of the hold-the-donut proxy.
\<close>

end
